(* ===== verification/Prelude.thy ===== *)
theory Prelude
  imports Main "HOL-Library.Word" "HOL-Library.Sublist"
begin

text \<open>
  Shared vocabulary of the development: machine types, C memory errors as values, the sequencing
  of fallible steps, a total-correctness predicate with its rules, and reading through a pointer
  into a buffer. Every component theory imports this one.
\<close>

unbundle bit_operations_syntax

named_theorems ensures_rules \<open>what one operation of the model guarantees, as facts about \<open>ensures\<close>\<close>

section \<open>Machine types\<close>

type_synonym byte = "8 word"
type_synonym u16 = "16 word"
type_synonym u32 = "32 word"
type_synonym u64 = "64 word"

text \<open>
  A \<open>const char *\<close> is the list of bytes from the pointer to the end of the object it points
  into: a NUL-terminated string has its terminator in the list, and bytes may follow it.
\<close>

type_synonym cursor = "byte list"

section \<open>Faults and sequencing\<close>

text \<open>
  What stops a C function short of returning: an access outside an object, a failed
  \<open>assert\<close>, a null or dangling pointer, a loop that does not end, an exhausted recursion
  bound of the model. A function that can go wrong in one of these ways has an outcome.
\<close>

datatype fault =
    Read_OOB
  | Write_OOB
  | Assert_failed
  | Null_deref
  | Dangling
  | Diverges
  | No_fuel
  | Abort_called
  | Cxx_exception
  | Wrong_member

datatype 'a outcome = Fault fault | Ret 'a

fun bindO :: "'a outcome \<Rightarrow> ('a \<Rightarrow> 'b outcome) \<Rightarrow> 'b outcome" where
  "bindO (Fault e) f = Fault e"
| "bindO (Ret x) f = f x"

definition assertO :: "bool \<Rightarrow> unit outcome" where
  "assertO b = (if b then Ret () else Fault Assert_failed)"

lemma bindO_cong [fundef_cong]:
  "m = m' \<Longrightarrow> (\<And>x. m' = Ret x \<Longrightarrow> f x = f' x) \<Longrightarrow> bindO m f = bindO m' f'"
  by (cases m') auto

lemma bindO_Ret_iff: "bindO m f = Ret y \<longleftrightarrow> (\<exists>x. m = Ret x \<and> f x = Ret y)"
  by (cases m) auto

lemma bindO_Fault_iff:
  "bindO m f = Fault e \<longleftrightarrow> m = Fault e \<or> (\<exists>x. m = Ret x \<and> f x = Fault e)"
  by (cases m) auto

lemma bindO_assoc: "bindO (bindO m f) g = bindO m (\<lambda>x. bindO (f x) g)"
  by (cases m) auto

lemma assertO_simps [simp]:
  "assertO True = Ret ()" "assertO False = Fault Assert_failed"
  by (simp_all add: assertO_def)

lemma assertO_Ret_iff [simp]: "assertO b = Ret u \<longleftrightarrow> b"
  by (simp add: assertO_def)

text \<open>\<open>ensures m Q\<close>: the step returns, and its result satisfies \<open>Q\<close> (total correctness).\<close>

fun ensures :: "'a outcome \<Rightarrow> ('a \<Rightarrow> bool) \<Rightarrow> bool" where
  "ensures (Fault e) Q = False"
| "ensures (Ret x) Q = Q x"

lemma ensures_bindO:
  "ensures m P \<Longrightarrow> (\<And>x. m = Ret x \<Longrightarrow> P x \<Longrightarrow> ensures (f x) Q) \<Longrightarrow> ensures (bindO m f) Q"
  by (cases m) auto

lemma ensures_mono: "ensures m P \<Longrightarrow> (\<And>x. m = Ret x \<Longrightarrow> P x \<Longrightarrow> Q x) \<Longrightarrow> ensures m Q"
  by (cases m) auto

lemma ensures_conj: "ensures m (\<lambda>x. P x \<and> Q x) \<longleftrightarrow> ensures m P \<and> ensures m Q"
  by (cases m) auto

lemma ensures_iff: "ensures m Q \<longleftrightarrow> (\<exists>x. m = Ret x \<and> Q x)"
  by (cases m) auto

lemma ensures_RetD: "ensures m Q \<Longrightarrow> m = Ret x \<Longrightarrow> Q x"
  by simp

section \<open>Parsers\<close>

text \<open>
  A parsing function of json.c returns a \<open>bool\<close> and, when true, stores a value through
  \<open>out\<close> and the advanced pointer through \<open>sp\<close>: \<open>Fail\<close> is false, \<open>Ok v s\<close> is true
  with what was stored. \<open>bindP\<close> is the idiom \<open>if (!parse(&s, &v)) return false;\<close>.
\<close>

datatype 'a parsed = Fail | Ok 'a cursor

definition bindP ::
  "'a parsed outcome \<Rightarrow> ('a \<Rightarrow> cursor \<Rightarrow> 'b parsed outcome) \<Rightarrow> 'b parsed outcome" where
  "bindP m f = bindO m (\<lambda>r. case r of Fail \<Rightarrow> Ret Fail | Ok v s \<Rightarrow> f v s)"

lemma bindP_simps [simp]:
  "bindP (Fault e) f = Fault e"
  "bindP (Ret Fail) f = Ret Fail"
  "bindP (Ret (Ok v s)) f = f v s"
  by (simp_all add: bindP_def)

lemma bindP_cong [fundef_cong]:
  "m = m' \<Longrightarrow> (\<And>v s. m' = Ret (Ok v s) \<Longrightarrow> f v s = f' v s) \<Longrightarrow> bindP m f = bindP m' f'"
  by (auto simp: bindP_def intro!: bindO_cong split: parsed.split)

lemma bindP_Ok_iff:
  "bindP m f = Ret (Ok w t) \<longleftrightarrow> (\<exists>v s. m = Ret (Ok v s) \<and> f v s = Ret (Ok w t))"
proof (cases m)
  case (Ret r)
  then show ?thesis by (cases r) auto
qed simp

text \<open>\<open>on_ok Q r\<close>: the parser may fail, and what it accepts satisfies \<open>Q\<close>.\<close>

fun on_ok :: "('a \<Rightarrow> cursor \<Rightarrow> bool) \<Rightarrow> 'a parsed \<Rightarrow> bool" where
  "on_ok Q Fail = True"
| "on_ok Q (Ok v s) = Q v s"

lemma ensures_bindP:
  assumes "ensures m (on_ok P)"
    and "\<And>v s. m = Ret (Ok v s) \<Longrightarrow> P v s \<Longrightarrow> ensures (f v s) (on_ok Q)"
  shows "ensures (bindP m f) (on_ok Q)"
proof (cases m)
  case (Ret r)
  with assms show ?thesis by (cases r) auto
qed (use assms in auto)

section \<open>Reading through a pointer\<close>

text \<open>\<open>s[i]\<close>: the byte at an offset, or a fault outside the object.\<close>

definition rd :: "cursor \<Rightarrow> nat \<Rightarrow> byte outcome" where
  "rd s i = (if i < length s then Ret (s ! i) else Fault Read_OOB)"

lemma rd_Nil [simp]: "rd [] i = Fault Read_OOB"
  by (simp add: rd_def)

lemma rd_0 [simp]: "rd (c # s) 0 = Ret c"
  by (simp add: rd_def)

lemma rd_Suc [simp]: "rd (c # s) (Suc i) = rd s i"
  by (simp add: rd_def)

lemma rd_numeral [simp]: "rd (c # s) (numeral k) = rd s (pred_numeral k)"
  by (simp add: numeral_eq_Suc)

lemma rd_Ret_iff: "rd s i = Ret c \<longleftrightarrow> i < length s \<and> s ! i = c"
  by (simp add: rd_def)

lemma rd_0_Ret_iff: "rd s 0 = Ret c \<longleftrightarrow> (\<exists>t. s = c # t)"
  by (cases s) auto

text \<open>The object holds the string's terminator.\<close>

definition terminated :: "cursor \<Rightarrow> bool" where
  "terminated s \<longleftrightarrow> 0 \<in> set s"

lemma terminated_simps [simp]:
  "\<not> terminated []"
  "terminated (c # s) \<longleftrightarrow> c = 0 \<or> terminated s"
  "terminated (s @ t) \<longleftrightarrow> terminated s \<or> terminated t"
  by (auto simp: terminated_def)

lemma terminatedE:
  assumes "terminated s"
  obtains cs t where "s = cs @ 0 # t" "0 \<notin> set cs"
  using split_list_first [of 0 s] assms by (auto simp: terminated_def)

text \<open>The pointer moved from \<open>s\<close> to \<open>t\<close> over bytes none of which is the terminator.\<close>

definition moved :: "cursor \<Rightarrow> cursor \<Rightarrow> bool" where
  "moved s t \<longleftrightarrow> (\<exists>p. s = p @ t \<and> 0 \<notin> set p)"

definition advanced :: "cursor \<Rightarrow> cursor \<Rightarrow> bool" where
  "advanced s t \<longleftrightarrow> moved s t \<and> length t < length s"

lemma moved_refl [simp, intro]: "moved s s"
  by (auto simp: moved_def)

lemma moved_Cons [simp, intro]: "c \<noteq> 0 \<Longrightarrow> moved s t \<Longrightarrow> moved (c # s) t"
  unfolding moved_def by (metis append_Cons set_ConsD)

lemma moved_trans: "moved s t \<Longrightarrow> moved t u \<Longrightarrow> moved s u"
  unfolding moved_def by (metis Un_iff append.assoc set_append)

lemma moved_length: "moved s t \<Longrightarrow> length t \<le> length s"
  by (auto simp: moved_def)

lemma moved_terminated: "moved s t \<Longrightarrow> terminated s \<Longrightarrow> terminated t"
  by (auto simp: moved_def terminated_def)

lemma moved_drop: "0 \<notin> set (take n s) \<Longrightarrow> moved s (drop n s)"
  unfolding moved_def by (rule exI [of _ "take n s"]) simp

lemma moved_suffix: "moved s t \<Longrightarrow> suffix t s"
  by (auto simp: moved_def suffix_def)

lemma advanced_moved: "advanced s t \<Longrightarrow> moved s t"
  by (simp add: advanced_def)

lemma advanced_length: "advanced s t \<Longrightarrow> length t < length s"
  by (simp add: advanced_def)

lemma advanced_terminated: "advanced s t \<Longrightarrow> terminated s \<Longrightarrow> terminated t"
  by (auto dest: advanced_moved moved_terminated)

lemma advanced_Cons [simp, intro]: "c \<noteq> 0 \<Longrightarrow> moved s t \<Longrightarrow> advanced (c # s) t"
  using moved_length [of s t] by (simp add: advanced_def)

lemma advanced_moved_trans: "advanced s t \<Longrightarrow> moved t u \<Longrightarrow> advanced s u"
  by (meson advanced_def le_less_trans moved_length moved_trans)

lemma moved_advanced_trans: "moved s t \<Longrightarrow> advanced t u \<Longrightarrow> advanced s u"
  by (meson advanced_def less_le_trans moved_length moved_trans)

lemmas advance_trans = moved_trans advanced_moved_trans moved_advanced_trans

section \<open>Strings\<close>

text \<open>ASCII text as bytes.\<close>

definition ascii :: "string \<Rightarrow> byte list" where
  "ascii str = map of_char str"

text \<open>The C string at a pointer: the bytes in front of the first NUL.\<close>

definition c_str :: "cursor \<Rightarrow> byte list" where
  "c_str s = takeWhile (\<lambda>c. c \<noteq> 0) s"

lemma c_str_append: "0 \<notin> set bs \<Longrightarrow> c_str (bs @ 0 # t) = bs"
  unfolding c_str_def by (subst takeWhile_append2) auto

section \<open>Bit masks as arithmetic\<close>

lemma or_disjoint_add:
  fixes k x :: nat
  assumes "2 ^ n dvd k" "x < 2 ^ n"
  shows "k OR x = k + x"
proof -
  from assms(1) obtain m where k: "k = m * 2 ^ n" by (auto simp: dvd_def mult.commute)
  have "k = push_bit n m" by (simp add: k push_bit_eq_mult)
  moreover have "take_bit n x = x" using assms(2) by (simp add: take_bit_nat_eq_self)
  ultimately have "k AND x = 0"
    by (intro bit_eqI) (auto simp: bit_simps, metis bit_take_bit_iff leD)
  then show ?thesis
    using disjunctive_add_eq_or by force
qed

lemma and_mask_mod: "(x::nat) AND (2 ^ n - 1) = x mod 2 ^ n"
  by (metis mask_eq_exp_minus_1 take_bit_eq_mask take_bit_eq_mod)

lemma and_low_bits:
  "(x::nat) AND 0x3FF = x mod 1024" "x AND 0x3F = x mod 64" "x AND 0x1F = x mod 32"
  "x AND 0xF = x mod 16" "x AND 0x7 = x mod 8"
  using and_mask_mod [of x 10] and_mask_mod [of x 6] and_mask_mod [of x 5]
    and_mask_mod [of x 4] and_mask_mod [of x 3] by simp_all

lemmas unat_bits = unsigned_or_eq unsigned_and_eq unsigned_push_bit_eq unsigned_drop_bit_eq
  unsigned_ucast_eq take_bit_eq_mod [where ?'a = nat] drop_bit_eq_div [where ?'a = nat]
  push_bit_eq_mult [where ?'a = nat] and_low_bits

lemmas byte_nat = word_le_nat_alt word_less_nat_alt word_unat_eq_iff

lemma unat_byte_less: "unat (c :: byte) < 256"
  using unsigned_less [of c, where ?'a = nat] by simp

lemma unat_or_add: "2 ^ n dvd unat x \<Longrightarrow> unat y < 2 ^ n \<Longrightarrow> unat (x OR y) = unat x + unat y"
  by (simp add: unsigned_or_eq or_disjoint_add)

section \<open>Prefix codes\<close>

text \<open>
  The contract between an encoder and a decoder that reads one item off the front of a byte
  sequence and returns the rest. What follows from it is proved once: encodings are
  unambiguous, also when they are concatenated.
\<close>

locale prefix_codec =
  fixes enc :: "'a \<Rightarrow> byte list"
    and dec :: "byte list \<Rightarrow> ('a \<times> byte list) option"
    and ok :: "'a \<Rightarrow> bool"
  assumes dec_enc: "ok x \<Longrightarrow> dec (enc x @ t) = Some (x, t)"
    and enc_nonempty: "ok x \<Longrightarrow> enc x \<noteq> []"
begin

lemma enc_unambiguous:
  assumes "ok x" "ok y" "enc x @ t = enc y @ u"
  shows "x = y \<and> t = u"
proof -
  have "Some (x, t) = Some (y, u)"
    unfolding dec_enc [OF assms(1), symmetric] dec_enc [OF assms(2), symmetric] assms(3) ..
  then show ?thesis by simp
qed

lemma concat_unambiguous:
  "list_all ok xs \<Longrightarrow> list_all ok ys \<Longrightarrow> concat (map enc xs) = concat (map enc ys) \<Longrightarrow> xs = ys"
proof (induction xs arbitrary: ys)
  case Nil
  then show ?case by (cases ys) (simp_all add: enc_nonempty)
next
  case (Cons x xs)
  from Cons.prems enc_nonempty [of x] obtain y ys' where ys: "ys = y # ys'"
    by (cases ys) auto
  from Cons.prems have "ok x" "ok y" "enc x @ concat (map enc xs) = enc y @ concat (map enc ys')"
    by (simp_all add: ys)
  then have "x = y \<and> concat (map enc xs) = concat (map enc ys')" by (rule enc_unambiguous)
  with Cons.IH [of ys'] Cons.prems show ?case by (simp add: ys)
qed

end

end
