(* ===== verification/Utf8.thy ===== *)
theory Utf8
  imports Prelude
begin

text \<open>
  The Unicode helpers of src/json.c: validating, reading and writing one UTF-8 character, and
  UTF-16 surrogate pairs. The definitions work on bytes and 32-bit code points as the C does.
  The lemmas relate them to the arithmetic of RFC 3629: writing then reading is the identity on
  scalar values, and what the validator accepts is what the writer produces.
\<close>

section \<open>Definitions\<close>

text \<open>A Unicode scalar value, the argument range \<open>utf8_write_char\<close> asserts.\<close>

definition is_scalar :: "u32 \<Rightarrow> bool" where
  "is_scalar u \<longleftrightarrow> u \<le> 0x10FFFF \<and> \<not> (u \<ge> 0xD800 \<and> u \<le> 0xDFFF)"

text \<open>\<open>((unsigned char)*s++ & 0xC0) != 0x80\<close>: return 0, otherwise go on.\<close>

definition need_cont :: "cursor \<Rightarrow> nat \<Rightarrow> nat outcome \<Rightarrow> nat outcome" where
  "need_cont s i k = bindO (rd s i) (\<lambda>c. if c AND 0xC0 \<noteq> 0x80 then Ret 0 else k)"

definition utf8_validate_cz :: "cursor \<Rightarrow> nat outcome" where
  "utf8_validate_cz s = bindO (rd s 0) (\<lambda>c.
     if c \<le> 0x7F then Ret 1
     else if c \<le> 0xC1 then Ret 0
     else if c \<le> 0xDF then need_cont s 1 (Ret 2)
     else if c \<le> 0xEF then
       bindO (if c = 0xE0 then bindO (rd s 1) (\<lambda>d. Ret (d < 0xA0)) else Ret False) (\<lambda>overlong.
       if overlong then Ret 0 else
       bindO (if c = 0xED then bindO (rd s 1) (\<lambda>d. Ret (d > 0x9F)) else Ret False) (\<lambda>surrogate.
       if surrogate then Ret 0 else
       need_cont s 1 (need_cont s 2 (Ret 3))))
     else if c \<le> 0xF4 then
       bindO (if c = 0xF0 then bindO (rd s 1) (\<lambda>d. Ret (d < 0x90)) else Ret False) (\<lambda>overlong.
       if overlong then Ret 0 else
       bindO (if c = 0xF4 then bindO (rd s 1) (\<lambda>d. Ret (d > 0x8F)) else Ret False) (\<lambda>beyond.
       if beyond then Ret 0 else
       need_cont s 1 (need_cont s 2 (need_cont s 3 (Ret 4)))))
     else Ret 0)"

text \<open>The code point read and its length in bytes.\<close>

definition utf8_read_char :: "cursor \<Rightarrow> (u32 \<times> nat) outcome" where
  "utf8_read_char s =
     bindO (utf8_validate_cz s) (\<lambda>n.
     bindO (assertO (n \<noteq> 0)) (\<lambda>_.
     bindO (rd s 0) (\<lambda>c0.
     if c0 \<le> 0x7F then Ret (ucast c0, 1)
     else if c0 \<le> 0xDF then
       bindO (rd s 1) (\<lambda>c1.
       Ret (push_bit 6 (ucast c0 AND 0x1F) OR (ucast c1 AND 0x3F), 2))
     else if c0 \<le> 0xEF then
       bindO (rd s 1) (\<lambda>c1. bindO (rd s 2) (\<lambda>c2.
       Ret (push_bit 12 (ucast c0 AND 0xF) OR push_bit 6 (ucast c1 AND 0x3F)
            OR (ucast c2 AND 0x3F), 3)))
     else
       bindO (rd s 1) (\<lambda>c1. bindO (rd s 2) (\<lambda>c2. bindO (rd s 3) (\<lambda>c3.
       Ret (push_bit 18 (ucast c0 AND 0x7) OR push_bit 12 (ucast c1 AND 0x3F)
            OR push_bit 6 (ucast c2 AND 0x3F) OR (ucast c3 AND 0x3F), 4)))))))"

text \<open>The bytes stored through \<open>out\<close>; the C function returns their number.\<close>

definition utf8_write_char :: "u32 \<Rightarrow> byte list outcome" where
  "utf8_write_char unicode =
     bindO (assertO (is_scalar unicode)) (\<lambda>_. Ret (
     if unicode \<le> 0x7F then [ucast unicode]
     else if unicode \<le> 0x7FF then
       [ucast (0xC0 OR drop_bit 6 unicode), ucast (0x80 OR (unicode AND 0x3F))]
     else if unicode \<le> 0xFFFF then
       [ucast (0xE0 OR drop_bit 12 unicode), ucast (0x80 OR (drop_bit 6 unicode AND 0x3F)),
        ucast (0x80 OR (unicode AND 0x3F))]
     else
       [ucast (0xF0 OR drop_bit 18 unicode), ucast (0x80 OR (drop_bit 12 unicode AND 0x3F)),
        ucast (0x80 OR (drop_bit 6 unicode AND 0x3F)), ucast (0x80 OR (unicode AND 0x3F))]))"

text \<open>The whole string, up to its terminator.\<close>

function utf8_validate :: "cursor \<Rightarrow> bool outcome" where
  "utf8_validate s = bindO (rd s 0) (\<lambda>c.
     if c = 0 then Ret True
     else bindO (utf8_validate_cz s) (\<lambda>len.
       if len = 0 then Ret False else utf8_validate (drop len s)))"
  by pat_completeness auto
termination
  by (relation "measure length") (auto simp: rd_0_Ret_iff)

declare utf8_validate.simps [simp del]

definition from_surrogate_pair :: "u16 \<Rightarrow> u16 \<Rightarrow> u32 option" where
  "from_surrogate_pair uc lc =
     (if uc \<ge> 0xD800 \<and> uc \<le> 0xDBFF \<and> lc \<ge> 0xDC00 \<and> lc \<le> 0xDFFF
      then Some (0x10000 + (push_bit 10 (ucast uc AND 0x3FF) OR ucast (lc AND 0x3FF)))
      else None)"

definition to_surrogate_pair :: "u32 \<Rightarrow> (u16 \<times> u16) outcome" where
  "to_surrogate_pair unicode =
     bindO (assertO (unicode \<ge> 0x10000 \<and> unicode \<le> 0x10FFFF)) (\<lambda>_.
     let n = unicode - 0x10000
     in Ret (ucast ((drop_bit 10 n AND 0x3FF) OR 0xD800), ucast ((n AND 0x3FF) OR 0xDC00)))"

section \<open>Bit operations of the definitions\<close>

lemma cont_iff: "(c::8 word) AND 0xC0 = 0x80 \<longleftrightarrow> 128 \<le> unat c \<and> unat c < 192"
proof -
  have eq: "c AND 0xC0 = push_bit 6 (drop_bit 6 c)"
  proof (rule bit_word_eqI)
    fix n assume "n < LENGTH(8)"
    then have "n = 0 \<or> n = 1 \<or> n = 2 \<or> n = 3 \<or> n = 4 \<or> n = 5 \<or> n = 6 \<or> n = 7" by auto
    then show "bit (c AND 0xC0) n = bit (push_bit 6 (drop_bit 6 c)) n"
      by (elim disjE) (simp_all add: bit_and_iff bit_push_bit_iff bit_drop_bit_eq)
  qed
  have "unat (c AND 0xC0) = 64 * (unat c div 64) mod 256"
    unfolding eq by (simp only: unsigned_push_bit_eq unsigned_drop_bit_eq)
      (use unsigned_less [of c, where ?'a = nat] in \<open>simp add: push_bit_eq_mult drop_bit_eq_div take_bit_eq_mod mult.commute\<close>)
  moreover have "64 * (x div 64) mod 256 = 128 \<longleftrightarrow> 128 \<le> x \<and> x < 192" if "x < 256" for x :: nat
  proof -
    obtain q r where x: "x = 64 * q + r" "r < 64" using that
      by (metis mod_less_divisor mult_div_mod_eq zero_less_numeral)
    then have "x div 64 = q" by simp
    moreover from that x have "q < 4" by simp
    then have "q = 0 \<or> q = 1 \<or> q = 2 \<or> q = 3" by auto
    ultimately show ?thesis using x by (elim disjE) simp_all
  qed
  ultimately show ?thesis
    using unsigned_less [of c, where ?'a = nat] by (simp add: word_unat_eq_iff)
qed

lemma unat_tail: "unat (ucast (0x80 OR ((x::32 word) AND 0x3F)) :: 8 word) = 128 + unat x mod 64"
proof -
  have "(128::nat) OR (unat x mod 64) = 128 + unat x mod 64"
    by (rule or_disjoint_add [where n = 6]) auto
  then show ?thesis by (simp add: unat_bits mod_mod_cancel)
qed

lemma unat_lead2: "unat (x::32 word) < 2048 \<Longrightarrow> unat (ucast (0xC0 OR drop_bit 6 x) :: 8 word) = 192 + unat x div 64"
  using or_disjoint_add [of 5 192 "unat x div 64"] by (simp add: unat_bits)
lemma unat_lead3: "unat (x::32 word) < 65536 \<Longrightarrow> unat (ucast (0xE0 OR drop_bit 12 x) :: 8 word) = 224 + unat x div 4096"
  using or_disjoint_add [of 4 224 "unat x div 4096"] by (simp add: unat_bits)
lemma unat_lead4: "unat (x::32 word) < 2097152 \<Longrightarrow> unat (ucast (0xF0 OR drop_bit 18 x) :: 8 word) = 240 + unat x div 262144"
  using or_disjoint_add [of 3 240 "unat x div 262144"] by (simp add: unat_bits)

lemma unat_shifted:
  "unat (push_bit 6 (ucast (a::8 word) AND 0x1F) :: 32 word) = unat a mod 32 * 64"
  "unat (push_bit 6 (ucast a AND 0x3F) :: 32 word) = unat a mod 64 * 64"
  "unat (push_bit 12 (ucast a AND 0x3F) :: 32 word) = unat a mod 64 * 4096"
  "unat (push_bit 12 (ucast a AND 0xF) :: 32 word) = unat a mod 16 * 4096"
  "unat (push_bit 18 (ucast a AND 0x7) :: 32 word) = unat a mod 8 * 262144"
  "unat (ucast a AND 0x3F :: 32 word) = unat a mod 64"
  "unat (ucast a :: 32 word) = unat a"
proof -
  have a: "unat (ucast a :: 32 word) = unat a"
    using unsigned_less [of a, where ?'a = nat] by (simp add: unsigned_ucast_eq take_bit_nat_eq_self)
  show "unat (push_bit 6 (ucast a AND 0x1F) :: 32 word) = unat a mod 32 * 64"
    "unat (push_bit 6 (ucast a AND 0x3F) :: 32 word) = unat a mod 64 * 64"
    "unat (push_bit 12 (ucast a AND 0x3F) :: 32 word) = unat a mod 64 * 4096"
    "unat (push_bit 12 (ucast a AND 0xF) :: 32 word) = unat a mod 16 * 4096"
    "unat (push_bit 18 (ucast a AND 0x7) :: 32 word) = unat a mod 8 * 262144"
    "unat (ucast a AND 0x3F :: 32 word) = unat a mod 64"
    "unat (ucast a :: 32 word) = unat a"
    using a by (simp_all only: unsigned_push_bit_eq unsigned_and_eq)
      (simp_all add: unat_bits push_bit_eq_mult)
qed

lemma unat_read2: "unat (push_bit 6 (ucast (a::8 word) AND 0x1F) OR (ucast (b::8 word) AND 0x3F) :: 32 word)
   = unat a mod 32 * 64 + unat b mod 64"
  by (subst unat_or_add [where n = 6]) (simp_all add: unat_shifted del: push_bit_and)

lemma unat_read3:
  "unat (push_bit 12 (ucast (a::8 word) AND 0xF) OR push_bit 6 (ucast (b::8 word) AND 0x3F) OR (ucast (c::8 word) AND 0x3F) :: 32 word)
   = unat a mod 16 * 4096 + unat b mod 64 * 64 + unat c mod 64"
proof -
  have 1: "unat (push_bit 6 (ucast b AND 0x3F) OR (ucast c AND 0x3F) :: 32 word) = unat b mod 64 * 64 + unat c mod 64"
    by (subst unat_or_add [where n = 6]) (simp_all add: unat_shifted del: push_bit_and)
  have 2: "unat b mod 64 * 64 + unat c mod 64 < 4096"
    using mod_less_divisor [of 64 "unat b"] mod_less_divisor [of 64 "unat c"] by linarith
  show ?thesis
    by (subst unat_or_add [where n = 12]) (use 1 2 in \<open>simp_all add: unat_shifted del: push_bit_and\<close>)
qed

lemma unat_read4:
  "unat (push_bit 18 (ucast (a::8 word) AND 0x7) OR push_bit 12 (ucast (b::8 word) AND 0x3F) OR push_bit 6 (ucast (c::8 word) AND 0x3F) OR (ucast (d::8 word) AND 0x3F) :: 32 word)
   = unat a mod 8 * 262144 + unat b mod 64 * 4096 + unat c mod 64 * 64 + unat d mod 64"
proof -
  have 1: "unat (push_bit 6 (ucast c AND 0x3F) OR (ucast d AND 0x3F) :: 32 word) = unat c mod 64 * 64 + unat d mod 64"
    by (subst unat_or_add [where n = 6]) (simp_all add: unat_shifted del: push_bit_and)
  have 2: "unat c mod 64 * 64 + unat d mod 64 < 4096"
    using mod_less_divisor [of 64 "unat c"] mod_less_divisor [of 64 "unat d"] by linarith
  have 3: "unat (push_bit 12 (ucast b AND 0x3F) OR (push_bit 6 (ucast c AND 0x3F) OR (ucast d AND 0x3F)) :: 32 word)
      = unat b mod 64 * 4096 + (unat c mod 64 * 64 + unat d mod 64)"
    by (subst unat_or_add [where n = 12]) (use 1 2 in \<open>simp_all add: unat_shifted del: push_bit_and\<close>)
  have 4: "unat b mod 64 * 4096 + (unat c mod 64 * 64 + unat d mod 64) < 262144"
    using 2 mod_less_divisor [of 64 "unat b"] by linarith
  show ?thesis
    by (subst unat_or_add [where n = 18])
      (use 3 4 in \<open>simp_all add: unat_shifted del: push_bit_and\<close>)
qed

section \<open>RFC 3629\<close>

text \<open>The table of well-formed byte sequences, on numbers.\<close>

definition cont_byte :: "nat \<Rightarrow> bool" where
  "cont_byte b \<longleftrightarrow> 128 \<le> b \<and> b < 192"

fun wf_utf8 :: "nat list \<Rightarrow> bool" where
  "wf_utf8 [a] \<longleftrightarrow> a \<le> 0x7F"
| "wf_utf8 [a, b] \<longleftrightarrow> 0xC2 \<le> a \<and> a \<le> 0xDF \<and> cont_byte b"
| "wf_utf8 [a, b, c] \<longleftrightarrow> 0xE0 \<le> a \<and> a \<le> 0xEF \<and> cont_byte b \<and> cont_byte c
     \<and> (a = 0xE0 \<longrightarrow> 0xA0 \<le> b) \<and> (a = 0xED \<longrightarrow> b \<le> 0x9F)"
| "wf_utf8 [a, b, c, d] \<longleftrightarrow> 0xF0 \<le> a \<and> a \<le> 0xF4 \<and> cont_byte b \<and> cont_byte c \<and> cont_byte d
     \<and> (a = 0xF0 \<longrightarrow> 0x90 \<le> b) \<and> (a = 0xF4 \<longrightarrow> b \<le> 0x8F)"
| "wf_utf8 _ \<longleftrightarrow> False"

lemma cont_byte_iff: "cont_byte (unat c) \<longleftrightarrow> c AND 0xC0 = (0x80 :: byte)" for c :: byte
  unfolding cont_byte_def by (rule cont_iff [symmetric])

lemma wf_utf8_length: "wf_utf8 bs \<Longrightarrow> length bs \<in> {1, 2, 3, 4}"
  by (cases bs rule: wf_utf8.cases) auto

lemma validate_lead:
  "utf8_validate_cz (a # t) =
    (if unat a \<le> 127 then Ret 1
     else if unat a \<le> 193 then Ret 0
     else if unat a \<le> 223 then need_cont (a # t) 1 (Ret 2)
     else if unat a \<le> 239 then
       (if t = [] then Fault Read_OOB
        else if unat a = 224 \<and> unat (hd t) < 160 \<or> unat a = 237 \<and> unat (hd t) > 159 then Ret 0
        else need_cont (a # t) 1 (need_cont (a # t) 2 (Ret 3)))
     else if unat a \<le> 244 then
       (if t = [] then Fault Read_OOB
        else if unat a = 240 \<and> unat (hd t) < 144 \<or> unat a = 244 \<and> unat (hd t) > 143 then Ret 0
        else need_cont (a # t) 1 (need_cont (a # t) 2 (need_cont (a # t) 3 (Ret 4))))
     else Ret 0)"
proof (cases t)
  case Nil
  then show ?thesis
    by (simp add: utf8_validate_cz_def byte_nat need_cont_def)
next
  case (Cons b u)
  then show ?thesis
    by (simp add: utf8_validate_cz_def byte_nat)
qed

lemma cursor_shape:
  obtains "s = []" | a where "s = [a]" | a b where "s = [a, b]" | a b c where "s = [a, b, c]"
  | a b c d t where "s = a # b # c # d # t"
  by (metis list.exhaust)

lemma need_cont_simps:
  "need_cont [] i k = Fault Read_OOB"
  "need_cont (a # t) 0 k = (if cont_byte (unat a) then k else Ret 0)"
  "need_cont (a # t) (Suc i) k = need_cont t i k"
  "need_cont (a # t) (numeral j) k = need_cont t (pred_numeral j) k"
  by (auto simp: need_cont_def cont_iff cont_byte_def)

lemma validate_sound:
  assumes "utf8_validate_cz s = Ret n" "n \<noteq> 0"
  shows "n \<le> length s \<and> wf_utf8 (map unat (take n s))"
proof (cases s rule: cursor_shape)
  case 1
  with assms show ?thesis by (simp add: utf8_validate_cz_def)
qed (use assms in \<open>auto simp: validate_lead need_cont_simps split: if_splits\<close>)

lemma validate_complete:
  assumes "n \<le> length s" "wf_utf8 (map unat (take n s))"
  shows "utf8_validate_cz s = Ret n"
proof -
  from assms wf_utf8_length [OF assms(2)] consider "n = 1" | "n = 2" | "n = 3" | "n = 4" by auto
  then show ?thesis
    using assms by cases (cases s rule: cursor_shape; auto simp: validate_lead need_cont_simps; fail)+
qed

text \<open>Code points as byte sequences, arithmetically.\<close>

definition utf8_code :: "nat \<Rightarrow> nat list" where
  "utf8_code u =
    (if u < 128 then [u]
     else if u < 2048 then [192 + u div 64, 128 + u mod 64]
     else if u < 65536 then [224 + u div 4096, 128 + u div 64 mod 64, 128 + u mod 64]
     else [240 + u div 262144, 128 + u div 4096 mod 64, 128 + u div 64 mod 64, 128 + u mod 64])"

definition utf8_value :: "nat list \<Rightarrow> nat" where
  "utf8_value bs = (case bs of [a] \<Rightarrow> a
    | [a, b] \<Rightarrow> a mod 32 * 64 + b mod 64
    | [a, b, c] \<Rightarrow> a mod 16 * 4096 + b mod 64 * 64 + c mod 64
    | [a, b, c, d] \<Rightarrow> a mod 8 * 262144 + b mod 64 * 4096 + c mod 64 * 64 + d mod 64
    | _ \<Rightarrow> 0)"

definition scalar_nat :: "nat \<Rightarrow> bool" where
  "scalar_nat u \<longleftrightarrow> u \<le> 0x10FFFF \<and> \<not> (0xD800 \<le> u \<and> u \<le> 0xDFFF)"

lemma six_bits: "r < 64 \<Longrightarrow> (64 * q + r) div 64 = (q::nat)" "r < 64 \<Longrightarrow> (64 * q + r) mod 64 = (r::nat)"
  by simp_all

lemma div_64_64: "(u::nat) div 4096 = u div 64 div 64" "u div 262144 = u div 64 div 64 div 64"
  by (simp_all add: div_mult2_eq [symmetric])

lemma digits:
  obtains q r where "(u::nat) = 64 * q + r" "r < 64"
  using that [of "u div 64" "u mod 64"] by simp

lemma cont_byteE:
  assumes "cont_byte b"
  obtains y where "b = 128 + y" "y < 64"
  using that [of "b - 128"] assms by (auto simp: cont_byte_def)

lemma cont_byteI [simp]: "y < 64 \<Longrightarrow> cont_byte (128 + y)"
  by (simp add: cont_byte_def)

lemma leads: "x < 32 \<Longrightarrow> (192 + x) mod 32 = (x::nat)" "x < 16 \<Longrightarrow> (224 + x) mod 16 = (x::nat)"
  "x < 8 \<Longrightarrow> (240 + x) mod 8 = (x::nat)" "y < 64 \<Longrightarrow> (128 + y) mod 64 = (y::nat)"
  by (subst mod_add_eq [symmetric]; simp)+

lemma code2: "r < 64 \<Longrightarrow> q < 32 \<Longrightarrow> 2 \<le> q \<Longrightarrow> utf8_code (64 * q + r) = [192 + q, 128 + r]"
  by (simp add: utf8_code_def)

lemma code3:
  assumes "r < 64" "m < 64" "p < 16" "p = 0 \<longrightarrow> 32 \<le> m"
  shows "utf8_code (4096 * p + 64 * m + r) = [224 + p, 128 + m, 128 + r]"
proof -
  define u where "u = 4096 * p + 64 * m + r"
  have q: "u div 64 = 64 * p + m" and r: "u mod 64 = r"
    using six_bits [OF assms(1), of "64 * p + m"] by (simp_all add: u_def add.assoc)
  have "2048 \<le> u" "u < 65536"
    using assms by (cases "p = 0"; simp add: u_def)+
  then show ?thesis
    unfolding u_def [symmetric] by (simp add: utf8_code_def div_64_64 q r assms)
qed

lemma code4:
  assumes "r < 64" "m < 64" "l < 64" "p < 8" "p = 0 \<longrightarrow> 16 \<le> l"
  shows "utf8_code (262144 * p + 4096 * l + 64 * m + r) = [240 + p, 128 + l, 128 + m, 128 + r]"
proof -
  define u where "u = 262144 * p + 4096 * l + 64 * m + r"
  have q: "u div 64 = 4096 * p + 64 * l + m" and r: "u mod 64 = r"
    using six_bits [OF assms(1), of "4096 * p + 64 * l + m"] by (simp_all add: u_def add.assoc)
  have q': "(4096 * p + 64 * l + m) div 64 = 64 * p + l" "(4096 * p + 64 * l + m) mod 64 = m"
    using six_bits [OF assms(2), of "64 * p + l"] by (simp_all add: add.assoc)
  have "65536 \<le> u"
    using assms by (cases "p = 0"; simp add: u_def)
  then show ?thesis
    unfolding u_def [symmetric] by (simp add: utf8_code_def div_64_64 q q' r assms)
qed

lemma utf8_value_shapes:
  "r < 64 \<Longrightarrow> q < 32 \<Longrightarrow> utf8_value [192 + q, 128 + r] = 64 * q + r"
  "r < 64 \<Longrightarrow> m < 64 \<Longrightarrow> p < 16 \<Longrightarrow> utf8_value [224 + p, 128 + m, 128 + r] = 4096 * p + 64 * m + r"
  "r < 64 \<Longrightarrow> m < 64 \<Longrightarrow> l < 64 \<Longrightarrow> p < 8 \<Longrightarrow>
    utf8_value [240 + p, 128 + l, 128 + m, 128 + r] = 262144 * p + 4096 * l + 64 * m + r"
  by (simp_all add: utf8_value_def leads)

lemma utf8_code_cases:
  assumes "scalar_nat u"
  obtains "u < 128"
  | q r where "u = 64 * q + r" "r < 64" "q < 32" "2 \<le> q"
  | p m r where "u = 4096 * p + 64 * m + r" "r < 64" "m < 64" "p < 16" "p = 0 \<longrightarrow> 32 \<le> m" "p = 13 \<longrightarrow> m < 32"
  | p l m r where "u = 262144 * p + 4096 * l + 64 * m + r" "r < 64" "m < 64" "l < 64" "p < 5" "p = 0 \<longrightarrow> 16 \<le> l" "p = 4 \<longrightarrow> l < 16"
proof -
  obtain q r where u: "u = 64 * q + r" "r < 64" by (rule digits)
  obtain p m where q: "q = 64 * p + m" "m < 64" by (rule digits)
  obtain p' l where p: "p = 64 * p' + l" "l < 64" by (rule digits)
  consider "u < 128" | "u \<ge> 128" "u < 2048" | "u \<ge> 2048" "u < 65536" | "u \<ge> 65536" by arith
  then show ?thesis
  proof cases
    case 1 then show ?thesis by (rule that)
  next
    case 2 then show ?thesis using that(2) [of q r] u by auto
  next
    case 3
    then show ?thesis using that(3) [of p m r] u q assms by (auto simp: scalar_nat_def)
  next
    case 4
    then show ?thesis using that(4) [of p' l m r] u q p assms by (auto simp: scalar_nat_def)
  qed
qed

lemma utf8_code_ok: "scalar_nat u \<Longrightarrow> wf_utf8 (utf8_code u) \<and> utf8_value (utf8_code u) = u"
proof (erule utf8_code_cases)
  assume "u < 128" then show ?thesis by (simp add: utf8_code_def utf8_value_def)
next
  fix q r assume "u = 64 * q + r" "r < 64" "q < 32" "2 \<le> q"
  then show ?thesis by (simp add: code2 utf8_value_shapes)
next
  fix p m r assume *: "u = 4096 * p + 64 * m + r" "r < 64" "m < 64" "p < 16" "p = 0 \<longrightarrow> 32 \<le> m" "p = 13 \<longrightarrow> m < 32"
  from * have "wf_utf8 [224 + p, 128 + m, 128 + r]" by auto
  with * show ?thesis by (simp add: code3 utf8_value_shapes)
next
  fix p l m r assume *: "u = 262144 * p + 4096 * l + 64 * m + r" "r < 64" "m < 64" "l < 64" "p < 5" "p = 0 \<longrightarrow> 16 \<le> l" "p = 4 \<longrightarrow> l < 16"
  from * have "wf_utf8 [240 + p, 128 + l, 128 + m, 128 + r]" by auto
  with * show ?thesis by (simp add: code4 utf8_value_shapes)
qed

lemma at_least: "(k::nat) \<le> a \<Longrightarrow> (\<And>x. a = k + x \<Longrightarrow> P) \<Longrightarrow> P"
  using le_Suc_ex by blast

lemma utf8_value_ok: "wf_utf8 bs \<Longrightarrow> scalar_nat (utf8_value bs) \<and> utf8_code (utf8_value bs) = bs"
proof (cases bs rule: wf_utf8.cases)
  case (2 a b)
  assume wf: "wf_utf8 bs"
  have "192 \<le> a" using wf 2 by auto
  then obtain q where q: "a = 192 + q" by (rule at_least)
  obtain r where r: "b = 128 + r" "r < 64" using wf 2 by (auto elim!: cont_byteE)
  with q 2 wf show ?thesis by (simp add: utf8_value_shapes code2 scalar_nat_def)
next
  case (3 a b c)
  assume wf: "wf_utf8 bs"
  obtain p where p: "a = 224 + p" using wf 3 by (auto elim: at_least [of 224])
  obtain m r where m: "b = 128 + m" "m < 64" "c = 128 + r" "r < 64" using wf 3 by (auto elim!: cont_byteE)
  with p 3 wf have b: "p < 16" "p = 0 \<longrightarrow> 32 \<le> m" "p = 13 \<longrightarrow> m < 32" by auto
  have v: "utf8_value bs = 4096 * p + 64 * m + r" using p m b by (simp add: 3 utf8_value_shapes)
  consider "p \<le> 12" | "p = 13" | "14 \<le> p" by arith
  then have "scalar_nat (4096 * p + 64 * m + r)"
    using b m by cases (simp_all add: scalar_nat_def)
  then show ?thesis using p m b by (simp add: v code3) (simp add: 3)
next
  case (4 a b c d)
  assume wf: "wf_utf8 bs"
  obtain p where p: "a = 240 + p" using wf 4 by (auto elim: at_least [of 240])
  obtain l m r where m: "b = 128 + l" "l < 64" "c = 128 + m" "m < 64" "d = 128 + r" "r < 64"
    using wf 4 by (auto elim!: cont_byteE)
  with p 4 wf have b: "p < 5" "p = 0 \<longrightarrow> 16 \<le> l" "p = 4 \<longrightarrow> l < 16" by auto
  have v: "utf8_value bs = 262144 * p + 4096 * l + 64 * m + r" using p m b by (simp add: 4 utf8_value_shapes)
  consider "p = 0" | "1 \<le> p" "p \<le> 3" | "p = 4" using b by arith
  then have "scalar_nat (262144 * p + 4096 * l + 64 * m + r)"
    using b m by cases (simp_all add: scalar_nat_def)
  then show ?thesis using p m b by (simp add: v code4) (simp add: 4)
qed (auto simp: utf8_value_def utf8_code_def scalar_nat_def)

section \<open>The byte level against the arithmetic\<close>

lemma is_scalar_nat: "is_scalar u \<longleftrightarrow> scalar_nat (unat u)"
  by (simp add: is_scalar_def scalar_nat_def byte_nat)

lemma write_char_nat:
  assumes "is_scalar u"
  shows "\<exists>bs. utf8_write_char u = Ret bs \<and> map unat bs = utf8_code (unat u)"
proof -
  have "unat (ucast u :: byte) = unat u" if "unat u < 128"
    using that by (simp add: unsigned_ucast_eq take_bit_nat_eq_self)
  moreover have "unat u < 2097152" using assms by (simp add: is_scalar_nat scalar_nat_def)
  ultimately show ?thesis
    using assms by (auto simp: utf8_write_char_def utf8_code_def byte_nat unat_tail unat_lead2
      unat_lead3 unat_lead4 unsigned_drop_bit_eq drop_bit_eq_div [where ?'a = nat] take_bit_nat_eq_self)
qed

lemma read_char_nat:
  assumes "utf8_validate_cz s = Ret n" "n \<noteq> 0"
  shows "\<exists>u. utf8_read_char s = Ret (u, n) \<and> unat u = utf8_value (map unat (take n s))"
proof -
  from validate_sound [OF assms] have len: "n \<le> length s" and wf: "wf_utf8 (map unat (take n s))"
    by auto
  from wf_utf8_length [OF wf] len consider "n = 1" | "n = 2" | "n = 3" | "n = 4" by auto
  then show ?thesis
  proof cases
    case 1
    with len obtain a t where s: "s = a # t" by (auto simp: Suc_le_length_iff)
    with wf 1 have "a \<le> 0x7F" by (simp add: word_le_nat_alt)
    with 1 assms show ?thesis by (simp add: s utf8_read_char_def utf8_value_def unat_shifted)
  next
    case 2
    with len obtain a b t where s: "s = a # b # t" by (auto simp: Suc_le_length_iff numeral_eq_Suc)
    with wf 2 have "\<not> a \<le> 0x7F" "a \<le> 0xDF" by (simp_all add: word_le_nat_alt)
    with 2 assms show ?thesis by (simp add: s utf8_read_char_def utf8_value_def unat_read2 del: push_bit_and)
  next
    case 3
    with len obtain a b c t where s: "s = a # b # c # t"
      by (auto simp: Suc_le_length_iff numeral_eq_Suc)
    with wf 3 have "\<not> a \<le> 0x7F" "\<not> a \<le> 0xDF" "a \<le> 0xEF" by (simp_all add: word_le_nat_alt)
    with 3 assms show ?thesis by (simp add: s utf8_read_char_def utf8_value_def unat_read3 del: push_bit_and)
  next
    case 4
    with len obtain a b c d t where s: "s = a # b # c # d # t"
      by (auto simp: Suc_le_length_iff numeral_eq_Suc)
    with wf 4 have "\<not> a \<le> 0x7F" "\<not> a \<le> 0xDF" "\<not> a \<le> 0xEF" by (simp_all add: word_le_nat_alt)
    with 4 assms show ?thesis by (simp add: s utf8_read_char_def utf8_value_def unat_read4 del: push_bit_and)
  qed
qed

lemma map_unat_inj [simp]: "map unat xs = map unat ys \<longleftrightarrow> xs = (ys :: byte list)"
  by (rule inj_map_eq_map) (simp add: inj_def word_unat_eq_iff)

text \<open>The character written is accepted and read back.\<close>

lemma write_then_read:
  assumes "is_scalar u" "utf8_write_char u = Ret bs"
  shows "bs \<noteq> []" "length bs \<le> 4" "utf8_validate_cz (bs @ t) = Ret (length bs)"
    "utf8_read_char (bs @ t) = Ret (u, length bs)"
proof -
  from write_char_nat [OF assms(1)] assms(2) have bs: "map unat bs = utf8_code (unat u)" by simp
  from assms(1) have wf: "wf_utf8 (map unat bs)" and val: "utf8_value (map unat bs) = unat u"
    using utf8_code_ok by (simp_all add: bs is_scalar_nat)
  from wf_utf8_length [OF wf] show ne: "bs \<noteq> []" and "length bs \<le> 4" by auto
  show v: "utf8_validate_cz (bs @ t) = Ret (length bs)"
    using wf by (intro validate_complete) simp_all
  from read_char_nat [OF v] ne val show "utf8_read_char (bs @ t) = Ret (u, length bs)"
    by (auto simp: word_unat_eq_iff)
qed

text \<open>What is accepted is what the writer writes for the character read.\<close>

lemma read_then_write:
  assumes "utf8_validate_cz s = Ret n" "n \<noteq> 0"
  obtains u where "is_scalar u" "utf8_read_char s = Ret (u, n)" "utf8_write_char u = Ret (take n s)"
proof -
  from read_char_nat [OF assms] obtain u
    where r: "utf8_read_char s = Ret (u, n)" "unat u = utf8_value (map unat (take n s))" by auto
  from validate_sound [OF assms] have "wf_utf8 (map unat (take n s))" by simp
  from utf8_value_ok [OF this] r have u: "is_scalar u" "utf8_code (unat u) = map unat (take n s)"
    by (simp_all add: is_scalar_nat)
  with write_char_nat [OF u(1)] have "utf8_write_char u = Ret (take n s)" by auto
  with r u that show ?thesis by blast
qed

section \<open>Whole strings\<close>

lemma wf_utf8_nonzero: "wf_utf8 bs \<Longrightarrow> hd bs \<noteq> 0 \<Longrightarrow> 0 \<notin> set bs"
  by (cases bs rule: wf_utf8.cases) (auto simp: cont_byte_def)

lemma validated_nonzero:
  assumes "utf8_validate_cz s = Ret n" "n \<noteq> 0" "hd s \<noteq> 0"
  shows "0 \<notin> set (take n s)"
proof -
  from validate_sound [OF assms(1,2)] have n: "n \<le> length s" and wf: "wf_utf8 (map unat (take n s))" by auto
  from n assms(2) have "hd (map unat (take n s)) = unat (hd s)"
    by (cases s) (auto simp: take_Cons split: nat.split)
  with assms(3) wf_utf8_nonzero [OF wf] show ?thesis
    by (force simp: word_unat_eq_iff)
qed

lemma validate_cz_returns: "terminated s \<Longrightarrow> \<exists>n. utf8_validate_cz s = Ret n"
  by (cases s rule: cursor_shape) (auto simp: validate_lead need_cont_simps cont_byte_def)

lemma validate_cz_bound: "utf8_validate_cz s = Ret n \<Longrightarrow> n \<le> length s \<and> n \<le> 4"
  using validate_sound [of s n] wf_utf8_length [of "map unat (take n s)"] by (cases "n = 0") auto

lemma validate_cz_ensures [ensures_rules]:
  "terminated s \<Longrightarrow> ensures (utf8_validate_cz s)
     (\<lambda>n. n \<le> 4 \<and> n \<le> length s \<and> (n \<noteq> 0 \<and> hd s \<noteq> 0 \<longrightarrow> advanced s (drop n s)))"
  using validate_cz_returns [of s] validate_cz_bound [of s] validated_nonzero [of s]
  by (cases s) (auto simp: advanced_def intro!: moved_drop)

text \<open>The bytes of a code point, and the strings that are sequences of code points.\<close>

definition utf8_bytes :: "u32 \<Rightarrow> byte list" where
  "utf8_bytes u = (case utf8_write_char u of Ret bs \<Rightarrow> bs | Fault e \<Rightarrow> [])"

definition utf8_text :: "byte list \<Rightarrow> bool" where
  "utf8_text bs \<longleftrightarrow> (\<exists>us. list_all is_scalar us \<and> bs = concat (map utf8_bytes us))"

lemma write_char_bytes: "is_scalar u \<Longrightarrow> utf8_write_char u = Ret (utf8_bytes u)"
  by (auto simp: utf8_bytes_def dest: write_char_nat)

interpretation utf8c: prefix_codec utf8_bytes
  "\<lambda>s. case utf8_read_char s of Ret (u, n) \<Rightarrow> Some (u, drop n s) | Fault e \<Rightarrow> None" is_scalar
  by unfold_locales (use write_then_read [OF _ write_char_bytes] in \<open>auto simp: write_char_bytes\<close>)

lemma utf8_text_Nil [simp]: "utf8_text []"
  unfolding utf8_text_def by (rule exI [of _ "[]"]) simp

lemma utf8_text_append: "utf8_text a \<Longrightarrow> utf8_text b \<Longrightarrow> utf8_text (a @ b)"
  unfolding utf8_text_def by (metis concat_append list_all_append map_append)

lemma utf8_text_char: "is_scalar u \<Longrightarrow> utf8_text (utf8_bytes u)"
  unfolding utf8_text_def by (rule exI [of _ "[u]"]) simp

lemma utf8_text_step:
  assumes "utf8_validate_cz s = Ret n" "n \<noteq> 0"
  shows "utf8_text (take n s)"
proof -
  from read_then_write [OF assms] obtain u where "is_scalar u" "utf8_write_char u = Ret (take n s)" .
  with utf8_text_char [of u] show ?thesis by (simp add: write_char_bytes)
qed

lemma utf8_text_tail:
  assumes "utf8_text cs" "cs \<noteq> []" "utf8_validate_cz (cs @ t) = Ret n"
  shows "n \<noteq> 0 \<and> utf8_text (drop n cs)"
proof -
  from assms(1) obtain us where us: "list_all is_scalar us" "cs = concat (map utf8_bytes us)"
    by (auto simp: utf8_text_def)
  with assms(2) obtain u us' where u: "us = u # us'" by (cases us) auto
  with us write_then_read [OF _ write_char_bytes, of u] assms(3)
  have n: "n = length (utf8_bytes u)" "utf8_bytes u \<noteq> []" by simp_all
  with u us have "drop n cs = concat (map utf8_bytes us')" by simp
  with u us n show ?thesis by (auto simp: utf8_text_def)
qed

text \<open>The string validator decides this, for the string in front of the terminator.\<close>

lemma validate_text:
  assumes "0 \<notin> set cs"
  shows "utf8_validate (cs @ 0 # t) = Ret (utf8_text cs)"
  using assms
proof (induction "length cs" arbitrary: cs rule: less_induct)
  case less
  show ?case
  proof (cases cs)
    case Nil
    then show ?thesis by (simp add: utf8_validate.simps [of "0 # t"])
  next
    case (Cons c cs')
    let ?s = "cs @ 0 # t"
    from less.prems Cons have c: "c \<noteq> 0" "rd ?s 0 = Ret c" "hd ?s \<noteq> 0" "cs \<noteq> []" by auto
    obtain n where n: "utf8_validate_cz ?s = Ret n" using validate_cz_returns [of ?s] by auto
    note tail = utf8_text_tail [OF _ c(4) n]
    show ?thesis
    proof (cases "n = 0")
      case True
      with c n tail show ?thesis by (auto simp: utf8_validate.simps [of ?s])
    next
      case False
      have "n \<le> length cs"
      proof (rule ccontr)
        assume "\<not> n \<le> length cs"
        then obtain k where "n = Suc (length cs + k)" using less_imp_Suc_add [of "length cs" n] by auto
        then have "0 \<in> set (take n ?s)" by simp
        with validated_nonzero [OF n False c(3)] show False by simp
      qed
      then have split: "take n ?s = take n cs" "drop n ?s = drop n cs @ 0 # t" by auto
      have "utf8_text cs \<longleftrightarrow> utf8_text (drop n cs)"
        using tail utf8_text_append [OF utf8_text_step [OF n False], of "drop n cs"] split by auto
      moreover have "utf8_validate (drop n cs @ 0 # t) = Ret (utf8_text (drop n cs))"
        using less.prems False Cons by (intro less.hyps) (auto dest: in_set_dropD)
      ultimately show ?thesis
        using c n False split by (simp add: utf8_validate.simps [of ?s])
    qed
  qed
qed

section \<open>Surrogate pairs\<close>

lemma unat_of_surrogates:
  "unat (push_bit 10 (ucast (uc::16 word) AND 0x3FF) OR ucast ((lc::16 word) AND 0x3FF) :: 32 word) =
     unat uc mod 1024 * 1024 + unat lc mod 1024"
proof -
  have u: "unat (ucast uc :: 32 word) = unat uc" 
    using unsigned_less [of uc, where ?'a = nat] by (simp add: unsigned_ucast_eq take_bit_nat_eq_self)
  have 1: "unat (push_bit 10 (ucast uc AND 0x3FF) :: 32 word) = unat uc mod 1024 * 1024"
    using u by (simp only: unsigned_push_bit_eq unsigned_and_eq) (simp add: unat_bits push_bit_eq_mult)
  have 2: "unat (ucast (lc AND 0x3FF) :: 32 word) = unat lc mod 1024"
    by (simp only: unsigned_ucast_eq unsigned_and_eq) (simp add: unat_bits mod_mod_cancel)
  show ?thesis
    by (subst unat_or_add [where n = 10]) (use 1 2 in \<open>simp_all del: push_bit_and\<close>)
qed

lemma unat_to_surrogates:
  assumes "unat (n :: 32 word) < 0x100000"
  shows "unat (ucast ((drop_bit 10 n AND 0x3FF) OR 0xD800) :: 16 word) = 0xD800 + unat n div 1024"
    "unat (ucast ((n AND 0x3FF) OR 0xDC00) :: 16 word) = 0xDC00 + unat n mod 1024"
proof -
  have d: "unat n div 1024 < 1024" using assms by simp
  have 1: "(unat n div 1024) OR 0xD800 = 0xD800 + unat n div 1024"
    using or_disjoint_add [of 10 "0xD800" "unat n div 1024"] d by (simp add: or.commute)
  have 2: "(unat n mod 1024) OR 0xDC00 = 0xDC00 + unat n mod 1024"
    using or_disjoint_add [of 10 "0xDC00" "unat n mod 1024"] by (simp add: or.commute)
  show "unat (ucast ((drop_bit 10 n AND 0x3FF) OR 0xD800) :: 16 word) = 0xD800 + unat n div 1024"
    using d 1 by (simp only: unsigned_ucast_eq unsigned_or_eq unsigned_and_eq unsigned_drop_bit_eq) (simp add: unat_bits)
  show "unat (ucast ((n AND 0x3FF) OR 0xDC00) :: 16 word) = 0xDC00 + unat n mod 1024"
    using 2 by (simp only: unsigned_ucast_eq unsigned_or_eq unsigned_and_eq) (simp add: unat_bits mod_mod_cancel)
qed

lemma surrogates_roundtrip:
  assumes "0x10000 \<le> u" "u \<le> 0x10FFFF"
  obtains uc lc where "to_surrogate_pair u = Ret (uc, lc)" "from_surrogate_pair uc lc = Some u"
    "uc \<ge> 0xD800" "uc \<le> 0xDBFF" "lc \<ge> 0xDC00" "lc \<le> 0xDFFF"
proof -
  define n where "n = u - 0x10000"
  have un: "unat u = 0x10000 + unat n" "unat n < 0x100000"
    using assms by (simp_all add: n_def word_le_nat_alt unat_sub)
  define uc :: u16 where "uc = ucast ((drop_bit 10 n AND 0x3FF) OR 0xD800)"
  define lc :: u16 where "lc = ucast ((n AND 0x3FF) OR 0xDC00)"
  from unat_to_surrogates [OF un(2)] have nat: "unat uc = 0xD800 + unat n div 1024" "unat lc = 0xDC00 + unat n mod 1024"
    by (simp_all add: uc_def lc_def)
  have r: "uc \<ge> 0xD800" "uc \<le> 0xDBFF" "lc \<ge> 0xDC00" "lc \<le> 0xDFFF"
    using un(2) by (simp_all add: word_le_nat_alt nat)
  have m: "(0xD800 + unat n div 1024) mod 1024 = unat n div 1024" "(0xDC00 + unat n mod 1024) mod 1024 = unat n mod 1024"
    using un(2) by (simp_all add: mod_add_eq [symmetric])
  have "from_surrogate_pair uc lc = Some u"
    using r un by (simp add: from_surrogate_pair_def word_unat_eq_iff unat_word_ariths unat_of_surrogates nat m
      del: push_bit_and)
  moreover have "to_surrogate_pair u = Ret (uc, lc)"
    using assms by (simp add: to_surrogate_pair_def uc_def lc_def n_def Let_def)
  ultimately show ?thesis using that r by blast
qed

lemma from_surrogate_pair_scalar:
  assumes "from_surrogate_pair uc lc = Some u"
  shows "is_scalar u \<and> 0x10000 \<le> u"
proof -
  have "unat uc mod 1024 * 1024 + unat lc mod 1024 < 0x100000"
    using mod_less_divisor [of 1024 "unat uc"] mod_less_divisor [of 1024 "unat lc"] by linarith
  with assms show ?thesis
    by (auto simp: from_surrogate_pair_def is_scalar_nat scalar_nat_def word_le_nat_alt unat_word_ariths unat_of_surrogates
      simp del: push_bit_and split: if_splits)
qed

section \<open>Properties\<close>

text \<open>
  C38. The character validator accepts exactly the well-formed UTF-8 sequences of RFC 3629 (no
  overlong form, no surrogate, nothing past U+10FFFF), and returns their length.
\<close>

theorem utf8_validate_cz_correct:
  "utf8_validate_cz s = Ret n \<and> n \<noteq> 0 \<longleftrightarrow> n \<le> length s \<and> wf_utf8 (map unat (take n s))"
proof
  assume "n \<le> length s \<and> wf_utf8 (map unat (take n s))"
  with validate_complete [of n s] wf_utf8_length [of "map unat (take n s)"]
  show "utf8_validate_cz s = Ret n \<and> n \<noteq> 0" by auto
qed (use validate_sound in blast)

text \<open>
  Writing a Unicode scalar value never fails its assertion, and whatever bytes follow, the
  validator accepts what was written and the reader gives the scalar value back.
\<close>

theorem utf8_char_roundtrip:
  assumes "is_scalar u"
  shows "\<exists>bs. utf8_write_char u = Ret bs \<and> utf8_validate_cz (bs @ t) = Ret (length bs)
    \<and> utf8_read_char (bs @ t) = Ret (u, length bs)"
  using write_char_bytes [OF assms] write_then_read [OF assms write_char_bytes [OF assms]] by blast

theorem utf8_char_roundtrip_witness:
  "\<exists>bs. utf8_write_char 0x20AC = Ret bs \<and> utf8_validate_cz (bs @ [0]) = Ret (length bs)
    \<and> utf8_read_char (bs @ [0]) = Ret (0x20AC, length bs)"
  by (rule utf8_char_roundtrip) (simp add: is_scalar_def)

text \<open>
  The string validator returns on every NUL-terminated string, reads nothing past the
  terminator, and decides whether the string is a sequence of encoded scalar values.
\<close>

theorem utf8_validate_correct:
  assumes "0 \<notin> set cs"
  shows "utf8_validate (cs @ 0 # t) = Ret (\<exists>us. list_all is_scalar us \<and> cs = concat (map utf8_bytes us))"
  using validate_text [OF assms] by (simp add: utf8_text_def)

theorem utf8_validate_correct_witness:
  "utf8_validate ([0xC3, 0xA9] @ 0 # [0x41]) = Ret (\<exists>us. list_all is_scalar us \<and> [0xC3, 0xA9] = concat (map utf8_bytes us))"
  by (rule utf8_validate_correct) simp

text \<open>
  Every scalar value beyond the basic plane is split into a leading and a trailing surrogate
  that are joined again to it; values the pair cannot hold fail the assertion.
\<close>

theorem surrogate_pair_roundtrip:
  "(if u \<ge> 0x10000 \<and> u \<le> 0x10FFFF
    then \<exists>uc lc. to_surrogate_pair u = Ret (uc, lc) \<and> from_surrogate_pair uc lc = Some u
      \<and> 0xD800 \<le> uc \<and> uc \<le> 0xDBFF \<and> 0xDC00 \<le> lc \<and> lc \<le> 0xDFFF
    else to_surrogate_pair u = Fault Assert_failed)"
proof (cases "u \<ge> 0x10000 \<and> u \<le> 0x10FFFF")
  case True
  then obtain uc lc where "to_surrogate_pair u = Ret (uc, lc)" "from_surrogate_pair uc lc = Some u"
    "uc \<ge> 0xD800" "uc \<le> 0xDBFF" "lc \<ge> 0xDC00" "lc \<le> 0xDFFF"
    by (auto elim: surrogates_roundtrip)
  with True show ?thesis by auto
qed (auto simp: to_surrogate_pair_def)

end
