(* ===== verification/StringBuffer.thy ===== *)
theory StringBuffer
  imports Prelude
begin

text \<open>
  The growing string buffer \<open>SB\<close> of src/json.c. The three pointers of the C struct are
  represented by the bytes between \<open>start\<close> and \<open>cur\<close> and by the capacity
  \<open>end - start\<close>; the allocation has one byte more, for the terminator. Every store checks
  the capacity, so a write past the buffer is a fault of the model.
\<close>

section \<open>Definitions\<close>

record SB =
  sb_bytes :: "byte list"
  sb_alloc :: nat

definition sb_init :: SB where
  "sb_init = \<lparr>sb_bytes = [], sb_alloc = 16\<rparr>"

text \<open>\<open>do { alloc *= 2; } while (alloc < length + need)\<close>: it does not end from 0.\<close>

partial_function (option) sb_grow_alloc :: "nat \<Rightarrow> nat \<Rightarrow> nat option" where
  "sb_grow_alloc alloc target =
     (if 2 * alloc < target then sb_grow_alloc (2 * alloc) target else Some (2 * alloc))"

definition sb_grow :: "SB \<Rightarrow> nat \<Rightarrow> SB outcome" where
  "sb_grow sb need =
     (case sb_grow_alloc (sb_alloc sb) (length (sb_bytes sb) + need) of
        None \<Rightarrow> Fault Diverges
      | Some alloc \<Rightarrow> Ret (sb\<lparr>sb_alloc := alloc\<rparr>))"

definition sb_need :: "SB \<Rightarrow> nat \<Rightarrow> SB outcome" where
  "sb_need sb need =
     (if int (sb_alloc sb) - int (length (sb_bytes sb)) < int need then sb_grow sb need else Ret sb)"

text \<open>Storing bytes at \<open>cur\<close> and moving it, as \<open>*b++ = c\<close> does.\<close>

definition sb_store :: "SB \<Rightarrow> byte list \<Rightarrow> SB outcome" where
  "sb_store sb bytes =
     (if length (sb_bytes sb) + length bytes \<le> sb_alloc sb
      then Ret (sb\<lparr>sb_bytes := sb_bytes sb @ bytes\<rparr>) else Fault Write_OOB)"

definition sb_put :: "SB \<Rightarrow> byte list \<Rightarrow> SB outcome" where
  "sb_put sb bytes = bindO (sb_need sb (length bytes)) (\<lambda>sb. sb_store sb bytes)"

definition sb_putc :: "SB \<Rightarrow> byte \<Rightarrow> SB outcome" where
  "sb_putc sb c =
     bindO (if length (sb_bytes sb) \<ge> sb_alloc sb then sb_grow sb 1 else Ret sb)
       (\<lambda>sb. sb_store sb [c])"

text \<open>The argument of \<open>sb_puts\<close> is given by its bytes, without the terminator.\<close>

definition sb_puts :: "SB \<Rightarrow> byte list \<Rightarrow> SB outcome" where
  "sb_puts sb str = sb_put sb str"

text \<open>
  The terminator is stored at \<open>cur\<close>, and the assertion compares the length of the C string
  with the number of bytes put. The result is the buffer with its terminator.
\<close>

definition sb_finish :: "SB \<Rightarrow> cursor outcome" where
  "sb_finish sb =
     (if length (sb_bytes sb) \<le> sb_alloc sb
      then bindO (assertO (length (takeWhile (\<lambda>c. c \<noteq> 0) (sb_bytes sb @ [0])) = length (sb_bytes sb)))
             (\<lambda>_. Ret (sb_bytes sb @ [0]))
      else Fault Write_OOB)"

section \<open>What the operations guarantee\<close>

text \<open>The invariant: the bytes fit, and the buffer can grow.\<close>

definition sb_wf :: "SB \<Rightarrow> bool" where
  "sb_wf sb \<longleftrightarrow> 16 \<le> sb_alloc sb \<and> length (sb_bytes sb) \<le> sb_alloc sb"

definition sb_room :: "SB \<Rightarrow> nat" where
  "sb_room sb = sb_alloc sb - length (sb_bytes sb)"

lemma sb_init_wf [simp]: "sb_wf sb_init" "sb_bytes sb_init = []" "sb_room sb_init = 16"
  by (simp_all add: sb_init_def sb_wf_def sb_room_def)

lemma sb_grow_alloc_returns:
  "0 < alloc \<Longrightarrow> \<exists>r. sb_grow_alloc alloc target = Some r \<and> 2 * alloc \<le> r \<and> target \<le> r
     \<and> (r = 2 * alloc \<or> r < 2 * target)"
proof (induction "target - alloc" arbitrary: alloc rule: less_induct)
  case less
  show ?case
  proof (cases "2 * alloc < target")
    case True
    with less.prems have "target - 2 * alloc < target - alloc" by simp
    from less.hyps [OF this] less.prems True show ?thesis
      by (auto simp: sb_grow_alloc.simps [of alloc])
  next
    case False
    then show ?thesis by (simp add: sb_grow_alloc.simps [of alloc])
  qed
qed

lemma sb_grow_ensures [ensures_rules]:
  "sb_wf sb \<Longrightarrow> ensures (sb_grow sb need)
     (\<lambda>sb'. sb_wf sb' \<and> sb_bytes sb' = sb_bytes sb \<and> need \<le> sb_room sb')"
  using sb_grow_alloc_returns [of "sb_alloc sb" "length (sb_bytes sb) + need"]
  by (auto simp: sb_grow_def sb_wf_def sb_room_def)

lemma sb_need_ensures [ensures_rules]:
  "sb_wf sb \<Longrightarrow> ensures (sb_need sb need)
     (\<lambda>sb'. sb_wf sb' \<and> sb_bytes sb' = sb_bytes sb \<and> need \<le> sb_room sb')"
  using sb_grow_ensures [of sb need] by (auto simp: sb_need_def sb_wf_def sb_room_def)

lemma sb_store_ensures [ensures_rules]:
  "sb_wf sb \<Longrightarrow> length bytes \<le> sb_room sb \<Longrightarrow> ensures (sb_store sb bytes)
     (\<lambda>sb'. sb_wf sb' \<and> sb_bytes sb' = sb_bytes sb @ bytes \<and> sb_room sb' = sb_room sb - length bytes)"
  by (auto simp: sb_store_def sb_wf_def sb_room_def)

text \<open>What a putting operation promises its callers: the bytes are appended, and no fault.\<close>

definition appends :: "SB \<Rightarrow> byte list \<Rightarrow> SB outcome \<Rightarrow> bool" where
  "appends sb bytes m \<longleftrightarrow> ensures m (\<lambda>sb'. sb_wf sb' \<and> sb_bytes sb' = sb_bytes sb @ bytes)"

lemma appendsD: "appends sb bytes m \<Longrightarrow> \<exists>sb'. m = Ret sb' \<and> sb_wf sb' \<and> sb_bytes sb' = sb_bytes sb @ bytes"
  by (cases m) (auto simp: appends_def)

lemma appends_bindO [intro]:
  assumes "appends sb a m" "\<And>sb'. sb_wf sb' \<Longrightarrow> appends sb' b (f sb')"
  shows "appends sb (a @ b) (bindO m f)"
proof -
  from appendsD [OF assms(1)] obtain sb' where "m = Ret sb'" "sb_wf sb'" "sb_bytes sb' = sb_bytes sb @ a"
    by auto
  with assms(2) [of sb'] show ?thesis by (auto simp: appends_def elim!: ensures_mono)
qed

lemma appends_Ret [simp]: "appends sb a (Ret sb') \<longleftrightarrow> sb_wf sb' \<and> sb_bytes sb' = sb_bytes sb @ a"
  by (simp add: appends_def)

lemma sb_store_appends [intro]:
  "sb_wf sb \<Longrightarrow> length bytes \<le> sb_room sb \<Longrightarrow> appends sb bytes (sb_store sb bytes)"
  unfolding appends_def by (rule ensures_mono [OF sb_store_ensures]) auto

lemma make_room_appends:
  assumes "ensures m (\<lambda>sb'. sb_wf sb' \<and> sb_bytes sb' = sb_bytes sb \<and> length bytes \<le> sb_room sb')"
  shows "appends sb bytes (bindO m (\<lambda>sb'. sb_store sb' bytes))"
proof -
  from assms obtain sb' where "m = Ret sb'" "sb_wf sb'" "sb_bytes sb' = sb_bytes sb"
    "length bytes \<le> sb_room sb'" by (auto simp: ensures_iff)
  then show ?thesis using sb_store_appends [of sb' bytes] by (simp add: appends_def)
qed

lemma sb_put_appends [intro]: "sb_wf sb \<Longrightarrow> appends sb bytes (sb_put sb bytes)"
  unfolding sb_put_def by (rule make_room_appends [OF sb_need_ensures])

lemma sb_puts_appends [intro]: "sb_wf sb \<Longrightarrow> appends sb bytes (sb_puts sb bytes)"
  unfolding sb_puts_def by (rule sb_put_appends)

lemma sb_putc_appends [intro]: "sb_wf sb \<Longrightarrow> appends sb [c] (sb_putc sb c)"
  unfolding sb_putc_def
  by (rule make_room_appends) (use sb_grow_ensures [of sb 1] in \<open>auto simp: sb_room_def\<close>)

lemma sb_finish_Ret:
  assumes "sb_wf sb" "0 \<notin> set (sb_bytes sb)"
  shows "sb_finish sb = Ret (sb_bytes sb @ [0])"
proof -
  have "takeWhile (\<lambda>c. c \<noteq> 0) (sb_bytes sb @ [0]) = sb_bytes sb @ takeWhile (\<lambda>c. c \<noteq> 0) [0]"
    using assms(2) by (intro takeWhile_append2) auto
  with assms(1) show ?thesis by (simp add: sb_finish_def sb_wf_def)
qed

section \<open>Properties\<close>

text \<open>
  Growing a buffer ends and makes room: from any state of the buffer the operations reach,
  \<open>sb_need\<close> returns a buffer with the same bytes and at least the room asked for.
\<close>

theorem sb_need_makes_room:
  assumes "sb_wf sb"
  shows "\<exists>sb'. sb_need sb n = Ret sb' \<and> sb_wf sb' \<and> sb_bytes sb' = sb_bytes sb \<and> n \<le> sb_room sb'"
  using sb_need_ensures [OF assms, of n] by (auto simp: ensures_iff)

theorem sb_need_makes_room_witness:
  "\<exists>sb'. sb_need sb_init 1000 = Ret sb' \<and> sb_wf sb' \<and> sb_bytes sb' = sb_bytes sb_init \<and> 1000 \<le> sb_room sb'"
  by (rule sb_need_makes_room) simp

lemma puts_append: "sb_wf sb \<Longrightarrow> appends sb (concat bs) (foldl (\<lambda>m b. bindO m (\<lambda>sb. sb_puts sb b)) (Ret sb) bs)"
proof (induction bs rule: rev_induct)
  case (snoc b bs)
  then show ?case using appends_bindO [of sb "concat bs" _ b "\<lambda>sb. sb_puts sb b"] by auto
qed simp

text \<open>
  Whatever strings are put into a fresh buffer one after the other, no store leaves the
  allocation, and finishing returns their concatenation with its terminator.
\<close>

theorem sb_puts_finish:
  assumes "0 \<notin> set (concat bs)"
  shows "bindO (foldl (\<lambda>m b. bindO m (\<lambda>sb. sb_puts sb b)) (Ret sb_init) bs) sb_finish = Ret (concat bs @ [0])"
  using appendsD [OF puts_append [of sb_init bs]] sb_finish_Ret assms by auto

theorem sb_puts_finish_witness:
  "bindO (foldl (\<lambda>m b. bindO m (\<lambda>sb. sb_puts sb b)) (Ret sb_init) [replicate 20 0x61, [0x62]]) sb_finish
     = Ret (concat [replicate 20 0x61, [0x62]] @ [0])"
  by (rule sb_puts_finish) simp

end
