(* ===== verification/JsonParse.thy ===== *)
theory JsonParse
  imports Utf8 StringBuffer
begin

text \<open>
  The parsing half of src/json.c: the values of a \<open>JsonNode\<close> tree, the recursive descent
  \<open>parse_value\<close> .. \<open>parse_object\<close> with its helpers, \<open>json_decode\<close> and
  \<open>json_validate\<close>. Every read goes through \<open>rd\<close> and every store through the string
  buffer. \<open>strtod\<close> of the C library is the parameter \<open>sd\<close>: it is given the buffer from
  the number on. The flag \<open>out\<close> is the C code's \<open>out != NULL\<close>: when it is false no value
  is built and strings go to the four-byte \<open>throwaway_buffer\<close>. The recursion carries fuel.
\<close>

section \<open>Values\<close>

text \<open>
  The tags of json.h, in the order of the enumeration, and the trees they label: a string is
  the bytes in front of its terminator, the children of an array or object are in the order of
  their \<open>next\<close> links.
\<close>

datatype JsonTag = JSON_NULL | JSON_BOOL | JSON_STRING | JSON_NUMBER | JSON_ARRAY | JSON_OBJECT

datatype 'd json =
    JNull
  | JBool bool
  | JString "byte list"
  | JNumber 'd
  | JArray "'d json list"
  | JObject "(byte list \<times> 'd json) list"

fun tag_of :: "'d json \<Rightarrow> JsonTag" where
  "tag_of JNull = JSON_NULL"
| "tag_of (JBool b) = JSON_BOOL"
| "tag_of (JString s) = JSON_STRING"
| "tag_of (JNumber d) = JSON_NUMBER"
| "tag_of (JArray es) = JSON_ARRAY"
| "tag_of (JObject ms) = JSON_OBJECT"

section \<open>Characters\<close>

definition is_space :: "byte \<Rightarrow> bool" where
  "is_space c \<longleftrightarrow> c = 0x09 \<or> c = 0x0A \<or> c = 0x0D \<or> c = 0x20"

definition is_digit :: "byte \<Rightarrow> bool" where
  "is_digit c \<longleftrightarrow> c \<ge> 0x30 \<and> c \<le> 0x39"

section \<open>Scanning\<close>

text \<open>\<open>while (is_space(*s)) s++;\<close>\<close>

fun skip_space :: "cursor \<Rightarrow> cursor outcome" where
  "skip_space [] = Fault Read_OOB"
| "skip_space (c # s) = (if is_space c then skip_space s else Ret (c # s))"

fun expect_literal :: "cursor \<Rightarrow> byte list \<Rightarrow> unit parsed outcome" where
  "expect_literal s [] = Ret (Ok () s)"
| "expect_literal s (x # str) =
     bindO (rd s 0) (\<lambda>c. if c \<noteq> x then Ret Fail else expect_literal (tl s) str)"

definition hex_digit :: "byte \<Rightarrow> u16 option" where
  "hex_digit c =
     (if c \<ge> 0x30 \<and> c \<le> 0x39 then Some (ucast (c - 0x30))
      else if c \<ge> 0x41 \<and> c \<le> 0x46 then Some (ucast (c - 0x41 + 10))
      else if c \<ge> 0x61 \<and> c \<le> 0x66 then Some (ucast (c - 0x61 + 10))
      else None)"

fun parse_hex16_loop :: "nat \<Rightarrow> u16 \<Rightarrow> cursor \<Rightarrow> u16 parsed outcome" where
  "parse_hex16_loop 0 ret s = Ret (Ok ret s)"
| "parse_hex16_loop (Suc i) ret s =
     bindO (rd s 0) (\<lambda>c.
       case hex_digit c of
         None \<Rightarrow> Ret Fail
       | Some tmp \<Rightarrow> parse_hex16_loop i (push_bit 4 ret + tmp) (tl s))"

definition parse_hex16 :: "cursor \<Rightarrow> u16 parsed outcome" where
  "parse_hex16 s = parse_hex16_loop 4 0 s"

text \<open>\<open>while (is_digit(*s)) s++;\<close>, after a digit was seen the \<open>do\<close> loop of \<open>parse_number\<close>.\<close>

fun skip_digits :: "cursor \<Rightarrow> cursor outcome" where
  "skip_digits [] = Fault Read_OOB"
| "skip_digits (c # s) = (if is_digit c then skip_digits s else Ret (c # s))"

text \<open>\<open>if (!is_digit(*s)) return false; do { s++; } while (is_digit(*s));\<close>\<close>

definition digits1 :: "cursor \<Rightarrow> unit parsed outcome" where
  "digits1 s = bindO (rd s 0) (\<lambda>c.
     if \<not> is_digit c then Ret Fail else bindO (skip_digits (tl s)) (\<lambda>s. Ret (Ok () s)))"

text \<open>\<open>'-'? (0 | [1-9][0-9]*) ('.' [0-9]+)? ([Ee] [+-]? [0-9]+)?\<close>, a piece each.\<close>

definition scan_sign :: "cursor \<Rightarrow> cursor outcome" where
  "scan_sign s = bindO (rd s 0) (\<lambda>c. Ret (if c = 0x2D then tl s else s))"

definition scan_int :: "cursor \<Rightarrow> unit parsed outcome" where
  "scan_int s = bindO (rd s 0) (\<lambda>c. if c = 0x30 then Ret (Ok () (tl s)) else digits1 s)"

definition scan_frac :: "cursor \<Rightarrow> unit parsed outcome" where
  "scan_frac s = bindO (rd s 0) (\<lambda>c. if c = 0x2E then digits1 (tl s) else Ret (Ok () s))"

definition scan_exp :: "cursor \<Rightarrow> unit parsed outcome" where
  "scan_exp s = bindO (rd s 0) (\<lambda>c.
     if c = 0x45 \<or> c = 0x65
     then bindO (rd (tl s) 0) (\<lambda>d. digits1 (if d = 0x2B \<or> d = 0x2D then tl (tl s) else tl s))
     else Ret (Ok () s))"

definition scan_number :: "cursor \<Rightarrow> unit parsed outcome" where
  "scan_number s = bindO (scan_sign s) (\<lambda>s. bindP (scan_int s) (\<lambda>_ s. bindP (scan_frac s) (\<lambda>_ s. scan_exp s)))"

definition parse_number :: "(cursor \<Rightarrow> 'd) \<Rightarrow> bool \<Rightarrow> cursor \<Rightarrow> 'd option parsed outcome" where
  "parse_number sd out s =
     bindP (scan_number s) (\<lambda>_ s'. Ret (Ok (if out then Some (sd s) else None) s'))"

section \<open>Strings\<close>

text \<open>The four hex digits of an escape and, for a leading surrogate, the second escape.\<close>

definition parse_unicode_escape :: "cursor \<Rightarrow> byte list parsed outcome" where
  "parse_unicode_escape s =
     bindP (parse_hex16 s) (\<lambda>uc s.
     if uc \<ge> 0xD800 \<and> uc \<le> 0xDFFF then
       bindO (rd s 0) (\<lambda>c. if c \<noteq> 0x5C then Ret Fail else
       bindO (rd s 1) (\<lambda>d. if d \<noteq> 0x75 then Ret Fail else
       bindP (parse_hex16 (drop 2 s)) (\<lambda>lc s.
       case from_surrogate_pair uc lc of
         None \<Rightarrow> Ret Fail
       | Some unicode \<Rightarrow> bindO (utf8_write_char unicode) (\<lambda>bytes. Ret (Ok bytes s)))))
     else if uc = 0 then Ret Fail
     else bindO (utf8_write_char (ucast uc)) (\<lambda>bytes. Ret (Ok bytes s)))"

text \<open>One round of the loop: the character at \<open>s\<close>, and the bytes written to \<open>b\<close> for it.\<close>

definition parse_string_char :: "cursor \<Rightarrow> byte list parsed outcome" where
  "parse_string_char s = bindO (rd s 0) (\<lambda>c.
     if c = 0x5C then
       bindO (rd s 1) (\<lambda>e.
       if e = 0x22 \<or> e = 0x5C \<or> e = 0x2F then Ret (Ok [e] (drop 2 s))
       else if e = 0x62 then Ret (Ok [0x08] (drop 2 s))
       else if e = 0x66 then Ret (Ok [0x0C] (drop 2 s))
       else if e = 0x6E then Ret (Ok [0x0A] (drop 2 s))
       else if e = 0x72 then Ret (Ok [0x0D] (drop 2 s))
       else if e = 0x74 then Ret (Ok [0x09] (drop 2 s))
       else if e = 0x75 then parse_unicode_escape (drop 2 s)
       else Ret Fail)
     else if c \<le> 0x1F then Ret Fail
     else bindO (utf8_validate_cz s) (\<lambda>len.
       if len = 0 then Ret Fail else Ret (Ok (take len s) (drop len s))))"

definition throwaway_buffer :: SB where
  "throwaway_buffer = \<lparr>sb_bytes = [], sb_alloc = 4\<rparr>"

text \<open>What a character parsed out of a string literal is.\<close>

definition string_char :: "byte list \<Rightarrow> bool" where
  "string_char bytes \<longleftrightarrow> bytes \<noteq> [] \<and> length bytes \<le> 4 \<and> 0 \<notin> set bytes \<and> utf8_text bytes"

lemma utf8_bytes_string_char: "is_scalar u \<Longrightarrow> u \<noteq> 0 \<Longrightarrow> string_char (utf8_bytes u)"
proof -
  assume u: "is_scalar u" "u \<noteq> 0"
  note w = write_then_read [OF u(1) write_char_bytes [OF u(1)]]
  have "hd (utf8_bytes u) \<noteq> 0"
  proof
    assume "hd (utf8_bytes u) = 0"
    with w(1) have "utf8_read_char (utf8_bytes u @ []) = Ret (0, 1)"
      by (cases "utf8_bytes u") (simp_all add: utf8_read_char_def validate_lead)
    with w(4) [of "[]"] u(2) show False by simp
  qed
  with validated_nonzero [OF w(3) [of "[]"]] w(1,2) utf8_text_char [OF u(1)] show ?thesis
    by (simp add: string_char_def)
qed

lemma ascii_string_char: "c \<noteq> 0 \<Longrightarrow> c \<le> 0x7F \<Longrightarrow> string_char [c]"
  using utf8_text_step [of "[c]" 1] by (simp add: string_char_def utf8_validate_cz_def)

lemma parse_hex16_loop_ok:
  "parse_hex16_loop n r s = Ret (Ok v s') \<Longrightarrow> moved s s' \<and> (n \<noteq> 0 \<longrightarrow> length s' < length s)"
proof (induction n arbitrary: r s)
  case (Suc n)
  from Suc.prems obtain c t x where s: "s = c # t" "hex_digit c = Some x"
    and r: "parse_hex16_loop n (push_bit 4 r + x) t = Ret (Ok v s')"
    by (auto simp: bindO_Ret_iff rd_0_Ret_iff split: option.splits)
  from s(2) have "c \<noteq> 0" by (auto simp: hex_digit_def)
  with Suc.IH [OF r] s(1) show ?case using moved_length [of t s'] by auto
qed simp

lemma parse_hex16_ok: "parse_hex16 s = Ret (Ok v s') \<Longrightarrow> advanced s s'"
  using parse_hex16_loop_ok [of 4 0 s v s'] by (simp add: parse_hex16_def advanced_def)

lemma drop_2_advanced:
  assumes "rd s 0 = Ret c" "c \<noteq> 0" "rd s 1 = Ret d" "d \<noteq> 0"
  shows "advanced s (drop 2 s)"
proof -
  from assms obtain t where "s = c # d # t"
    by (auto simp: rd_Ret_iff Suc_le_length_iff less_eq_Suc_le)
  with assms show ?thesis by simp
qed

lemma unicode_escape_scalar:
  assumes "\<not> ((uc::u16) \<ge> 0xD800 \<and> uc \<le> 0xDFFF)" "uc \<noteq> 0"
  shows "is_scalar (ucast uc)" "(ucast uc :: u32) \<noteq> 0"
proof -
  have "unat (ucast uc :: u32) = unat uc" "unat uc < 65536"
    using unsigned_less [of uc, where ?'a = nat]
    by (simp_all add: unsigned_ucast_eq take_bit_nat_eq_self)
  with assms show "is_scalar (ucast uc)" "(ucast uc :: u32) \<noteq> 0"
    by (auto simp: is_scalar_nat scalar_nat_def byte_nat)
qed

lemma parse_unicode_escape_ok:
  assumes "parse_unicode_escape s = Ret (Ok bytes s')"
  shows "advanced s s' \<and> string_char bytes"
proof -
  from assms obtain uc t where t: "parse_hex16 s = Ret (Ok uc t)" "advanced s t"
    by (auto simp: parse_unicode_escape_def bindP_Ok_iff dest: parse_hex16_ok)
  show ?thesis
  proof (cases "uc \<ge> 0xD800 \<and> uc \<le> 0xDFFF")
    case True
    with assms t obtain c d lc u where r: "rd t 0 = Ret c" "c = 0x5C" "rd t 1 = Ret d" "d = 0x75"
        "parse_hex16 (drop 2 t) = Ret (Ok lc s')" "from_surrogate_pair uc lc = Some u"
        "utf8_write_char u = Ret bytes"
      by (auto simp: parse_unicode_escape_def bindP_Ok_iff bindO_Ret_iff split: if_splits option.splits)
    from r(5) have "advanced t s'"
      using drop_2_advanced [OF r(1) _ r(3)] parse_hex16_ok r(2,4)
      by (auto intro: advance_trans advanced_moved)
    moreover from from_surrogate_pair_scalar [OF r(6)] have "is_scalar u" "u \<noteq> 0" by auto
    ultimately show ?thesis
      using t(2) r(7) utf8_bytes_string_char [of u]
      by (auto simp: write_char_bytes intro: advance_trans advanced_moved)
  next
    case False
    with assms t have "uc \<noteq> 0" "t = s'" "utf8_write_char (ucast uc) = Ret bytes"
      by (auto simp: parse_unicode_escape_def bindO_Ret_iff split: if_splits)
    with unicode_escape_scalar [OF False] t(2) utf8_bytes_string_char [of "ucast uc"]
    show ?thesis by (simp add: write_char_bytes)
  qed
qed

lemma parse_string_char_ok:
  assumes "parse_string_char s = Ret (Ok bytes s')"
  shows "advanced s s' \<and> string_char bytes"
proof -
  from assms obtain c t where s: "s = c # t" by (auto simp: parse_string_char_def bindO_Ret_iff rd_0_Ret_iff)
  show ?thesis
  proof (cases "c = 0x5C")
    case True
    with assms s obtain e u where t: "t = e # u"
      by (auto simp: parse_string_char_def bindO_Ret_iff rd_0_Ret_iff split: if_splits)
    have "advanced s s'" if "advanced u s'" "e \<noteq> 0"
      using that True by (auto simp: s t dest: advanced_moved)
    with assms True show ?thesis
      by (auto simp: s t parse_string_char_def ascii_string_char dest!: parse_unicode_escape_ok
        split: if_splits)
  next
    case False
    with assms s obtain n where n: "utf8_validate_cz s = Ret n" "n \<noteq> 0" "bytes = take n s" "s' = drop n s"
      and c: "\<not> c \<le> 0x1F"
      by (auto simp: parse_string_char_def bindO_Ret_iff split: if_splits)
    from c have "c \<noteq> 0" by auto
    with validated_nonzero [OF n(1,2)] s have nz: "0 \<notin> set (take n s)" by simp
    with validate_cz_bound [OF n(1)] utf8_text_step [OF n(1,2)] n s show ?thesis
      by (auto simp: string_char_def advanced_def intro: moved_drop)
  qed
qed

function parse_string_loop :: "bool \<Rightarrow> SB \<Rightarrow> cursor \<Rightarrow> SB parsed outcome" where
  "parse_string_loop out sb s = bindO (rd s 0) (\<lambda>c.
     if c = 0x22 then Ret (Ok sb s)
     else bindP (parse_string_char s) (\<lambda>bytes s'.
       bindO (sb_store sb bytes) (\<lambda>sb.
       bindO (if out then sb_need sb 4 else Ret throwaway_buffer) (\<lambda>sb.
       parse_string_loop out sb s'))))"
  by pat_completeness auto
termination
  by (relation "measure (\<lambda>(out, sb, s). length s)") (auto dest!: parse_string_char_ok advanced_length)

declare parse_string_loop.simps [simp del]

text \<open>The string parsed is the C string at the pointer stored through \<open>out\<close>.\<close>

definition parse_string :: "bool \<Rightarrow> cursor \<Rightarrow> byte list option parsed outcome" where
  "parse_string out s = bindO (rd s 0) (\<lambda>c.
     if c \<noteq> 0x22 then Ret Fail
     else bindO (if out then sb_need sb_init 4 else Ret throwaway_buffer) (\<lambda>sb.
       bindP (parse_string_loop out sb (tl s)) (\<lambda>sb s.
       if out then bindO (sb_finish sb) (\<lambda>buf. Ret (Ok (Some (c_str buf)) (tl s)))
       else Ret (Ok None (tl s)))))"

section \<open>Values, arrays and objects\<close>

definition out_value :: "bool \<Rightarrow> 'a \<Rightarrow> 'a option" where
  "out_value out v = (if out then Some v else None)"

text \<open>\<open>if (out) json_append_element(ret, element);\<close> and the same for a member.\<close>

fun append_out :: "'a list \<Rightarrow> 'a option \<Rightarrow> 'a list" where
  "append_out ret None = ret"
| "append_out ret (Some x) = ret @ [x]"

fun member_out :: "byte list option \<Rightarrow> 'd json option \<Rightarrow> (byte list \<times> 'd json) option" where
  "member_out (Some key) (Some v) = Some (key, v)"
| "member_out _ _ = None"

function (sequential) parse_value :: "(cursor \<Rightarrow> 'd) \<Rightarrow> bool \<Rightarrow> nat \<Rightarrow> cursor \<Rightarrow> 'd json option parsed outcome"
and parse_array :: "(cursor \<Rightarrow> 'd) \<Rightarrow> bool \<Rightarrow> nat \<Rightarrow> cursor \<Rightarrow> 'd json option parsed outcome"
and parse_elements ::
  "(cursor \<Rightarrow> 'd) \<Rightarrow> bool \<Rightarrow> nat \<Rightarrow> 'd json list \<Rightarrow> cursor \<Rightarrow> 'd json option parsed outcome"
and parse_object :: "(cursor \<Rightarrow> 'd) \<Rightarrow> bool \<Rightarrow> nat \<Rightarrow> cursor \<Rightarrow> 'd json option parsed outcome"
and parse_members ::
  "(cursor \<Rightarrow> 'd) \<Rightarrow> bool \<Rightarrow> nat \<Rightarrow> (byte list \<times> 'd json) list \<Rightarrow> cursor \<Rightarrow> 'd json option parsed outcome"
where
  "parse_value sd out 0 s = Fault No_fuel"
| "parse_value sd out (Suc n) s = bindO (rd s 0) (\<lambda>c.
     if c = 0x6E then bindP (expect_literal s (ascii ''null'')) (\<lambda>_ s. Ret (Ok (out_value out JNull) s))
     else if c = 0x66 then
       bindP (expect_literal s (ascii ''false'')) (\<lambda>_ s. Ret (Ok (out_value out (JBool False)) s))
     else if c = 0x74 then
       bindP (expect_literal s (ascii ''true'')) (\<lambda>_ s. Ret (Ok (out_value out (JBool True)) s))
     else if c = 0x22 then bindP (parse_string out s) (\<lambda>str s. Ret (Ok (map_option JString str) s))
     else if c = 0x5B then parse_array sd out n s
     else if c = 0x7B then parse_object sd out n s
     else bindP (parse_number sd out s) (\<lambda>num s. Ret (Ok (map_option JNumber num) s)))"
| "parse_array sd out 0 s = Fault No_fuel"
| "parse_array sd out (Suc n) s = bindO (rd s 0) (\<lambda>c.
     if c \<noteq> 0x5B then Ret Fail
     else bindO (skip_space (tl s)) (\<lambda>s. bindO (rd s 0) (\<lambda>c.
       if c = 0x5D then Ret (Ok (out_value out (JArray [])) (tl s))
       else parse_elements sd out n [] s)))"
| "parse_elements sd out 0 ret s = Fault No_fuel"
| "parse_elements sd out (Suc n) ret s =
     bindP (parse_value sd out n s) (\<lambda>element s.
     bindO (skip_space s) (\<lambda>s. bindO (rd s 0) (\<lambda>c.
       if c = 0x5D then Ret (Ok (out_value out (JArray (append_out ret element))) (tl s))
       else if c \<noteq> 0x2C then Ret Fail
       else bindO (skip_space (tl s)) (\<lambda>s. parse_elements sd out n (append_out ret element) s))))"
| "parse_object sd out 0 s = Fault No_fuel"
| "parse_object sd out (Suc n) s = bindO (rd s 0) (\<lambda>c.
     if c \<noteq> 0x7B then Ret Fail
     else bindO (skip_space (tl s)) (\<lambda>s. bindO (rd s 0) (\<lambda>c.
       if c = 0x7D then Ret (Ok (out_value out (JObject [])) (tl s))
       else parse_members sd out n [] s)))"
| "parse_members sd out 0 ret s = Fault No_fuel"
| "parse_members sd out (Suc n) ret s =
     bindP (parse_string out s) (\<lambda>key s.
     bindO (skip_space s) (\<lambda>s. bindO (rd s 0) (\<lambda>c.
       if c \<noteq> 0x3A then Ret Fail
       else bindO (skip_space (tl s)) (\<lambda>s.
       bindP (parse_value sd out n s) (\<lambda>value s.
       bindO (skip_space s) (\<lambda>s. bindO (rd s 0) (\<lambda>c.
         if c = 0x7D then Ret (Ok (out_value out (JObject (append_out ret (member_out key value)))) (tl s))
         else if c \<noteq> 0x2C then Ret Fail
         else bindO (skip_space (tl s)) (\<lambda>s.
           parse_members sd out n (append_out ret (member_out key value)) s))))))))"

  by pat_completeness auto
termination
  by (relation "measure (\<lambda>x. case x of
        Inl (Inl (_, _, n, _)) \<Rightarrow> n | Inl (Inr (_, _, n, _)) \<Rightarrow> n
      | Inr (Inl (_, _, n, _, _)) \<Rightarrow> n | Inr (Inr (Inl (_, _, n, _))) \<Rightarrow> n
      | Inr (Inr (Inr (_, _, n, _, _))) \<Rightarrow> n)") simp_all

text \<open>Enough fuel for a buffer: each nested value costs at most three calls per byte.\<close>

definition parse_fuel :: "cursor \<Rightarrow> nat" where
  "parse_fuel s = Suc (3 * length s)"

definition json_decode :: "(cursor \<Rightarrow> 'd) \<Rightarrow> cursor \<Rightarrow> 'd json option outcome" where
  "json_decode sd json =
     bindO (skip_space json) (\<lambda>s.
     bindO (parse_value sd True (parse_fuel s) s) (\<lambda>r. case r of
       Fail \<Rightarrow> Ret None
     | Ok ret s \<Rightarrow> bindO (skip_space s) (\<lambda>s. bindO (rd s 0) (\<lambda>c.
         if c \<noteq> 0 then Ret None else Ret ret))))"

definition json_validate :: "(cursor \<Rightarrow> 'd) \<Rightarrow> cursor \<Rightarrow> bool outcome" where
  "json_validate sd json =
     bindO (skip_space json) (\<lambda>s.
     bindO (parse_value sd False (parse_fuel s) s) (\<lambda>r. case r of
       Fail \<Rightarrow> Ret False
     | Ok _ s \<Rightarrow> bindO (skip_space s) (\<lambda>s. bindO (rd s 0) (\<lambda>c. Ret (c = 0)))))"

end
