(* ===== verification/JsonParseFacts.thy ===== *)
theory JsonParseFacts
  imports JsonParse
begin

text \<open>
  Safety of the parser. On a NUL-terminated buffer every parsing function returns, without a
  fault: no read past the terminator, no store past the string buffer or past
  \<open>throwaway_buffer\<close>, no failed assertion and no exhausted fuel. What it accepts was consumed
  from the front of the buffer, and the values built hold valid strings. Parsing without building
  values accepts the same texts.
\<close>

section \<open>Well-formed values\<close>

text \<open>What \<open>json_check\<close> asks of keys and strings: C strings that are valid UTF-8.\<close>

definition str_ok :: "byte list \<Rightarrow> bool" where
  "str_ok str \<longleftrightarrow> 0 \<notin> set str \<and> utf8_validate (str @ [0]) = Ret True"

fun json_wf :: "'d json \<Rightarrow> bool" where
  "json_wf (JString str) \<longleftrightarrow> str_ok str"
| "json_wf (JArray es) \<longleftrightarrow> (\<forall>e \<in> set es. json_wf e)"
| "json_wf (JObject ms) \<longleftrightarrow> (\<forall>m \<in> set ms. str_ok (fst m) \<and> json_wf (snd m))"
| "json_wf _ \<longleftrightarrow> True"

lemma str_ok_iff: "str_ok str \<longleftrightarrow> 0 \<notin> set str \<and> utf8_text str"
  using validate_text [of str "[]"] by (auto simp: str_ok_def)

section \<open>Scanning\<close>

lemma is_space_nonzero: "is_space c \<Longrightarrow> c \<noteq> 0"
  by (auto simp: is_space_def)

lemma is_digit_nonzero: "is_digit c \<Longrightarrow> c \<noteq> 0"
  by (auto simp: is_digit_def)

lemma not_is_space_0 [simp]: "\<not> is_space 0" and not_is_digit_0 [simp]: "\<not> is_digit 0"
  by (simp_all add: is_space_def is_digit_def)

lemma rd_terminated: "terminated s \<Longrightarrow> ensures (rd s 0) (\<lambda>c. \<exists>t. s = c # t)"
  by (cases s) auto

lemma skip_space_ensures [ensures_rules]:
  "terminated s \<Longrightarrow> ensures (skip_space s) (\<lambda>t. moved s t \<and> terminated t)"
  by (induction s rule: skip_space.induct) (auto simp: is_space_nonzero elim!: ensures_mono)

lemma skip_digits_ensures [ensures_rules]:
  "terminated s \<Longrightarrow> ensures (skip_digits s) (\<lambda>t. moved s t \<and> terminated t)"
  by (induction s rule: skip_digits.induct) (auto simp: is_digit_nonzero elim!: ensures_mono)

lemma expect_literal_ensures [ensures_rules]:
  "terminated s \<Longrightarrow> 0 \<notin> set str \<Longrightarrow>
     ensures (expect_literal s str) (on_ok (\<lambda>_ t. moved s t \<and> length t + length str = length s))"
proof (induction s str rule: expect_literal.induct)
  case (2 s x str)
  then obtain c t where s: "s = c # t" by (cases s) auto
  show ?case
  proof (cases "c = x")
    case True
    with 2 s have "ensures (expect_literal t str) (on_ok (\<lambda>_ u. moved t u \<and> length u + length str = length t))"
      by simp
    with True s 2 show ?thesis by (auto elim!: ensures_mono elim: on_ok.elims)
  qed (simp add: s)
qed simp

lemma on_ok_mono: "on_ok P r \<Longrightarrow> (\<And>v s. r = Ok v s \<Longrightarrow> P v s \<Longrightarrow> Q v s) \<Longrightarrow> on_ok Q r"
  by (cases r) auto

lemma ensures_ok_mono:
  "ensures m (on_ok P) \<Longrightarrow> (\<And>v s. m = Ret (Ok v s) \<Longrightarrow> P v s \<Longrightarrow> Q v s) \<Longrightarrow> ensures m (on_ok Q)"
  by (erule ensures_mono) (auto elim: on_ok_mono)

lemma ensures_okI:
  "(\<exists>r. m = Ret r) \<Longrightarrow> (\<And>v s. m = Ret (Ok v s) \<Longrightarrow> Q v s) \<Longrightarrow> ensures m (on_ok Q)"
  by (metis ensures.simps(2) on_ok.elims(3))

text \<open>\<open>consumes s\<close>: the pointer moved past at least one byte of \<open>s\<close>, not past its end.\<close>

definition consumes :: "cursor \<Rightarrow> cursor \<Rightarrow> bool" where
  "consumes s t \<longleftrightarrow> advanced s t \<and> terminated t"

lemma digits1_ensures [ensures_rules]: "terminated s \<Longrightarrow> ensures (digits1 s) (on_ok (\<lambda>_. consumes s))"
  unfolding digits1_def
  by (cases s) (auto simp: consumes_def dest!: is_digit_nonzero skip_digits_ensures
    intro!: ensures_bindO [where P = "\<lambda>t. moved _ t \<and> terminated t"])

lemma scan_sign_ensures: "terminated s \<Longrightarrow> ensures (scan_sign s) (\<lambda>t. moved s t \<and> terminated t)"
  by (cases s) (auto simp: scan_sign_def)

lemma scan_int_ensures: "terminated s \<Longrightarrow> ensures (scan_int s) (on_ok (\<lambda>_. consumes s))"
  using digits1_ensures [of s] by (cases s) (auto simp: scan_int_def consumes_def)

lemma scan_frac_ensures:
  "terminated s \<Longrightarrow> ensures (scan_frac s) (on_ok (\<lambda>_ t. moved s t \<and> terminated t))"
  using digits1_ensures [of "tl s"]
  by (cases s) (auto simp: scan_frac_def consumes_def advanced_moved elim!: ensures_ok_mono)

lemma scan_exp_ensures:
  "terminated s \<Longrightarrow> ensures (scan_exp s) (on_ok (\<lambda>_ t. moved s t \<and> terminated t))"
proof (cases s)
  case (Cons c t)
  assume s: "terminated s"
  show ?thesis
  proof (cases "c = 0x45 \<or> c = 0x65")
    case True
    with s Cons have t: "terminated t" by auto
    then obtain d u where u: "t = d # u" by (cases t) auto
    define t' where "t' = (if d = 0x2B \<or> d = 0x2D then u else t)"
    have t': "terminated t'" "moved s t'" using t u True by (auto simp: t'_def Cons)
    from True have "scan_exp s = digits1 t'" by (auto simp: scan_exp_def t'_def Cons u)
    with t' digits1_ensures [of t'] show ?thesis
      by (auto simp: consumes_def elim!: ensures_ok_mono dest!: advanced_moved intro: moved_trans)
  qed (use Cons s in \<open>auto simp: scan_exp_def\<close>)
qed simp

lemma scan_number_ensures [ensures_rules]:
  assumes "terminated s"
  shows "ensures (scan_number s) (on_ok (\<lambda>_. consumes s))"
  unfolding scan_number_def
proof (rule ensures_bindO [OF scan_sign_ensures [OF assms]])
  fix t assume t: "moved s t \<and> terminated t"
  show "ensures (bindP (scan_int t) (\<lambda>_ s. bindP (scan_frac s) (\<lambda>_ s. scan_exp s))) (on_ok (\<lambda>_. consumes s))"
  proof (rule ensures_bindP [OF scan_int_ensures])
    fix u assume u: "consumes t u"
    then show "ensures (bindP (scan_frac u) (\<lambda>_ s. scan_exp s)) (on_ok (\<lambda>_. consumes s))"
    proof (intro ensures_bindP [OF scan_frac_ensures])
      fix w assume w: "moved u w \<and> terminated w"
      then show "ensures (scan_exp w) (on_ok (\<lambda>_. consumes s))"
        using t u by (intro ensures_ok_mono [OF scan_exp_ensures])
          (auto simp: consumes_def intro: advance_trans)
    qed (simp add: consumes_def)
  qed (use t in simp)
qed

lemma parse_number_ensures [ensures_rules]:
  "terminated s \<Longrightarrow> ensures (parse_number sd out s)
     (on_ok (\<lambda>num t. consumes s t \<and> (num \<noteq> None \<longleftrightarrow> out)))"
  unfolding parse_number_def by (rule ensures_bindP [OF scan_number_ensures]) auto

section \<open>Strings\<close>

lemma parse_hex16_loop_returns: "terminated s \<Longrightarrow> \<exists>r. parse_hex16_loop n ret s = Ret r"
proof (induction n arbitrary: ret s)
  case (Suc n)
  then obtain c t where s: "s = c # t" by (cases s) auto
  show ?case
  proof (cases "hex_digit c")
    case (Some x)
    then have "c \<noteq> 0" by (auto simp: hex_digit_def)
    with Suc s Some show ?thesis by simp
  qed (simp add: s)
qed simp

lemma parse_hex16_ensures [ensures_rules]:
  assumes "terminated s"
  shows "ensures (parse_hex16 s) (on_ok (\<lambda>_. consumes s))"
proof (rule ensures_okI)
  show "\<exists>r. parse_hex16 s = Ret r"
    using parse_hex16_loop_returns [OF assms] by (simp add: parse_hex16_def)
qed (use assms in \<open>auto simp: consumes_def dest: parse_hex16_ok advanced_terminated\<close>)

lemma parse_unicode_escape_returns:
  assumes "terminated s"
  shows "\<exists>r. parse_unicode_escape s = Ret r"
proof -
  from parse_hex16_ensures [OF assms] consider "parse_hex16 s = Ret Fail"
    | uc t where "parse_hex16 s = Ret (Ok uc t)" "terminated t"
    by (auto simp: ensures_iff consumes_def elim: on_ok.elims)
  then show ?thesis
  proof cases
    case 2
    show ?thesis
    proof (cases "uc \<ge> 0xD800 \<and> uc \<le> 0xDFFF")
      case True
      show ?thesis
      proof (cases "\<exists>u. t = 0x5C # 0x75 # u")
        case True
        then obtain u where u: "t = 0x5C # 0x75 # u" by blast
        with 2 have "terminated u" by simp
        from parse_hex16_ensures [OF this] obtain r where "parse_hex16 u = Ret r"
          by (auto simp: ensures_iff)
        with 2 u \<open>uc \<ge> 0xD800 \<and> uc \<le> 0xDFFF\<close> show ?thesis
          by (cases r) (auto simp: parse_unicode_escape_def write_char_bytes
            dest!: from_surrogate_pair_scalar split: option.split)
      next
        case False
        from 2 obtain c u where u: "t = c # u" by (cases t) auto
        show ?thesis
        proof (cases "c = 0x5C")
          case True
          with 2 u obtain d w where "u = d # w" by (cases u) auto
          with 2 u True False \<open>uc \<ge> 0xD800 \<and> uc \<le> 0xDFFF\<close> show ?thesis
            by (auto simp: parse_unicode_escape_def)
        qed (use 2 u \<open>uc \<ge> 0xD800 \<and> uc \<le> 0xDFFF\<close> in \<open>simp add: parse_unicode_escape_def\<close>)
      qed
    next
      case False
      with 2 show ?thesis
        using unicode_escape_scalar [OF False]
        by (cases "uc = 0") (auto simp: parse_unicode_escape_def write_char_bytes)
    qed
  qed (simp add: parse_unicode_escape_def)
qed

lemma parse_string_char_ensures [ensures_rules]:
  assumes "terminated s"
  shows "ensures (parse_string_char s) (on_ok (\<lambda>bytes t. consumes s t \<and> string_char bytes))"
proof (rule ensures_okI)
  from assms obtain c t where s: "s = c # t" by (cases s) auto
  show "\<exists>r. parse_string_char s = Ret r"
  proof (cases "c = 0x5C")
    case True
    with assms s obtain e u where t: "t = e # u" by (cases t) auto
    show ?thesis
    proof (cases "e = 0x75")
      case True
      with assms s t \<open>c = 0x5C\<close> parse_unicode_escape_returns [of u] show ?thesis
        by (auto simp: parse_string_char_def)
    qed (use s t True in \<open>auto simp: parse_string_char_def\<close>)
  next
    case False
    with s validate_cz_returns [OF assms] show ?thesis by (auto simp: parse_string_char_def)
  qed
qed (use assms in \<open>auto simp: consumes_def dest: parse_string_char_ok advanced_terminated\<close>)

text \<open>The buffer the loop writes to, between two characters.\<close>

definition sb_ready :: "bool \<Rightarrow> SB \<Rightarrow> bool" where
  "sb_ready out sb \<longleftrightarrow>
     (if out then sb_wf sb \<and> 4 \<le> sb_room sb \<and> 0 \<notin> set (sb_bytes sb) \<and> utf8_text (sb_bytes sb)
      else sb = throwaway_buffer)"

lemma store_char_ensures:
  assumes "sb_ready out sb" "string_char bytes"
  shows "ensures (bindO (sb_store sb bytes) (\<lambda>sb. if out then sb_need sb 4 else Ret throwaway_buffer))
    (\<lambda>sb'. sb_ready out sb' \<and> (out \<longrightarrow> sb_bytes sb' = sb_bytes sb @ bytes))"
proof (cases out)
  case True
  with assms have sb: "sb_wf sb" "length bytes \<le> sb_room sb" by (auto simp: sb_ready_def string_char_def)
  show ?thesis
  proof (rule ensures_bindO [OF sb_store_ensures [OF sb]])
    fix sb1
    assume sb1: "sb_wf sb1 \<and> sb_bytes sb1 = sb_bytes sb @ bytes \<and> sb_room sb1 = sb_room sb - length bytes"
    then show "ensures (if out then sb_need sb1 4 else Ret throwaway_buffer)
        (\<lambda>sb'. sb_ready out sb' \<and> (out \<longrightarrow> sb_bytes sb' = sb_bytes sb @ bytes))"
      using True assms sb_need_ensures [of sb1 4]
      by (auto simp: sb_ready_def string_char_def utf8_text_append elim!: ensures_mono)
  qed
next
  case False
  with assms show ?thesis
    by (simp add: sb_ready_def string_char_def sb_store_def throwaway_buffer_def)
qed

lemma parse_string_loop_unfold:
  "parse_string_loop out sb s = bindO (rd s 0) (\<lambda>c.
     if c = 0x22 then Ret (Ok sb s)
     else bindP (parse_string_char s) (\<lambda>bytes s'.
       bindO (bindO (sb_store sb bytes) (\<lambda>sb. if out then sb_need sb 4 else Ret throwaway_buffer))
         (\<lambda>sb. parse_string_loop out sb s')))"
  unfolding parse_string_loop.simps [of out sb s] bindO_assoc ..

lemma parse_string_loop_ensures:
  "terminated s \<Longrightarrow> sb_ready out sb \<Longrightarrow> ensures (parse_string_loop out sb s)
     (on_ok (\<lambda>sb' t. moved s t \<and> terminated t \<and> (\<exists>u. t = 0x22 # u) \<and> sb_ready out sb'))"
proof (induction "length s" arbitrary: s sb rule: less_induct)
  case less
  from less.prems obtain c t where s: "s = c # t" by (cases s) auto
  show ?case
  proof (cases "c = 0x22")
    case True
    with s less.prems show ?thesis by (simp add: parse_string_loop.simps [of out sb "0x22 # t"])
  next
    case False
    have "ensures (bindP (parse_string_char s) (\<lambda>bytes s'.
        bindO (bindO (sb_store sb bytes) (\<lambda>sb. if out then sb_need sb 4 else Ret throwaway_buffer))
         (\<lambda>sb. parse_string_loop out sb s')))
      (on_ok (\<lambda>sb' t. moved s t \<and> terminated t \<and> (\<exists>u. t = 0x22 # u) \<and> sb_ready out sb'))"
    proof (rule ensures_bindP [OF parse_string_char_ensures [OF less.prems(1)]])
      fix bytes s' assume c: "consumes s s' \<and> string_char bytes"
      show "ensures (bindO (bindO (sb_store sb bytes) (\<lambda>sb. if out then sb_need sb 4 else Ret throwaway_buffer))
           (\<lambda>sb. parse_string_loop out sb s'))
        (on_ok (\<lambda>sb' t. moved s t \<and> terminated t \<and> (\<exists>u. t = 0x22 # u) \<and> sb_ready out sb'))"
      proof (rule ensures_bindO [OF store_char_ensures])
        fix sb1 assume "sb_ready out sb1 \<and> (out \<longrightarrow> sb_bytes sb1 = sb_bytes sb @ bytes)"
        then show "ensures (parse_string_loop out sb1 s')
            (on_ok (\<lambda>sb' t. moved s t \<and> terminated t \<and> (\<exists>u. t = 0x22 # u) \<and> sb_ready out sb'))"
          using c by (intro ensures_ok_mono [OF less.hyps])
            (auto simp: consumes_def advanced_length intro: moved_trans advanced_moved)
      qed (use c less.prems in auto)
    qed
    with False s show ?thesis by (subst parse_string_loop_unfold) simp
  qed
qed

definition str_good :: "bool \<Rightarrow> byte list option \<Rightarrow> bool" where
  "str_good out str \<longleftrightarrow> (if out then \<exists>x. str = Some x \<and> str_ok x else str = None)"

lemma sb_ready_start:
  "ensures (if out then sb_need sb_init 4 else Ret throwaway_buffer)
     (\<lambda>sb. sb_ready out sb \<and> (out \<longrightarrow> sb_bytes sb = []))"
  using sb_need_ensures [of sb_init 4] by (auto simp: sb_ready_def elim!: ensures_mono)

lemma parse_string_ensures [ensures_rules]:
  assumes "terminated s"
  shows "ensures (parse_string out s) (on_ok (\<lambda>str t. consumes s t \<and> str_good out str))"
proof -
  from assms obtain c t where s: "s = c # t" by (cases s) auto
  show ?thesis
  proof (cases "c = 0x22")
    case True
    have "ensures (bindO (if out then sb_need sb_init 4 else Ret throwaway_buffer) (\<lambda>sb.
       bindP (parse_string_loop out sb t) (\<lambda>sb s.
       if out then bindO (sb_finish sb) (\<lambda>buf. Ret (Ok (Some (c_str buf)) (tl s)))
       else Ret (Ok None (tl s))))) (on_ok (\<lambda>str t. consumes s t \<and> str_good out str))"
    proof (rule ensures_bindO [OF sb_ready_start])
      fix sb assume "sb_ready out sb \<and> (out \<longrightarrow> sb_bytes sb = [])"
      then have sb: "sb_ready out sb" by simp
      from assms s True have t: "terminated t" by simp
      show "ensures (bindP (parse_string_loop out sb t) (\<lambda>sb s.
         if out then bindO (sb_finish sb) (\<lambda>buf. Ret (Ok (Some (c_str buf)) (tl s)))
         else Ret (Ok None (tl s)))) (on_ok (\<lambda>str t. consumes s t \<and> str_good out str))"
      proof (rule ensures_bindP [OF parse_string_loop_ensures [OF t sb]])
        fix sb' u
        assume *: "moved t u \<and> terminated u \<and> (\<exists>v. u = 0x22 # v) \<and> sb_ready out sb'"
        then obtain v where v: "u = 0x22 # v" "moved t (0x22 # v)" by blast
        moreover have "moved (0x22 # v) v" by simp
        ultimately have "advanced s (tl u)" "terminated (tl u)"
          using s True * moved_trans by auto
        with * show "ensures (if out then bindO (sb_finish sb') (\<lambda>buf. Ret (Ok (Some (c_str buf)) (tl u)))
             else Ret (Ok None (tl u))) (on_ok (\<lambda>str t. consumes s t \<and> str_good out str))"
          by (auto simp: sb_ready_def sb_finish_Ret c_str_append str_good_def str_ok_iff consumes_def)
      qed
    qed
    with True s show ?thesis by (simp add: parse_string_def)
  qed (simp add: s parse_string_def)
qed

section \<open>Values\<close>

definition val_good :: "bool \<Rightarrow> 'd json option \<Rightarrow> bool" where
  "val_good out v \<longleftrightarrow> (if out then \<exists>x. v = Some x \<and> json_wf x else v = None)"

lemma val_good_simps [simp]:
  "val_good True (Some x) \<longleftrightarrow> json_wf x" "\<not> val_good True None"
  "val_good out (out_value out x) \<longleftrightarrow> (out \<longrightarrow> json_wf x)"
  "val_good False v \<longleftrightarrow> v = None"
  by (auto simp: val_good_def out_value_def)

lemma consumes_skip: "consumes s t \<Longrightarrow> moved t (c # u) \<Longrightarrow> terminated (c # u) \<Longrightarrow> c \<noteq> 0 \<Longrightarrow> consumes s u"
  by (metis advance_trans(2) advanced_Cons advanced_moved consumes_def moved_refl terminated_simps(2))

lemma moved_skip: "moved s (c # u) \<Longrightarrow> terminated (c # u) \<Longrightarrow> c \<noteq> 0 \<Longrightarrow> consumes s u"
  by (metis advance_trans(3) advanced_Cons consumes_def moved_refl terminated_simps(2))

lemma consumes_trans: "consumes s t \<Longrightarrow> consumes t u \<Longrightarrow> consumes s u"
  by (auto simp: consumes_def dest: advanced_moved intro: advance_trans)

lemma consumes_length: "consumes s t \<Longrightarrow> length t < length s" and consumes_terminated: "consumes s t \<Longrightarrow> terminated t"
  by (auto simp: consumes_def advanced_def)

lemma moved_consumes: "moved s t \<Longrightarrow> consumes t u \<Longrightarrow> consumes s u"
  by (auto simp: consumes_def intro: advance_trans)

text \<open>\<open>skip_space(&s); ... *s ...\<close>, the step between two tokens.\<close>

lemma skip_rd_ensures:
  assumes "terminated s" "\<And>c t. moved s (c # t) \<Longrightarrow> terminated (c # t) \<Longrightarrow> ensures (f (c # t) c) Q"
  shows "ensures (bindO (skip_space s) (\<lambda>s. bindO (rd s 0) (f s))) Q"
proof (rule ensures_bindO [OF skip_space_ensures [OF assms(1)]])
  fix t assume t: "moved s t \<and> terminated t"
  then obtain c u where "t = c # u" by (cases t) auto
  with t assms(2) show "ensures (bindO (rd t 0) (f t)) Q" by auto
qed

definition value_spec :: "(cursor \<Rightarrow> 'd) \<Rightarrow> bool \<Rightarrow> nat \<Rightarrow> bool" where
  "value_spec sd out n \<longleftrightarrow> (\<forall>s. terminated s \<longrightarrow> 3 * length s + 1 \<le> n \<longrightarrow>
     ensures (parse_value sd out n s) (on_ok (\<lambda>v t. consumes s t \<and> val_good out v)))"

definition array_spec :: "(cursor \<Rightarrow> 'd) \<Rightarrow> bool \<Rightarrow> nat \<Rightarrow> bool" where
  "array_spec sd out n \<longleftrightarrow> (\<forall>s. terminated s \<longrightarrow> 3 * length s \<le> n \<longrightarrow>
     ensures (parse_array sd out n s) (on_ok (\<lambda>v t. consumes s t \<and> val_good out v)) \<and>
     ensures (parse_object sd out n s) (on_ok (\<lambda>v t. consumes s t \<and> val_good out v)))"

definition items_spec :: "(cursor \<Rightarrow> 'd) \<Rightarrow> bool \<Rightarrow> nat \<Rightarrow> bool" where
  "items_spec sd out n \<longleftrightarrow> (\<forall>s. terminated s \<longrightarrow> 3 * length s + 2 \<le> n \<longrightarrow>
     (\<forall>ret. json_wf (JArray ret) \<longrightarrow>
        ensures (parse_elements sd out n ret s) (on_ok (\<lambda>v t. consumes s t \<and> val_good out v))) \<and>
     (\<forall>ret. json_wf (JObject ret) \<longrightarrow>
        ensures (parse_members sd out n ret s) (on_ok (\<lambda>v t. consumes s t \<and> val_good out v))))"

lemma literal_ensures:
  assumes "terminated s" "str \<noteq> []" "0 \<notin> set str" "val_good out v"
  shows "ensures (bindP (expect_literal s str) (\<lambda>_ s. Ret (Ok v s)))
    (on_ok (\<lambda>v t. consumes s t \<and> val_good out v))"
proof (rule ensures_bindP [OF expect_literal_ensures [OF assms(1,3)]])
  fix t assume "moved s t \<and> length t + length str = length s"
  moreover have "0 < length str" using assms(2) by simp
  ultimately show "ensures (Ret (Ok v t)) (on_ok (\<lambda>v t. consumes s t \<and> val_good out v))"
    using assms(1,4) by (auto simp: consumes_def advanced_def moved_terminated simp del: length_greater_0_conv)
qed

lemma ensures_if:
  "(b \<Longrightarrow> ensures x Q) \<Longrightarrow> (\<not> b \<Longrightarrow> ensures y Q) \<Longrightarrow> ensures (if b then x else y) Q"
  by simp

lemma value_step:
  assumes "array_spec sd out n"
  shows "value_spec sd out (Suc n)"
  unfolding value_spec_def
proof (intro allI impI)
  fix s assume s: "terminated s" "3 * length s + 1 \<le> Suc n"
  have lits: "ensures (bindP (expect_literal s (ascii ''null'')) (\<lambda>_ s. Ret (Ok (out_value out JNull) s)))
        (on_ok (\<lambda>v t. consumes s t \<and> val_good out v))"
      "ensures (bindP (expect_literal s (ascii ''false'')) (\<lambda>_ s. Ret (Ok (out_value out (JBool False)) s)))
        (on_ok (\<lambda>v t. consumes s t \<and> val_good out v))"
      "ensures (bindP (expect_literal s (ascii ''true'')) (\<lambda>_ s. Ret (Ok (out_value out (JBool True)) s)))
        (on_ok (\<lambda>v t. consumes s t \<and> val_good out v))"
    by (rule literal_ensures [OF s(1)]; simp add: ascii_def)+
  have str: "ensures (bindP (parse_string out s) (\<lambda>str s. Ret (Ok (map_option JString str) s)))
      (on_ok (\<lambda>v t. consumes s t \<and> val_good out v))"
    by (rule ensures_bindP [OF parse_string_ensures [OF s(1)]]) (auto simp: str_good_def val_good_def)
  have num: "ensures (bindP (parse_number sd out s) (\<lambda>num s. Ret (Ok (map_option JNumber num) s)))
      (on_ok (\<lambda>v t. consumes s t \<and> val_good out v))"
    by (rule ensures_bindP [OF parse_number_ensures [OF s(1)]]) (auto simp: val_good_def)
  have arr: "ensures (parse_array sd out n s) (on_ok (\<lambda>v t. consumes s t \<and> val_good out v))"
      "ensures (parse_object sd out n s) (on_ok (\<lambda>v t. consumes s t \<and> val_good out v))"
    using assms s by (auto simp: array_spec_def)
  show "ensures (parse_value sd out (Suc n) s) (on_ok (\<lambda>v t. consumes s t \<and> val_good out v))"
    unfolding parse_value.simps
    by (rule ensures_bindO [OF rd_terminated [OF s(1)]]) (intro ensures_if lits str num arr)
qed

lemma array_step:
  assumes "items_spec sd out n"
  shows "array_spec sd out (Suc n)"
  unfolding array_spec_def
proof (intro allI impI conjI)
  fix s assume s: "terminated s" "3 * length s \<le> Suc n"
  from s obtain c t where st: "s = c # t" by (cases s) auto
  let ?Q = "on_ok (\<lambda>v t. consumes s t \<and> val_good out v)"
  have items: "ensures (parse_elements sd out n [] (d # u)) ?Q" "ensures (parse_members sd out n [] (d # u)) ?Q"
    and close: "d \<noteq> 0 \<Longrightarrow> consumes s u"
    if "moved t (d # u)" "terminated (d # u)" "c \<noteq> 0" for d u
  proof -
    from that st have m: "consumes s (d # u)" by (simp add: consumes_def)
    from consumes_length [OF m] s(2) have "3 * length (d # u) + 2 \<le> n" by simp
    with assms that(2)
    have "ensures (parse_elements sd out n [] (d # u)) (on_ok (\<lambda>v t. consumes (d # u) t \<and> val_good out v))"
      "ensures (parse_members sd out n [] (d # u)) (on_ok (\<lambda>v t. consumes (d # u) t \<and> val_good out v))"
      unfolding items_spec_def json_wf.simps by (metis empty_iff list.set(1))+
    then show "ensures (parse_elements sd out n [] (d # u)) ?Q"
      "ensures (parse_members sd out n [] (d # u)) ?Q"
      using m by (auto elim!: ensures_ok_mono intro: consumes_trans)
    show "d \<noteq> 0 \<Longrightarrow> consumes s u" by (rule consumes_skip [OF m]) (use that in auto)
  qed
  show "ensures (parse_array sd out (Suc n) s) ?Q"
  proof (cases "c = 0x5B")
    case True
    with s st have "terminated t" by simp
    then have "ensures (bindO (skip_space t) (\<lambda>s. bindO (rd s 0) (\<lambda>c.
       if c = 0x5D then Ret (Ok (out_value out (JArray [])) (tl s))
       else parse_elements sd out n [] s))) ?Q"
      using items close True by (intro skip_rd_ensures) auto
    with True st show ?thesis by simp
  qed (simp add: st)
  show "ensures (parse_object sd out (Suc n) s) ?Q"
  proof (cases "c = 0x7B")
    case True
    with s st have "terminated t" by simp
    then have "ensures (bindO (skip_space t) (\<lambda>s. bindO (rd s 0) (\<lambda>c.
       if c = 0x7D then Ret (Ok (out_value out (JObject [])) (tl s))
       else parse_members sd out n [] s))) ?Q"
      using items close True by (intro skip_rd_ensures) auto
    with True st show ?thesis by simp
  qed (simp add: st)
qed

lemma again:
  assumes "items_spec sd out n" "consumes s u" "3 * length s + 2 \<le> Suc n"
  shows "(json_wf (JArray es) \<longrightarrow> ensures (bindO (skip_space u) (\<lambda>s. parse_elements sd out n es s))
      (on_ok (\<lambda>v t. consumes s t \<and> val_good out v))) \<and>
    (json_wf (JObject ms) \<longrightarrow> ensures (bindO (skip_space u) (\<lambda>s. parse_members sd out n ms s))
      (on_ok (\<lambda>v t. consumes s t \<and> val_good out v)))"
proof (intro conjI impI; rule ensures_bindO [OF skip_space_ensures])
  fix w assume w: "moved u w \<and> terminated w"
  with assms(2) have c: "consumes s w" by (auto simp: consumes_def intro: advance_trans)
  with assms(3) have l: "3 * length w + 2 \<le> n" using consumes_length [OF c] by simp
  show "ensures (parse_elements sd out n es w) (on_ok (\<lambda>v t. consumes s t \<and> val_good out v))"
    if "json_wf (JArray es)"
    by (rule ensures_ok_mono [OF assms(1) [unfolded items_spec_def, rule_format, THEN conjunct1, rule_format, OF _ l that]])
      (use w c in \<open>auto intro: consumes_trans\<close>)
  show "ensures (parse_members sd out n ms w) (on_ok (\<lambda>v t. consumes s t \<and> val_good out v))"
    if "json_wf (JObject ms)"
    by (rule ensures_ok_mono [OF assms(1) [unfolded items_spec_def, rule_format, THEN conjunct2, rule_format, OF _ l that]])
      (use w c in \<open>auto intro: consumes_trans\<close>)
qed (use assms(2) in \<open>simp_all add: consumes_def\<close>)

text \<open>What follows the value of a member.\<close>

lemma members_tail:
  fixes sd :: "cursor \<Rightarrow> 'd"
  assumes "items_spec sd out n" "ensures (parse_value sd out n w) (on_ok (\<lambda>v t. consumes w t \<and> val_good out v))"
    and "consumes s w" "3 * length s + 2 \<le> Suc n" "json_wf (JObject ret)" "str_good out key"
  shows "ensures (bindP (parse_value sd out n w) (\<lambda>value s.
     bindO (skip_space s) (\<lambda>s. bindO (rd s 0) (\<lambda>c.
       if c = 0x7D then Ret (Ok (out_value out (JObject (append_out ret (member_out key value)))) (tl s))
       else if c \<noteq> 0x2C then Ret Fail
       else bindO (skip_space (tl s)) (\<lambda>s.
         parse_members sd out n (append_out ret (member_out key value)) s)))))
    (on_ok (\<lambda>v t. consumes s t \<and> val_good out v))"
proof (rule ensures_bindP [OF assms(2)], rule skip_rd_ensures)
  fix v :: "'d json option" and t c u assume v: "consumes w t \<and> val_good out v" and u: "moved t (c # u)" "terminated (c # u)"
  from v assms(3) have "consumes s t" by (auto intro: consumes_trans)
  with u have c: "consumes s u" if "c \<noteq> 0" using that consumes_skip by blast
  have ret': "json_wf (JObject (append_out ret (member_out key v)))"
    using v assms(5,6) by (cases v; cases key) (auto simp: str_good_def val_good_def split: if_splits)
  have "ensures (bindO (skip_space u) (\<lambda>s. parse_members sd out n (append_out ret (member_out key v)) s))
      (on_ok (\<lambda>v t. consumes s t \<and> val_good out v))" if "c = 0x2C"
    using again [OF assms(1) c assms(4)] that ret' by auto
  then show "ensures (if c = 0x7D
      then Ret (Ok (out_value out (JObject (append_out ret (member_out key v)))) (tl (c # u)))
      else if c \<noteq> 0x2C then Ret Fail
      else bindO (skip_space (tl (c # u))) (\<lambda>s. parse_members sd out n (append_out ret (member_out key v)) s))
    (on_ok (\<lambda>v t. consumes s t \<and> val_good out v))"
    using ret' c by auto
qed (use assms in \<open>simp add: consumes_def\<close>)

lemma items_step:
  fixes sd :: "cursor \<Rightarrow> 'd"
  assumes "items_spec sd out n" "value_spec sd out n"
  shows "items_spec sd out (Suc n)"
  unfolding items_spec_def
proof (intro allI impI conjI)
  fix s and ret :: "'d json list"
  assume s: "terminated s" "3 * length s + 2 \<le> Suc n" and ret: "json_wf (JArray ret)"
  let ?Q = "on_ok (\<lambda>v t. consumes s t \<and> val_good out v)"
  from s assms(2) have val: "ensures (parse_value sd out n s) ?Q" by (simp add: value_spec_def)
  show "ensures (parse_elements sd out (Suc n) ret s) ?Q"
    unfolding parse_elements.simps
  proof (rule ensures_bindP [OF val])
    fix v :: "'d json option" and t assume v: "consumes s t \<and> val_good out v"
    then have ret': "json_wf (JArray (append_out ret v))" using ret by (cases v) (auto simp: val_good_def split: if_splits)
    show "ensures (bindO (skip_space t) (\<lambda>s. bindO (rd s 0) (\<lambda>c.
       if c = 0x5D then Ret (Ok (out_value out (JArray (append_out ret v))) (tl s))
       else if c \<noteq> 0x2C then Ret Fail
       else bindO (skip_space (tl s)) (\<lambda>s. parse_elements sd out n (append_out ret v) s)))) ?Q"
    proof (rule skip_rd_ensures)
      fix c u assume u: "moved t (c # u)" "terminated (c # u)"
      with v have c: "consumes s u" if "c \<noteq> 0" using that consumes_skip by blast
      have "ensures (bindO (skip_space u) (\<lambda>s. parse_elements sd out n (append_out ret v) s)) ?Q" if "c = 0x2C"
        using again [OF assms(1) c s(2)] that ret' by auto
      then show "ensures (if c = 0x5D then Ret (Ok (out_value out (JArray (append_out ret v))) (tl (c # u)))
          else if c \<noteq> 0x2C then Ret Fail
          else bindO (skip_space (tl (c # u))) (\<lambda>s. parse_elements sd out n (append_out ret v) s)) ?Q"
        using ret' c by auto
    qed (use v in \<open>simp add: consumes_def\<close>)
  qed
next
  fix s and ret :: "(byte list \<times> 'd json) list"
  assume s: "terminated s" "3 * length s + 2 \<le> Suc n" and ret: "json_wf (JObject ret)"
  let ?Q = "on_ok (\<lambda>v t. consumes s t \<and> val_good out v)"
  show "ensures (parse_members sd out (Suc n) ret s) ?Q"
    unfolding parse_members.simps
  proof (rule ensures_bindP [OF parse_string_ensures [OF s(1)]], rule skip_rd_ensures)
    fix key t c u assume k: "consumes s t \<and> str_good out key" and u: "moved t (c # u)" "terminated (c # u)"
    then have cu: "consumes s u" if "c \<noteq> 0" using that consumes_skip by blast
    show "ensures (if c \<noteq> 0x3A then Ret Fail else bindO (skip_space (tl (c # u))) (\<lambda>s.
       bindP (parse_value sd out n s) (\<lambda>value s.
       bindO (skip_space s) (\<lambda>s. bindO (rd s 0) (\<lambda>c.
         if c = 0x7D then Ret (Ok (out_value out (JObject (append_out ret (member_out key value)))) (tl s))
         else if c \<noteq> 0x2C then Ret Fail
         else bindO (skip_space (tl s)) (\<lambda>s.
           parse_members sd out n (append_out ret (member_out key value)) s)))))) ?Q"
    proof (intro ensures_if)
      assume "\<not> c \<noteq> 0x3A"
      with cu have cu: "consumes s u" by simp
      show "ensures (bindO (skip_space (tl (c # u))) (\<lambda>s.
       bindP (parse_value sd out n s) (\<lambda>value s.
       bindO (skip_space s) (\<lambda>s. bindO (rd s 0) (\<lambda>c.
         if c = 0x7D then Ret (Ok (out_value out (JObject (append_out ret (member_out key value)))) (tl s))
         else if c \<noteq> 0x2C then Ret Fail
         else bindO (skip_space (tl s)) (\<lambda>s.
           parse_members sd out n (append_out ret (member_out key value)) s)))))) ?Q"
      proof (simp, rule ensures_bindO [OF skip_space_ensures])
        fix w assume w: "moved u w \<and> terminated w"
        with cu have cw: "consumes s w" by (auto simp: consumes_def intro: advance_trans)
        with consumes_length [OF cw] s assms(2)
        have "ensures (parse_value sd out n w) (on_ok (\<lambda>v t. consumes w t \<and> val_good out v))"
          by (simp add: value_spec_def consumes_def)
        then show "ensures (bindP (parse_value sd out n w) (\<lambda>value s.
          bindO (skip_space s) (\<lambda>s. bindO (rd s 0) (\<lambda>c.
            if c = 0x7D then Ret (Ok (out_value out (JObject (append_out ret (member_out key value)))) (tl s))
            else if c \<noteq> 0x2C then Ret Fail
            else bindO (skip_space (tl s)) (\<lambda>s.
              parse_members sd out n (append_out ret (member_out key value)) s))))) ?Q"
          using consumes_length [OF cw] s cw ret k
          by (intro members_tail [OF assms(1)]) auto
      qed (use cu in \<open>simp add: consumes_def\<close>)
    qed simp
  qed (simp add: consumes_def)
qed

theorem parse_specs:
  "value_spec sd out n \<and> array_spec sd out n \<and> items_spec sd out n"
proof (induction n)
  case 0
  show ?case by (auto simp: value_spec_def array_spec_def items_spec_def)
qed (auto intro: value_step array_step items_step)

lemma parse_value_ensures [ensures_rules]:
  "terminated s \<Longrightarrow> ensures (parse_value sd out (parse_fuel s) s) (on_ok (\<lambda>v t. consumes s t \<and> val_good out v))"
  using parse_specs [of sd out "parse_fuel s"] by (simp add: value_spec_def parse_fuel_def)

lemma json_decode_ensures:
  assumes "terminated s"
  shows "ensures (json_decode sd s) (\<lambda>r. \<forall>v. r = Some v \<longrightarrow> json_wf v)"
  unfolding json_decode_def
proof (rule ensures_bindO [OF skip_space_ensures [OF assms]], rule ensures_bindO [OF parse_value_ensures])
  fix t r assume "on_ok (\<lambda>v u. consumes t u \<and> val_good True v) r"
  then show "ensures (case r of Fail \<Rightarrow> Ret None | Ok ret s \<Rightarrow> bindO (skip_space s) (\<lambda>s. bindO (rd s 0) (\<lambda>c.
      if c \<noteq> 0 then Ret None else Ret ret))) (\<lambda>r. \<forall>v. r = Some v \<longrightarrow> json_wf v)"
    by (cases r) (auto simp: consumes_def val_good_def intro!: skip_rd_ensures)
qed simp

section \<open>Validating and decoding\<close>

text \<open>Two parses that fail alike and accept the same bytes, whatever values they build.\<close>

definition agree :: "'a parsed outcome \<Rightarrow> 'b parsed outcome \<Rightarrow> bool" where
  "agree m m' \<longleftrightarrow> (\<exists>e. m = Fault e \<and> m' = Fault e) \<or> (m = Ret Fail \<and> m' = Ret Fail) \<or>
     (\<exists>v v' s. m = Ret (Ok v s) \<and> m' = Ret (Ok v' s))"

named_theorems agree_intros \<open>how agreement of parses is composed\<close>

lemma agree_simps [simp]:
  "agree (Ret Fail) (Ret Fail)" "agree (Fault e) (Fault e)"
  "agree (Ret (Ok v s)) (Ret (Ok v' s')) \<longleftrightarrow> s = s'"
  by (auto simp: agree_def)

lemma agree_bindO [agree_intros]:
  "(\<And>x. m = Ret x \<Longrightarrow> agree (f x) (f' x)) \<Longrightarrow> agree (bindO m f) (bindO m f')"
  by (cases m) auto

lemma agree_bindP:
  "agree m m' \<Longrightarrow> (\<And>v v' s. m = Ret (Ok v s) \<Longrightarrow> m' = Ret (Ok v' s) \<Longrightarrow> agree (f v s) (f' v' s)) \<Longrightarrow>
     agree (bindP m f) (bindP m' f')"
  unfolding agree_def [of m m'] by auto

lemma parsed_outcome_cases:
  obtains e where "m = Fault e" | "m = Ret Fail" | v s where "m = Ret (Ok v s)"
  by (cases m) (use parsed.exhaust in blast)+

lemma agree_same [agree_intros]:
  "(\<And>v s. m = Ret (Ok v s) \<Longrightarrow> agree (f v s) (f' v s)) \<Longrightarrow> agree (bindP m f) (bindP m f')"
  by (cases m rule: parsed_outcome_cases) auto

lemma agree_if [agree_intros]:
  "(b \<Longrightarrow> agree m m') \<Longrightarrow> (\<not> b \<Longrightarrow> agree k k') \<Longrightarrow> agree (if b then m else k) (if b then m' else k')"
  by simp

lemma agree_string_loop:
  "sb_ready True sb \<Longrightarrow>
     agree (parse_string_loop True sb s) (parse_string_loop False throwaway_buffer s) \<and>
     (\<forall>sb' t. parse_string_loop True sb s = Ret (Ok sb' t) \<longrightarrow> sb_ready True sb')"
proof (induction "length s" arbitrary: s sb rule: less_induct)
  case less
  have ready: "sb_ready False throwaway_buffer" by (simp add: sb_ready_def)
  consider e where "parse_string_char s = Fault e" | "parse_string_char s = Ret Fail"
    | bytes t where "parse_string_char s = Ret (Ok bytes t)"
    by (cases "parse_string_char s" rule: parsed_outcome_cases)
  then show ?case
  proof cases
    case 3
    with parse_string_char_ok [OF 3] have t: "length t < length s" "string_char bytes"
      by (auto dest: advanced_length)
    from store_char_ensures [OF less.prems t(2)] obtain sb1 where sb1: "sb_ready True sb1"
      "bindO (sb_store sb bytes) (\<lambda>sb. if True then sb_need sb 4 else Ret throwaway_buffer) = Ret sb1"
      by (auto simp: ensures_iff)
    from store_char_ensures [OF ready t(2)]
    have "bindO (sb_store throwaway_buffer bytes) (\<lambda>sb. if False then sb_need sb 4 else Ret throwaway_buffer)
        = Ret throwaway_buffer"
      by (auto simp: ensures_iff sb_ready_def)
    with 3 sb1 less.hyps [OF t(1) sb1(1)] less.prems show ?thesis
      unfolding parse_string_loop_unfold [of _ _ s] by (cases "rd s 0") simp_all
  qed (use less.prems in \<open>cases "rd s 0"; simp add: parse_string_loop_unfold [of _ _ s]\<close>)+
qed

lemma agree_string: "agree (parse_string True s) (parse_string False s)"
proof -
  from sb_ready_start [of True] obtain sb where sb: "sb_need sb_init 4 = Ret sb" "sb_ready True sb"
    by (auto simp: ensures_iff)
  have fin: "\<exists>buf. sb_finish sb' = Ret buf" if "sb_ready True sb'" for sb'
    using that by (auto simp: sb_ready_def sb_finish_Ret)
  note loop = agree_string_loop [OF sb(2), of "tl s"]
  have "agree (bindP (parse_string_loop True sb (tl s)) (\<lambda>sb s. bindO (sb_finish sb) (\<lambda>buf. Ret (Ok (Some (c_str buf)) (tl s)))))
    (bindP (parse_string_loop False throwaway_buffer (tl s)) (\<lambda>sb s. Ret (Ok None (tl s))))"
    using loop fin by (intro agree_bindP [OF conjunct1 [OF loop]]) fastforce
  with sb(1) show ?thesis
    unfolding parse_string_def by (intro agree_bindO agree_if) simp_all
qed

lemma agree_number: "agree (parse_number sd True s) (parse_number sd False s)"
  unfolding parse_number_def by (intro agree_intros) simp

lemma agree_parse:
  "(\<forall>s. agree (parse_value sd True n s) (parse_value sd False n s)) \<and>
   (\<forall>s. agree (parse_array sd True n s) (parse_array sd False n s)) \<and>
   (\<forall>s. agree (parse_object sd True n s) (parse_object sd False n s)) \<and>
   (\<forall>s ret ret'. agree (parse_elements sd True n ret s) (parse_elements sd False n ret' s)) \<and>
   (\<forall>s ret ret'. agree (parse_members sd True n ret s) (parse_members sd False n ret' s))"
proof (induction n)
  case (Suc n)
  then have IH: "\<And>s. agree (parse_value sd True n s) (parse_value sd False n s)"
    "\<And>s. agree (parse_array sd True n s) (parse_array sd False n s)"
    "\<And>s. agree (parse_object sd True n s) (parse_object sd False n s)"
    "\<And>s ret ret'. agree (parse_elements sd True n ret s) (parse_elements sd False n ret' s)"
    "\<And>s ret ret'. agree (parse_members sd True n ret s) (parse_members sd False n ret' s)"
    by blast+
  have "agree (parse_value sd True (Suc n) s) (parse_value sd False (Suc n) s)" for s
    unfolding parse_value.simps
    by (intro agree_intros IH agree_bindP [OF agree_string] agree_bindP [OF agree_number]; simp)
  moreover have "agree (parse_array sd True (Suc n) s) (parse_array sd False (Suc n) s)"
    "agree (parse_object sd True (Suc n) s) (parse_object sd False (Suc n) s)" for s
    unfolding parse_array.simps parse_object.simps by (intro agree_intros IH; simp)+
  moreover have "agree (parse_elements sd True (Suc n) ret s) (parse_elements sd False (Suc n) ret' s)" for s ret ret'
    unfolding parse_elements.simps by (intro agree_bindP [OF IH(1)] agree_bindO agree_if IH; simp)
  moreover have "agree (parse_members sd True (Suc n) ret s) (parse_members sd False (Suc n) ret' s)" for s ret ret'
    unfolding parse_members.simps
    by (intro agree_bindP [OF agree_string] agree_bindP [OF IH(1)] agree_bindO agree_if IH; simp)
  ultimately show ?case by blast
qed simp

lemma decode_validate:
  assumes "terminated s"
  shows "json_validate sd s = bindO (json_decode sd s) (\<lambda>r. Ret (r \<noteq> None))"
proof -
  have "bindO (parse_value sd False (parse_fuel t) t) (\<lambda>r. case r of
       Fail \<Rightarrow> Ret False
     | Ok _ s \<Rightarrow> bindO (skip_space s) (\<lambda>s. bindO (rd s 0) (\<lambda>c. Ret (c = 0))))
    = bindO (bindO (parse_value sd True (parse_fuel t) t) (\<lambda>r. case r of
       Fail \<Rightarrow> Ret None
     | Ok ret s \<Rightarrow> bindO (skip_space s) (\<lambda>s. bindO (rd s 0) (\<lambda>c.
         if c \<noteq> 0 then Ret None else Ret ret)))) (\<lambda>r. Ret (r \<noteq> None))" if "terminated t" for t
  proof -
    from agree_parse [of sd "parse_fuel t"]
    have "agree (parse_value sd True (parse_fuel t) t) (parse_value sd False (parse_fuel t) t)" by blast
    moreover from parse_value_ensures [OF that, of sd True]
    have "parse_value sd True (parse_fuel t) t = Ret (Ok v u) \<Longrightarrow> v \<noteq> None" for v u by (auto simp: val_good_def)
    ultimately show ?thesis
      by (auto simp: agree_def bindO_assoc intro!: arg_cong [of _ _ "bindO _"] ext)
  qed
  with skip_space_ensures [OF assms] show ?thesis
    by (auto simp: json_validate_def json_decode_def bindO_assoc ensures_iff)
qed

section \<open>Properties\<close>

text \<open>
  C10. Decoding never goes wrong: on every NUL-terminated buffer, whatever bytes it holds,
  \<open>json_decode\<close> returns, reads nothing past the terminator, stores nothing outside its buffers
  and fails no assertion; and a value it returns holds valid UTF-8 strings only.
\<close>

theorem json_decode_safe:
  assumes "terminated json"
  shows "\<exists>r. json_decode sd json = Ret r \<and> (\<forall>v. r = Some v \<longrightarrow> json_wf v)"
  using json_decode_ensures [OF assms, of sd] by (auto simp: ensures_iff)

theorem json_decode_safe_witness:
  "\<exists>r. json_decode (\<lambda>s. length s) [0x5B, 0x22, 0x5C, 0] = Ret r \<and> (\<forall>v. r = Some v \<longrightarrow> json_wf v)"
  by (rule json_decode_safe) simp

text \<open>
  C33. Validating is decoding without building: \<open>json_validate\<close> says yes exactly when
  \<open>json_decode\<close> returns a value.
\<close>

theorem json_validate_iff_decode:
  assumes "terminated json"
  shows "json_validate sd json = bindO (json_decode sd json) (\<lambda>r. Ret (r \<noteq> None))"
  by (rule decode_validate [OF assms])

theorem json_validate_iff_decode_witness:
  "json_validate (\<lambda>s. length s) [0x7B, 0x7D, 0] = bindO (json_decode (\<lambda>s. length s) [0x7B, 0x7D, 0]) (\<lambda>r. Ret (r \<noteq> None))"
  by (rule json_validate_iff_decode) simp

end
