(* ===== verification/JsonGrammar.thy ===== *)
theory JsonGrammar
  imports JsonParseFacts
begin

text \<open>
  The language src/json.c accepts, as a grammar that does not mention the parser: JSON texts
  (RFC 8259) whose strings hold no U+0000. \<open>value_text sd v b\<close> reads: the bytes \<open>b\<close> are a text
  of the value \<open>v\<close>. The parser accepts exactly these texts, with these values.
\<close>

section \<open>Tokens\<close>

definition ws :: "byte list \<Rightarrow> bool" where
  "ws w \<longleftrightarrow> list_all is_space w"

definition digits :: "byte list \<Rightarrow> bool" where
  "digits b \<longleftrightarrow> b \<noteq> [] \<and> list_all is_digit b"

definition frac_text :: "byte list \<Rightarrow> bool" where
  "frac_text f \<longleftrightarrow> f = [] \<or> (\<exists>b. f = 0x2E # b \<and> digits b)"

definition exp_text :: "byte list \<Rightarrow> bool" where
  "exp_text e \<longleftrightarrow> e = [] \<or>
     (\<exists>x sg b. e = x # sg @ b \<and> x \<in> {0x45, 0x65} \<and> sg \<in> {[], [0x2B], [0x2D]} \<and> digits b)"

definition int_text :: "byte list \<Rightarrow> bool" where
  "int_text i \<longleftrightarrow> i = [0x30] \<or> (digits i \<and> hd i \<noteq> 0x30)"

definition number_text :: "byte list \<Rightarrow> bool" where
  "number_text b \<longleftrightarrow> (\<exists>sg i f e. b = sg @ i @ f @ e \<and> sg \<in> {[], [0x2D]} \<and> int_text i \<and> frac_text f \<and> exp_text e)"

text \<open>The texts of a character: itself, a short escape, or its UTF-16 code units in hex.\<close>

definition hex4 :: "u16 \<Rightarrow> byte list \<Rightarrow> bool" where
  "hex4 v b \<longleftrightarrow> (\<exists>a c d e xa xc xd xe. b = [a, c, d, e] \<and>
     hex_digit a = Some xa \<and> hex_digit c = Some xc \<and> hex_digit d = Some xd \<and> hex_digit e = Some xe \<and>
     unat v = ((unat xa * 16 + unat xc) * 16 + unat xd) * 16 + unat xe)"

definition short_escape :: "byte \<Rightarrow> u32 option" where
  "short_escape e = map_of [(0x22, 0x22), (0x5C, 0x5C), (0x2F, 0x2F), (0x62, 0x08), (0x66, 0x0C),
     (0x6E, 0x0A), (0x72, 0x0D), (0x74, 0x09)] e"

inductive char_text :: "u32 \<Rightarrow> byte list \<Rightarrow> bool" where
  direct: "is_scalar u \<Longrightarrow> 0x20 \<le> u \<Longrightarrow> u \<noteq> 0x22 \<Longrightarrow> u \<noteq> 0x5C \<Longrightarrow> char_text u (utf8_bytes u)"
| short: "short_escape e = Some u \<Longrightarrow> char_text u [0x5C, e]"
| unit: "hex4 v h \<Longrightarrow> v \<noteq> 0 \<Longrightarrow> \<not> (0xD800 \<le> v \<and> v \<le> 0xDFFF) \<Longrightarrow> char_text (ucast v) (0x5C # 0x75 # h)"
| pair: "hex4 uc h \<Longrightarrow> hex4 lc h' \<Longrightarrow> from_surrogate_pair uc lc = Some u \<Longrightarrow>
    char_text u (0x5C # 0x75 # h @ 0x5C # 0x75 # h')"

definition string_text :: "byte list \<Rightarrow> byte list \<Rightarrow> bool" where
  "string_text str b \<longleftrightarrow> (\<exists>us bs. list_all2 char_text us bs \<and> str = concat (map utf8_bytes us) \<and>
     b = 0x22 # concat bs @ [0x22])"

section \<open>Values\<close>

text \<open>The number a text stands for is what \<open>strtod\<close> makes of it as a string of its own.\<close>

inductive value_text :: "(cursor \<Rightarrow> 'd) \<Rightarrow> 'd json \<Rightarrow> byte list \<Rightarrow> bool"
  and elements_text :: "(cursor \<Rightarrow> 'd) \<Rightarrow> 'd json list \<Rightarrow> byte list \<Rightarrow> bool"
  and members_text :: "(cursor \<Rightarrow> 'd) \<Rightarrow> (byte list \<times> 'd json) list \<Rightarrow> byte list \<Rightarrow> bool"
  for sd :: "cursor \<Rightarrow> 'd" where
  t_null: "value_text sd JNull (ascii ''null'')"
| t_false: "value_text sd (JBool False) (ascii ''false'')"
| t_true: "value_text sd (JBool True) (ascii ''true'')"
| t_string: "string_text str b \<Longrightarrow> value_text sd (JString str) b"
| t_number: "number_text b \<Longrightarrow> value_text sd (JNumber (sd (b @ [0]))) b"
| t_empty_array: "ws w \<Longrightarrow> value_text sd (JArray []) (0x5B # w @ [0x5D])"
| t_array: "ws w \<Longrightarrow> elements_text sd es b \<Longrightarrow> value_text sd (JArray es) (0x5B # w @ b)"
| t_empty_object: "ws w \<Longrightarrow> value_text sd (JObject []) (0x7B # w @ [0x7D])"
| t_object: "ws w \<Longrightarrow> members_text sd ms b \<Longrightarrow> value_text sd (JObject ms) (0x7B # w @ b)"
| t_last: "value_text sd e b \<Longrightarrow> ws w \<Longrightarrow> elements_text sd [e] (b @ w @ [0x5D])"
| t_more: "value_text sd e b \<Longrightarrow> ws w \<Longrightarrow> ws w' \<Longrightarrow> elements_text sd es b' \<Longrightarrow>
    elements_text sd (e # es) (b @ w @ 0x2C # w' @ b')"
| t_last_member: "string_text k kb \<Longrightarrow> ws w \<Longrightarrow> ws w' \<Longrightarrow> value_text sd v b \<Longrightarrow> ws w'' \<Longrightarrow>
    members_text sd [(k, v)] (kb @ w @ 0x3A # w' @ b @ w'' @ [0x7D])"
| t_more_members: "string_text k kb \<Longrightarrow> ws w \<Longrightarrow> ws w' \<Longrightarrow> value_text sd v b \<Longrightarrow> ws w'' \<Longrightarrow> ws w3 \<Longrightarrow>
    members_text sd ms b' \<Longrightarrow>
    members_text sd ((k, v) # ms) (kb @ w @ 0x3A # w' @ b @ w'' @ 0x2C # w3 @ b')"

text \<open>
  What is relied on of \<open>strtod\<close>: it reads a JSON number up to a byte that cannot continue it
  (the C standard, 7.22.1.3, in the \<open>"C"\<close> locale), so the bytes that follow do not matter.
\<close>

definition delimiter :: "byte \<Rightarrow> bool" where
  "delimiter c \<longleftrightarrow> is_space c \<or> c = 0 \<or> c = 0x2C \<or> c = 0x5D \<or> c = 0x7D"

definition strtod_local :: "(cursor \<Rightarrow> 'd) \<Rightarrow> bool" where
  "strtod_local sd \<longleftrightarrow> (\<forall>b c t. number_text b \<longrightarrow> delimiter c \<longrightarrow> sd (b @ c # t) = sd (b @ [0]))"

section \<open>The scanner and the tokens\<close>

lemma skip_space_ws: "ws w \<Longrightarrow> \<not> is_space c \<Longrightarrow> skip_space (w @ c # t) = Ret (c # t)"
  by (induction w) (auto simp: ws_def)

lemma skip_space_split:
  "skip_space s = Ret t \<Longrightarrow> \<exists>w. s = w @ t \<and> ws w \<and> (\<exists>c u. t = c # u \<and> \<not> is_space c)"
proof (induction s rule: skip_space.induct)
  case (2 c s)
  then show ?case
    by (cases "is_space c") (fastforce simp: ws_def intro: exI [of _ "c # _"])+
qed simp

lemma skip_digits_digits: "list_all is_digit b \<Longrightarrow> \<not> is_digit c \<Longrightarrow> skip_digits (b @ c # t) = Ret (c # t)"
  by (induction b) auto

lemma skip_digits_split:
  "skip_digits s = Ret t \<Longrightarrow> \<exists>b. s = b @ t \<and> list_all is_digit b \<and> (\<exists>c u. t = c # u \<and> \<not> is_digit c)"
proof (induction s rule: skip_digits.induct)
  case (2 c s)
  then show ?case
    by (cases "is_digit c") (fastforce intro: exI [of _ "c # _"])+
qed simp

lemma digits1_digits: "digits b \<Longrightarrow> \<not> is_digit c \<Longrightarrow> digits1 (b @ c # t) = Ret (Ok () (c # t))"
  by (cases b) (simp_all add: digits_def digits1_def skip_digits_digits)

lemma digits1_split:
  "digits1 s = Ret (Ok u t) \<Longrightarrow> \<exists>b. s = b @ t \<and> digits b \<and> (\<exists>c u. t = c # u \<and> \<not> is_digit c)"
  by (cases s) (fastforce simp: digits1_def digits_def bindO_Ret_iff split: if_splits
    dest: skip_digits_split intro: exI [of _ "hd s # _"])+

lemma expect_literal_text: "expect_literal (str @ t) str = Ret (Ok () t)"
  by (induction str) auto

lemma expect_literal_split: "expect_literal s str = Ret (Ok u t) \<Longrightarrow> s = str @ t"
  by (induction s str rule: expect_literal.induct)
    (auto simp: bindO_Ret_iff rd_0_Ret_iff split: if_splits)

text \<open>A byte after which the scanner of numbers stops.\<close>

definition num_stop :: "byte \<Rightarrow> bool" where
  "num_stop c \<longleftrightarrow> \<not> is_digit c \<and> c \<noteq> 0x2E \<and> c \<noteq> 0x45 \<and> c \<noteq> 0x65"

lemma delimiter_num_stop: "delimiter c \<Longrightarrow> num_stop c"
  by (auto simp: delimiter_def num_stop_def is_space_def is_digit_def)

lemma int_text_Cons: "int_text i \<Longrightarrow> \<exists>c r. i = c # r \<and> is_digit c"
  by (cases i) (auto simp: int_text_def digits_def is_digit_def)

lemma scan_sign_text: "sg \<in> {[], [0x2D]} \<Longrightarrow> int_text i \<Longrightarrow> scan_sign (sg @ i @ t) = Ret (i @ t)"
  using int_text_Cons [of i] by (auto simp: scan_sign_def is_digit_def)

lemma scan_int_text: "int_text i \<Longrightarrow> \<not> is_digit c \<Longrightarrow> scan_int (i @ c # t) = Ret (Ok () (c # t))"
  using digits1_digits [of i c t] by (cases i) (auto simp: int_text_def scan_int_def digits_def)

lemma scan_frac_text: "frac_text f \<Longrightarrow> \<not> is_digit c \<Longrightarrow> c \<noteq> 0x2E \<Longrightarrow> scan_frac (f @ c # t) = Ret (Ok () (c # t))"
  by (auto simp: frac_text_def scan_frac_def digits1_digits)

lemma digits_Cons: "digits b \<Longrightarrow> \<exists>c r. b = c # r \<and> is_digit c"
  by (cases b) (auto simp: digits_def)

lemma scan_exp_text: "exp_text e \<Longrightarrow> num_stop c \<Longrightarrow> scan_exp (e @ c # t) = Ret (Ok () (c # t))"
proof -
  assume e: "exp_text e" and c: "num_stop c"
  show ?thesis
  proof (cases "e = []")
    case True
    with c show ?thesis by (auto simp: scan_exp_def num_stop_def)
  next
    case False
    with e obtain x sg b where b: "e = x # sg @ b" "x = 0x45 \<or> x = 0x65" "sg = [] \<or> sg = [0x2B] \<or> sg = [0x2D]" "digits b"
      by (auto simp: exp_text_def)
    from digits_Cons [OF b(4)] obtain d r where d: "b = d # r" "is_digit d" by blast
    then have "d \<noteq> 0x2B" "d \<noteq> 0x2D" by (auto simp: is_digit_def)
    note d = d(1) this
    from c have "digits1 (b @ c # t) = Ret (Ok () (c # t))"
      by (intro digits1_digits b) (simp add: num_stop_def)
    with b(1,2,3) d show ?thesis by (auto simp: scan_exp_def)
  qed
qed

lemma frac_exp_head:
  assumes "frac_text f" "exp_text e" "num_stop c"
  shows "\<exists>d u. f @ e @ c # t = d # u \<and> \<not> is_digit d" "\<exists>d u. e @ c # t = d # u \<and> \<not> is_digit d \<and> d \<noteq> 0x2E"
  using assms by (auto simp: frac_text_def exp_text_def num_stop_def is_digit_def)

lemma scan_number_text:
  assumes "number_text b" "num_stop c"
  shows "scan_number (b @ c # t) = Ret (Ok () (c # t))"
proof -
  from assms(1) obtain sg i f e where b: "b = sg @ i @ f @ e" "sg \<in> {[], [0x2D]}" "int_text i" "frac_text f" "exp_text e"
    by (auto simp: number_text_def)
  from frac_exp_head [OF b(4,5) assms(2), of t] obtain d u d' u'
    where h: "f @ e @ c # t = d # u" "\<not> is_digit d" "e @ c # t = d' # u'" "\<not> is_digit d'" "d' \<noteq> 0x2E" by auto
  from scan_sign_text [OF b(2,3)] have "scan_sign (b @ c # t) = Ret (i @ f @ e @ c # t)" by (simp add: b)
  moreover from scan_int_text [OF b(3) h(2), of u] have "scan_int (i @ f @ e @ c # t) = Ret (Ok () (f @ e @ c # t))"
    by (simp only: h(1))
  moreover from scan_frac_text [OF b(4) h(4,5), of u'] have "scan_frac (f @ e @ c # t) = Ret (Ok () (e @ c # t))"
    by (simp only: h(3))
  ultimately show ?thesis using scan_exp_text [OF b(5) assms(2)] by (simp add: scan_number_def)
qed

lemma scan_int_split:
  assumes "scan_int s = Ret (Ok u t)"
  shows "\<exists>i. s = i @ t \<and> int_text i"
proof -
  from assms obtain c s' where s: "s = c # s'" by (auto simp: scan_int_def bindO_Ret_iff rd_0_Ret_iff)
  show ?thesis
  proof (cases "c = 0x30")
    case True
    with assms s show ?thesis by (auto simp: scan_int_def int_text_def)
  next
    case False
    with assms s digits1_split [of s u t] obtain b where "s = b @ t" "digits b" by (auto simp: scan_int_def)
    with False s show ?thesis by (cases b) (auto simp: int_text_def digits_def)
  qed
qed

lemma scan_frac_split: "scan_frac s = Ret (Ok u t) \<Longrightarrow> \<exists>f. s = f @ t \<and> frac_text f"
  by (cases s) (auto simp: scan_frac_def frac_text_def split: if_splits dest!: digits1_split)

lemma scan_exp_split:
  assumes "scan_exp s = Ret (Ok u t)"
  shows "\<exists>e. s = e @ t \<and> exp_text e"
proof -
  from assms obtain c s' where s: "s = c # s'" by (auto simp: scan_exp_def bindO_Ret_iff rd_0_Ret_iff)
  show ?thesis
  proof (cases "c = 0x45 \<or> c = 0x65")
    case True
    with assms s obtain d r where r: "s' = d # r" by (auto simp: scan_exp_def bindO_Ret_iff rd_0_Ret_iff)
    define sg where "sg = (if d = 0x2B \<or> d = 0x2D then [d] else [])"
    define n where "n = (if d = 0x2B \<or> d = 0x2D then r else s')"
    have "s = c # sg @ n" by (simp add: sg_def n_def s r)
    moreover from True assms s r have "digits1 n = Ret (Ok u t)" by (auto simp: scan_exp_def n_def)
    then obtain b where "n = b @ t" "digits b" by (auto dest: digits1_split)
    moreover have "sg \<in> {[], [0x2B], [0x2D]}" by (simp add: sg_def)
    ultimately have "s = (c # sg @ b) @ t" "exp_text (c # sg @ b)" using True unfolding exp_text_def by auto
    then show ?thesis by blast
  qed (use assms s in \<open>simp add: scan_exp_def exp_text_def\<close>)
qed

lemma scan_number_split:
  assumes "scan_number s = Ret (Ok u t)"
  shows "\<exists>b. s = b @ t \<and> number_text b"
proof -
  from assms obtain s1 s2 s3 where a: "scan_sign s = Ret s1" "scan_int s1 = Ret (Ok () s2)"
    "scan_frac s2 = Ret (Ok () s3)" "scan_exp s3 = Ret (Ok () t)"
    by (auto simp: scan_number_def bindO_Ret_iff bindP_Ok_iff)
  from a(1) obtain sg where "s = sg @ s1" "sg \<in> {[], [0x2D]}"
    by (cases s) (auto simp: scan_sign_def split: if_splits)
  moreover from a(2-4) obtain i f e where "s1 = i @ s2" "s2 = f @ s3" "s3 = e @ t"
    "int_text i" "frac_text f" "exp_text e"
    by (meson scan_int_split scan_frac_split scan_exp_split)
  ultimately show ?thesis unfolding number_text_def by (intro exI [of _ "sg @ i @ f @ e"]) auto
qed

section \<open>Strings\<close>

lemma hex_digit_bound: "hex_digit c = Some x \<Longrightarrow> unat x < 16 \<and> c \<noteq> 0"
proof -
  assume h: "hex_digit c = Some x"
  have u: "unat (ucast b :: u16) = unat b" for b :: byte
    using unat_byte_less [of b] by (simp add: unsigned_ucast_eq take_bit_nat_eq_self)
  from h consider "unat c \<ge> 48" "unat c \<le> 57" "x = ucast (c - 0x30)"
    | "unat c \<ge> 65" "unat c \<le> 70" "x = ucast (c - 0x41 + 10)"
    | "unat c \<ge> 97" "unat c \<le> 102" "x = ucast (c - 0x61 + 10)"
    by (auto simp: hex_digit_def byte_nat split: if_splits)
  then show ?thesis
    by cases (simp_all only: u unat_word_ariths, auto simp: unat_sub byte_nat unat_word_ariths)
qed

lemma hex_step:
  assumes "hex_digit c = Some x" "unat r < 4096"
  shows "unat (push_bit 4 r + x :: u16) = unat r * 16 + unat x"
  using assms hex_digit_bound [OF assms(1)]
  by (simp add: unat_word_ariths unat_bits)

lemma parse_hex16_hex4: "hex4 v h \<Longrightarrow> parse_hex16 (h @ t) = Ret (Ok v t)"
proof -
  assume "hex4 v h"
  then obtain a c d e xa xc xd xe where h: "h = [a, c, d, e]"
     "hex_digit a = Some xa" "hex_digit c = Some xc" "hex_digit d = Some xd" "hex_digit e = Some xe"
     "unat v = ((unat xa * 16 + unat xc) * 16 + unat xd) * 16 + unat xe" by (auto simp: hex4_def)
  note b = h(2-5) [THEN hex_digit_bound]
  define r1 where "r1 = push_bit 4 0 + xa"
  define r2 where "r2 = push_bit 4 r1 + xc"
  define r3 where "r3 = push_bit 4 r2 + xd"
  have 1: "unat r1 = unat xa" by (simp add: r1_def)
  then have 2: "unat r2 = unat xa * 16 + unat xc" using b hex_step [OF h(3), of r1] by (simp add: r2_def)
  then have 3: "unat r3 = (unat xa * 16 + unat xc) * 16 + unat xd" using b hex_step [OF h(4), of r2] by (simp add: r3_def)
  have "push_bit 4 r3 + xe = v"
    using 3 b h(6) hex_step [OF h(5), of r3] by (simp add: word_unat_eq_iff)
  then show ?thesis
    by (simp add: h parse_hex16_def numeral_eq_Suc r1_def r2_def r3_def)
qed

lemma parse_hex16_split:
  assumes "parse_hex16 s = Ret (Ok v t)"
  shows "\<exists>h. s = h @ t \<and> hex4 v h"
proof -
  from assms obtain a c d e xa xc xd xe where s: "s = a # c # d # e # t"
    "hex_digit a = Some xa" "hex_digit c = Some xc" "hex_digit d = Some xd" "hex_digit e = Some xe"
    by (auto simp: parse_hex16_def numeral_eq_Suc bindO_Ret_iff rd_0_Ret_iff split: option.splits)
  define r where "r = ((unat xa * 16 + unat xc) * 16 + unat xd) * 16 + unat xe"
  have "r < 65536" using s(2-5) [THEN hex_digit_bound] by (simp add: r_def)
  then have "unat (of_nat r :: u16) = r" by (simp add: unat_of_nat)
  then have "hex4 (of_nat r) [a, c, d, e]"
    using s unfolding hex4_def by (auto simp: r_def)
  moreover from parse_hex16_hex4 [OF this, of t] assms s have "of_nat r = v" by simp
  ultimately show ?thesis using s by (auto intro!: exI [of _ "[a, c, d, e]"])
qed

lemma short_escapes:
  assumes "short_escape e = Some u"
  shows "is_scalar u \<and> u \<noteq> 0 \<and> parse_string_char (0x5C # e # t) = Ret (Ok (utf8_bytes u) t)"
proof -
  from map_of_SomeD [OF assms [unfolded short_escape_def]]
  have "(e = 0x22 \<and> u = 0x22) \<or> (e = 0x5C \<and> u = 0x5C) \<or> (e = 0x2F \<and> u = 0x2F) \<or> (e = 0x62 \<and> u = 0x08) \<or>
      (e = 0x66 \<and> u = 0x0C) \<or> (e = 0x6E \<and> u = 0x0A) \<or> (e = 0x72 \<and> u = 0x0D) \<or> (e = 0x74 \<and> u = 0x09)"
    by simp
  then show ?thesis
    by (elim disjE conjE)
      (simp_all add: parse_string_char_def is_scalar_def utf8_bytes_def utf8_write_char_def)
qed

lemma ascii_lead:
  assumes "is_scalar u" "utf8_bytes u = c # r" "c \<le> 0x7F"
  shows "u = ucast c"
proof -
  from assms(2,3) have "utf8_read_char (utf8_bytes u @ []) = Ret (ucast c, 1)"
    by (simp add: utf8_read_char_def validate_lead byte_nat)
  with write_then_read(4) [OF assms(1) write_char_bytes [OF assms(1)], of "[]"] show ?thesis by simp
qed

text \<open>One character: the grammar and the parser agree.\<close>

lemma parse_char_text:
  assumes "char_text u b"
  shows "parse_string_char (b @ t) = Ret (Ok (utf8_bytes u) t)" "is_scalar u" "u \<noteq> 0"
proof -
  have "parse_string_char (b @ t) = Ret (Ok (utf8_bytes u) t) \<and> is_scalar u \<and> u \<noteq> 0"
    using assms
  proof cases
    case direct
    then have "u \<noteq> 0" by auto
    note w = write_then_read [OF direct(2) write_char_bytes [OF direct(2)]]
    from w(1) obtain c r where c: "utf8_bytes u = c # r" by (cases "utf8_bytes u") auto
    have "\<not> c \<le> 0x1F \<and> c \<noteq> 0x5C"
    proof (cases "c \<le> 0x7F")
      case True
      with ascii_lead [OF direct(2) c] have "u = ucast c" by simp
      then have "unat u = unat c" by (simp add: unat_shifted)
      with direct show ?thesis by (auto simp: byte_nat)
    qed (auto simp: byte_nat)
    with w(1) w(3) [of t] c direct \<open>u \<noteq> 0\<close> show ?thesis by (simp add: parse_string_char_def)
  next
    case (short e)
    with short_escapes [OF short(2), of t] show ?thesis by simp
  next
    case (unit v h)
    note u = unicode_escape_scalar [OF unit(5,4)]
    from unit u show ?thesis
      by (auto simp: parse_string_char_def parse_unicode_escape_def parse_hex16_hex4 write_char_bytes)
  next
    case (pair uc h lc h')
    from from_surrogate_pair_scalar [OF pair(4)] have u: "is_scalar u" "u \<noteq> 0" by auto
    from pair(4) have "0xD800 \<le> uc \<and> uc \<le> 0xDFFF"
      by (auto simp: from_surrogate_pair_def byte_nat simp del: push_bit_and split: if_splits)
    with pair u show ?thesis
      by (simp add: parse_string_char_def parse_unicode_escape_def parse_hex16_hex4 write_char_bytes)
  qed
  then show "parse_string_char (b @ t) = Ret (Ok (utf8_bytes u) t)" "is_scalar u" "u \<noteq> 0" by auto
qed

lemma parse_unicode_escape_split:
  assumes "parse_unicode_escape s = Ret (Ok bytes t)"
  shows "\<exists>u b. s = b @ t \<and> char_text u (0x5C # 0x75 # b) \<and> bytes = utf8_bytes u"
proof -
  from assms obtain uc r where r: "parse_hex16 s = Ret (Ok uc r)"
    by (auto simp: parse_unicode_escape_def bindP_Ok_iff)
  from parse_hex16_split [OF r] obtain h where h: "s = h @ r" "hex4 uc h" by auto
  show ?thesis
  proof (cases "uc \<ge> 0xD800 \<and> uc \<le> 0xDFFF")
    case True
    with assms r obtain c d lc u where a: "rd r 0 = Ret c" "c = 0x5C" "rd r 1 = Ret d" "d = 0x75"
        "parse_hex16 (drop 2 r) = Ret (Ok lc t)" "from_surrogate_pair uc lc = Some u"
        "utf8_write_char u = Ret bytes"
      by (auto simp: parse_unicode_escape_def bindP_Ok_iff bindO_Ret_iff split: if_splits option.splits)
    from a(1-4) obtain r' where r': "r = 0x5C # 0x75 # r'" by (cases r; cases "tl r") auto
    with parse_hex16_split [OF a(5)] obtain h' where h': "r' = h' @ t" "hex4 lc h'" by auto
    have "is_scalar u" using from_surrogate_pair_scalar [OF a(6)] by simp
    with a(7) have "bytes = utf8_bytes u" by (simp add: write_char_bytes)
    with char_text.pair [OF h(2) h'(2) a(6)] h r' h' show ?thesis
      by (auto intro!: exI [of _ u] exI [of _ "h @ 0x5C # 0x75 # h'"])
  next
    case False
    with assms r have "uc \<noteq> 0" "r = t" "utf8_write_char (ucast uc) = Ret bytes"
      by (auto simp: parse_unicode_escape_def bindO_Ret_iff split: if_splits)
    with unicode_escape_scalar [OF False] char_text.unit [OF h(2) _ False] h show ?thesis
      by (auto simp: write_char_bytes)
  qed
qed

lemma parse_char_split:
  assumes "parse_string_char s = Ret (Ok bytes t)" "hd s \<noteq> 0x22"
  shows "\<exists>u b. s = b @ t \<and> char_text u b \<and> bytes = utf8_bytes u"
proof -
  from assms obtain c r where s: "s = c # r" by (auto simp: parse_string_char_def bindO_Ret_iff rd_0_Ret_iff)
  show ?thesis
  proof (cases "c = 0x5C")
    case True
    with assms s obtain e r' where r: "r = e # r'"
      by (auto simp: parse_string_char_def bindO_Ret_iff rd_0_Ret_iff split: if_splits)
    show ?thesis
    proof (cases "e = 0x75")
      case True
      with assms s r \<open>c = 0x5C\<close> have "parse_unicode_escape r' = Ret (Ok bytes t)" by (simp add: parse_string_char_def)
      from parse_unicode_escape_split [OF this] show ?thesis using True s r \<open>c = 0x5C\<close>
        by (metis append_Cons)
    next
      case False
      obtain u where u: "short_escape e = Some u"
        using assms s r True False by (auto simp: parse_string_char_def short_escape_def split: if_splits)
      from short_escapes [OF u, of r'] assms s r True have "bytes = utf8_bytes u" "r' = t" by auto
      with char_text.short [OF u] s r True show ?thesis by (auto intro!: exI [of _ u])
    qed
  next
    case False
    with assms s obtain n where n: "utf8_validate_cz s = Ret n" "n \<noteq> 0" "bytes = take n s" "t = drop n s"
      and c: "\<not> c \<le> 0x1F"
      by (auto simp: parse_string_char_def bindO_Ret_iff split: if_splits)
    from read_then_write [OF n(1,2)] obtain u where u: "is_scalar u" "utf8_read_char s = Ret (u, n)" "utf8_bytes u = take n s"
      by (auto simp: write_char_bytes)
    have "0x20 \<le> u \<and> u \<noteq> 0x22 \<and> u \<noteq> 0x5C"
    proof (cases "c \<le> 0x7F")
      case True
      with u(2) s have "u = ucast c" by (auto simp: utf8_read_char_def validate_lead byte_nat)
      with False c assms(2) s show ?thesis by (auto simp: byte_nat unat_shifted)
    next
      case False
      show ?thesis
      proof (cases "unat u < 128")
        case True
        then have "utf8_bytes u = [ucast u]" by (simp add: utf8_bytes_def utf8_write_char_def u byte_nat)
        with u(3) s n(2) have "c = ucast u" by (cases n) auto
        with True False show ?thesis by (simp add: byte_nat unsigned_ucast_eq take_bit_nat_eq_self)
      qed (auto simp: byte_nat)
    qed
    with char_text.direct [OF u(1)] u(3) n(3,4) show ?thesis
      by (metis append_take_drop_id)
  qed
qed

text \<open>Whole strings: the grammar and the parser agree.\<close>

lemma char_text_head: "char_text u b \<Longrightarrow> \<exists>c r. b = c # r \<and> c \<noteq> 0x22"
proof -
  assume b: "char_text u b"
  from parse_char_text(1) [OF b, of "[]"] obtain c r where "b = c # r"
    by (cases b) (auto simp: parse_string_char_def)
  moreover have "hd b \<noteq> 0x22"
    using b
  proof cases
    case direct
    with ascii_lead [OF direct(2), of c r] \<open>b = c # r\<close> show ?thesis by (auto simp: byte_nat unat_shifted)
  qed auto
  ultimately show ?thesis by auto
qed

lemma parse_string_loop_text:
  assumes "list_all2 char_text us bs" "sb_ready True sb"
  shows "\<exists>sb'. parse_string_loop True sb (concat bs @ 0x22 # t) = Ret (Ok sb' (0x22 # t)) \<and>
    sb_ready True sb' \<and> sb_bytes sb' = sb_bytes sb @ concat (map utf8_bytes us)"
  using assms
proof (induction us bs arbitrary: sb rule: list_all2_induct)
  case Nil
  then show ?case by (simp add: parse_string_loop.simps [of True sb "0x22 # t"])
next
  case (Cons u us b bs)
  let ?s = "b @ concat bs @ 0x22 # t"
  note p = parse_char_text [OF Cons.hyps(1)]
  from p utf8_bytes_string_char have "string_char (utf8_bytes u)" by simp
  from store_char_ensures [OF Cons.prems this] obtain sb1 where sb1: "sb_ready True sb1"
    "bindO (sb_store sb (utf8_bytes u)) (\<lambda>sb. if True then sb_need sb 4 else Ret throwaway_buffer) = Ret sb1"
    "sb_bytes sb1 = sb_bytes sb @ utf8_bytes u" by (auto simp: ensures_iff)
  from char_text_head [OF Cons.hyps(1)] obtain c r where "b = c # r" "c \<noteq> 0x22" by auto
  with p(1) [of "concat bs @ 0x22 # t"] sb1 Cons.IH [OF sb1(1)] show ?case
    by (simp add: parse_string_loop_unfold [of _ _ "c # r @ concat bs @ 0x22 # t"])
qed

lemma parse_string_text:
  assumes "string_text str b"
  shows "parse_string True (b @ t) = Ret (Ok (Some str) t)" "str_ok str"
proof -
  from assms obtain us bs where b: "list_all2 char_text us bs" "str = concat (map utf8_bytes us)"
    "b = 0x22 # concat bs @ [0x22]" by (auto simp: string_text_def)
  from sb_ready_start [of True] obtain sb where sb: "sb_need sb_init 4 = Ret sb" "sb_ready True sb" "sb_bytes sb = []"
    by (auto simp: ensures_iff)
  from parse_string_loop_text [OF b(1) sb(2), of t] sb(3) b(2) obtain sb' where
    sb': "parse_string_loop True sb (concat bs @ 0x22 # t) = Ret (Ok sb' (0x22 # t))" "sb_ready True sb'" "sb_bytes sb' = str"
    by auto
  then show "str_ok str" by (auto simp: sb_ready_def str_ok_iff)
  from sb' sb show "parse_string True (b @ t) = Ret (Ok (Some str) t)"
    by (auto simp: b(3) parse_string_def sb_ready_def sb_finish_Ret c_str_append)
qed

lemma parse_string_loop_split:
  "parse_string_loop True sb s = Ret (Ok sb' t) \<Longrightarrow> sb_ready True sb \<Longrightarrow> \<exists>us bs u. s = concat bs @ t \<and> t = 0x22 # u \<and>
     list_all2 char_text us bs \<and> sb_bytes sb' = sb_bytes sb @ concat (map utf8_bytes us)"
proof (induction "length s" arbitrary: s sb rule: less_induct)
  case less
  from less.prems obtain c r where s: "s = c # r"
    by (auto simp: parse_string_loop.simps [of True sb s] bindO_Ret_iff rd_0_Ret_iff)
  show ?case
  proof (cases "c = 0x22")
    case True
    with less.prems s have "s = concat [] @ t \<and> t = 0x22 # r \<and> list_all2 char_text [] [] \<and>
        sb_bytes sb' = sb_bytes sb @ concat (map utf8_bytes [])"
      by (simp add: parse_string_loop.simps [of True sb "0x22 # r"])
    then show ?thesis by blast
  next
    case False
    with less.prems s obtain bytes s' sb1 where p: "parse_string_char s = Ret (Ok bytes s')"
      "bindO (sb_store sb bytes) (\<lambda>sb. if True then sb_need sb 4 else Ret throwaway_buffer) = Ret sb1"
      "parse_string_loop True sb1 s' = Ret (Ok sb' t)"
      unfolding parse_string_loop_unfold [of _ _ s] by (auto simp: bindP_Ok_iff bindO_Ret_iff)
    from parse_string_char_ok [OF p(1)] have l: "length s' < length s" "string_char bytes" by (auto dest: advanced_length)
    from store_char_ensures [OF less.prems(2) l(2)] p(2) have sb1: "sb_ready True sb1" "sb_bytes sb1 = sb_bytes sb @ bytes"
      by auto
    from parse_char_split [OF p(1)] False s obtain u b where b: "s = b @ s'" "char_text u b" "bytes = utf8_bytes u" by auto
    from less.hyps [OF l(1) p(3) sb1(1)] obtain us bs w where
      "s' = concat bs @ t" "t = 0x22 # w" "list_all2 char_text us bs" "sb_bytes sb' = sb_bytes sb1 @ concat (map utf8_bytes us)"
      by auto
    with b sb1 show ?thesis by (intro exI [of _ "u # us"] exI [of _ "b # bs"]) auto
  qed
qed

lemma parse_string_split:
  assumes "parse_string True s = Ret (Ok str t)"
  shows "\<exists>x b. s = b @ t \<and> str = Some x \<and> string_text x b"
proof -
  from sb_ready_start [of True] obtain sb where sb: "sb_need sb_init 4 = Ret sb" "sb_ready True sb" "sb_bytes sb = []"
    by (auto simp: ensures_iff)
  from assms sb obtain r sb' u buf where p: "s = 0x22 # r" "parse_string_loop True sb r = Ret (Ok sb' u)"
    "sb_finish sb' = Ret buf" "str = Some (c_str buf)" "t = tl u"
    by (auto simp: parse_string_def bindO_Ret_iff bindP_Ok_iff rd_0_Ret_iff split: if_splits)
  from parse_string_loop_split [OF p(2) sb(2)] sb(3) obtain us bs w where
    l: "r = concat bs @ u" "u = 0x22 # w" "list_all2 char_text us bs" "sb_bytes sb' = concat (map utf8_bytes us)" by auto
  from conjunct2 [OF agree_string_loop [OF sb(2)], rule_format, OF p(2)] have "sb_ready True sb'" .
  with p(3,4) l(4) have "str = Some (concat (map utf8_bytes us))"
    by (auto simp: sb_ready_def sb_finish_Ret c_str_append)
  moreover from l(3) have "string_text (concat (map utf8_bytes us)) (0x22 # concat bs @ [0x22])"
    by (auto simp: string_text_def)
  moreover from l p have "s = (0x22 # concat bs @ [0x22]) @ t" by simp
  ultimately show ?thesis by blast
qed

end
