(* ===== verification/JsonLanguage.thy ===== *)
theory JsonLanguage
  imports JsonGrammar
begin

text \<open>
  The parser of src/json.c decides the grammar: every text of the language is parsed, to the
  value the grammar gives it, and what is parsed is a text of the language.
\<close>

section \<open>Every text is parsed\<close>

lemma ws_simps [simp]: "ws []" "ws (c # w) \<longleftrightarrow> is_space c \<and> ws w" "ws (v @ w) \<longleftrightarrow> ws v \<and> ws w"
  by (auto simp: ws_def)

lemma string_text_head: "string_text k b \<Longrightarrow> \<exists>r. b = 0x22 # r"
  by (auto simp: string_text_def)

definition value_head :: "byte \<Rightarrow> bool" where
  "value_head c \<longleftrightarrow> c \<in> {0x6E, 0x66, 0x74, 0x22, 0x5B, 0x7B, 0x2D} \<or> is_digit c"

lemma number_text_head: "number_text b \<Longrightarrow> \<exists>c r. b = c # r \<and> (c = 0x2D \<or> is_digit c)"
  by (auto simp: number_text_def dest!: int_text_Cons)

lemma value_text_head: "value_text sd v b \<Longrightarrow> \<exists>c r. b = c # r \<and> value_head c"
  by (erule value_text.cases)
    (auto simp: value_head_def ascii_def dest: string_text_head number_text_head)

lemma value_head_not: "value_head c \<Longrightarrow> \<not> is_space c \<and> c \<noteq> 0x5D \<and> c \<noteq> 0x7D"
  by (auto simp: value_head_def is_space_def is_digit_def)

lemma number_head_not: "c = 0x2D \<or> is_digit c \<Longrightarrow> c \<notin> {0x6E, 0x66, 0x74, 0x22, 0x5B, 0x7B}"
  by (auto simp: is_digit_def)

lemma not_space [simp]: "\<not> is_space 0x5D" "\<not> is_space 0x7D" "\<not> is_space 0x2C" "\<not> is_space 0x3A" "\<not> is_space 0x22"
  by (simp_all add: is_space_def)

lemma elements_text_head: "elements_text sd es b \<Longrightarrow> \<exists>c r. b = c # r \<and> value_head c"
  by (erule elements_text.cases) (auto dest!: value_text_head)

lemma members_text_head: "members_text sd ms b \<Longrightarrow> \<exists>r. b = 0x22 # r"
  by (erule members_text.cases) (auto dest!: string_text_head)

lemma skip_to:
  "ws w \<Longrightarrow> b = c # r \<Longrightarrow> \<not> is_space c \<Longrightarrow> skip_space (w @ b @ t) = Ret (b @ t)"
  using skip_space_ws [of w c "r @ t"] by simp

lemma delimiter_after_ws: "ws w \<Longrightarrow> delimiter c \<Longrightarrow> \<exists>d u. w @ c # t = d # u \<and> delimiter d"
  by (cases w) (auto simp: delimiter_def)

definition parses_value :: "(cursor \<Rightarrow> 'd) \<Rightarrow> 'd json \<Rightarrow> byte list \<Rightarrow> bool" where
  "parses_value sd v b \<longleftrightarrow> (\<forall>c t n. delimiter c \<longrightarrow> 3 * length (b @ c # t) + 1 \<le> n \<longrightarrow>
     parse_value sd True n (b @ c # t) = Ret (Ok (Some v) (c # t)))"

definition parses_elements :: "(cursor \<Rightarrow> 'd) \<Rightarrow> 'd json list \<Rightarrow> byte list \<Rightarrow> bool" where
  "parses_elements sd es b \<longleftrightarrow> (\<forall>ret t n. 3 * length (b @ t) + 2 \<le> n \<longrightarrow>
     parse_elements sd True n ret (b @ t) = Ret (Ok (Some (JArray (ret @ es))) t))"

definition parses_members :: "(cursor \<Rightarrow> 'd) \<Rightarrow> (byte list \<times> 'd json) list \<Rightarrow> byte list \<Rightarrow> bool" where
  "parses_members sd ms b \<longleftrightarrow> (\<forall>ret t n. 3 * length (b @ t) + 2 \<le> n \<longrightarrow>
     parse_members sd True n ret (b @ t) = Ret (Ok (Some (JObject (ret @ ms))) t))"

lemma parses_valueD:
  "parses_value sd v b \<Longrightarrow> delimiter c \<Longrightarrow> ws w \<Longrightarrow> 3 * length (b @ w @ c # t) + 1 \<le> n \<Longrightarrow>
     parse_value sd True n (b @ w @ c # t) = Ret (Ok (Some v) (w @ c # t))"
  using delimiter_after_ws [of w c t] unfolding parses_value_def by fastforce

lemma parses_valueI:
  assumes "\<And>c t n. delimiter c \<Longrightarrow> parse_value sd True (Suc n) (b @ c # t) = Ret (Ok (Some v) (c # t))"
  shows "parses_value sd v b"
  unfolding parses_value_def
proof (intro allI impI)
  fix c t n assume "delimiter c" "3 * length (b @ c # t) + 1 \<le> n"
  then show "parse_value sd True n (b @ c # t) = Ret (Ok (Some v) (c # t))"
    using assms by (cases n) auto
qed

lemma delimiters [simp]: "delimiter 0x5D" "delimiter 0x2C" "delimiter 0x7D" "delimiter 0"
  by (simp_all add: delimiter_def)

lemma parses_last: "parses_value sd e b \<Longrightarrow> ws w \<Longrightarrow> parses_elements sd [e] (b @ w @ [0x5D])"
  unfolding parses_elements_def
proof (intro allI impI)
  fix ret t n assume e: "parses_value sd e b" "ws w" and n: "3 * length ((b @ w @ [0x5D]) @ t) + 2 \<le> n"
  then obtain m where m: "n = Suc m" "3 * length (b @ w @ 0x5D # t) + 1 \<le> m" by (cases n) auto
  from parses_valueD [OF e(1) _ e(2) m(2)] skip_space_ws [OF e(2), of "0x5D" t]
  show "parse_elements sd True n ret ((b @ w @ [0x5D]) @ t) = Ret (Ok (Some (JArray (ret @ [e]))) t)"
    by (simp add: m(1) out_value_def)
qed

lemma parses_more:
  assumes "parses_value sd e b" "ws w" "ws w'" "parses_elements sd es b'" "elements_text sd es b'"
  shows "parses_elements sd (e # es) (b @ w @ 0x2C # w' @ b')"
  unfolding parses_elements_def
proof (intro allI impI)
  fix ret t n assume n: "3 * length ((b @ w @ 0x2C # w' @ b') @ t) + 2 \<le> n"
  then obtain m where m: "n = Suc m" "3 * length (b @ w @ 0x2C # w' @ b' @ t) + 1 \<le> m" "3 * length (b' @ t) + 2 \<le> m"
    by (cases n) auto
  from elements_text_head [OF assms(5)] obtain c r where c: "b' = c # r" "\<not> is_space c"
    by (auto dest: value_head_not)
  from parses_valueD [OF assms(1) _ assms(2) m(2)] skip_space_ws [OF assms(2), of "0x2C" "w' @ b' @ t"]
    skip_to [OF assms(3) c, of t] assms(4) m(3)
  show "parse_elements sd True n ret ((b @ w @ 0x2C # w' @ b') @ t) = Ret (Ok (Some (JArray (ret @ e # es))) t)"
    by (simp add: m(1) out_value_def parses_elements_def)
qed

lemma parses_last_member:
  assumes "string_text k kb" "ws w" "ws w'" "parses_value sd v b" "value_text sd v b" "ws w''"
  shows "parses_members sd [(k, v)] (kb @ w @ 0x3A # w' @ b @ w'' @ [0x7D])"
  unfolding parses_members_def
proof (intro allI impI)
  fix ret t n assume n: "3 * length ((kb @ w @ 0x3A # w' @ b @ w'' @ [0x7D]) @ t) + 2 \<le> n"
  then obtain m where m: "n = Suc m" "3 * length (b @ w'' @ 0x7D # t) + 1 \<le> m" by (cases n) auto
  from value_text_head [OF assms(5)] obtain c r where c: "b = c # r" "\<not> is_space c"
    by (auto dest: value_head_not)
  from parse_string_text(1) [OF assms(1), of "w @ 0x3A # w' @ b @ w'' @ 0x7D # t"]
    skip_space_ws [OF assms(2), of "0x3A" "w' @ b @ w'' @ 0x7D # t"] skip_to [OF assms(3) c, of "w'' @ 0x7D # t"]
    parses_valueD [OF assms(4) _ assms(6) m(2)] skip_space_ws [OF assms(6), of "0x7D" t]
  show "parse_members sd True n ret ((kb @ w @ 0x3A # w' @ b @ w'' @ [0x7D]) @ t)
      = Ret (Ok (Some (JObject (ret @ [(k, v)]))) t)"
    by (simp add: m(1) out_value_def)
qed

lemma parses_more_members:
  assumes "string_text k kb" "ws w" "ws w'" "parses_value sd v b" "value_text sd v b" "ws w''" "ws w3"
    "parses_members sd ms b'" "members_text sd ms b'"
  shows "parses_members sd ((k, v) # ms) (kb @ w @ 0x3A # w' @ b @ w'' @ 0x2C # w3 @ b')"
  unfolding parses_members_def
proof (intro allI impI)
  fix ret t n assume n: "3 * length ((kb @ w @ 0x3A # w' @ b @ w'' @ 0x2C # w3 @ b') @ t) + 2 \<le> n"
  then obtain m where m: "n = Suc m" "3 * length (b @ w'' @ 0x2C # w3 @ b' @ t) + 1 \<le> m" "3 * length (b' @ t) + 2 \<le> m"
    by (cases n) auto
  from value_text_head [OF assms(5)] obtain c r where c: "b = c # r" "\<not> is_space c"
    by (auto dest: value_head_not)
  from members_text_head [OF assms(9)] obtain r' where c': "b' = 0x22 # r'" by auto
  from parse_string_text(1) [OF assms(1), of "w @ 0x3A # w' @ b @ w'' @ 0x2C # w3 @ b' @ t"]
    skip_space_ws [OF assms(2), of "0x3A" "w' @ b @ w'' @ 0x2C # w3 @ b' @ t"]
    skip_to [OF assms(3) c, of "w'' @ 0x2C # w3 @ b' @ t"]
    parses_valueD [OF assms(4) _ assms(6) m(2)] skip_space_ws [OF assms(6), of "0x2C" "w3 @ b' @ t"]
    skip_to [OF assms(7) c', of t] assms(8) m(3)
  show "parse_members sd True n ret ((kb @ w @ 0x3A # w' @ b @ w'' @ 0x2C # w3 @ b') @ t)
      = Ret (Ok (Some (JObject (ret @ (k, v) # ms))) t)"
    by (simp add: m(1) out_value_def parses_members_def)
qed

lemma parses_array:
  assumes "ws w" "parses_elements sd es b" "elements_text sd es b"
  shows "parses_value sd (JArray es) (0x5B # w @ b)"
  unfolding parses_value_def
proof (intro allI impI)
  fix c t n assume n: "3 * length ((0x5B # w @ b) @ c # t) + 1 \<le> n"
  then obtain m where m: "n = Suc (Suc m)" "3 * length (b @ c # t) + 2 \<le> m"
    by (cases n; cases "n - 1") auto
  from elements_text_head [OF assms(3)] obtain d r where d: "b = d # r" "\<not> is_space d" "d \<noteq> 0x5D"
    by (auto dest: value_head_not)
  from skip_to [OF assms(1) d(1,2), of "c # t"] assms(2) m(2) d(3)
  show "parse_value sd True n ((0x5B # w @ b) @ c # t) = Ret (Ok (Some (JArray es)) (c # t))"
    by (simp add: m(1) d(1) parses_elements_def)
qed

lemma parses_object:
  assumes "ws w" "parses_members sd ms b" "members_text sd ms b"
  shows "parses_value sd (JObject ms) (0x7B # w @ b)"
  unfolding parses_value_def
proof (intro allI impI)
  fix c t n assume n: "3 * length ((0x7B # w @ b) @ c # t) + 1 \<le> n"
  then obtain m where m: "n = Suc (Suc m)" "3 * length (b @ c # t) + 2 \<le> m"
    by (cases n; cases "n - 1") auto
  from members_text_head [OF assms(3)] obtain r where d: "b = 0x22 # r" by auto
  from skip_to [OF assms(1) d, of "c # t"] assms(2) m(2)
  show "parse_value sd True n ((0x7B # w @ b) @ c # t) = Ret (Ok (Some (JObject ms)) (c # t))"
    by (simp add: m(1) d parses_members_def)
qed

lemma parses_number:
  assumes "strtod_local sd" "number_text b"
  shows "parses_value sd (JNumber (sd (b @ [0]))) b"
proof (rule parses_valueI)
  fix c t n assume c: "delimiter c"
  from number_text_head [OF assms(2)] obtain d r where d: "b = d # r" "d = 0x2D \<or> is_digit d" by auto
  from assms c have sd: "sd (b @ c # t) = sd (b @ [0])" unfolding strtod_local_def by blast
  from scan_number_text [OF assms(2) delimiter_num_stop [OF c], of t] sd number_head_not [OF d(2)]
  show "parse_value sd True (Suc n) (b @ c # t) = Ret (Ok (Some (JNumber (sd (b @ [0])))) (c # t))"
    by (simp add: d(1) parse_number_def)
qed

lemma parses_empty:
  "ws w \<Longrightarrow> parses_value sd (JArray []) (0x5B # w @ [0x5D])" "ws w \<Longrightarrow> parses_value sd (JObject []) (0x7B # w @ [0x7D])"
proof -
  assume w: "ws w"
  show "parses_value sd (JArray []) (0x5B # w @ [0x5D])" "parses_value sd (JObject []) (0x7B # w @ [0x7D])"
    unfolding parses_value_def
  proof (intro allI impI)
    fix c t n assume n: "3 * length ((0x5B # w @ [0x5D]) @ c # t) + 1 \<le> n"
    then obtain m where m: "n = Suc (Suc m)" by (cases n; cases "n - 1") auto
    from skip_space_ws [OF w, of "0x5D" "c # t"]
    show "parse_value sd True n ((0x5B # w @ [0x5D]) @ c # t) = Ret (Ok (Some (JArray [])) (c # t))"
      by (simp add: m out_value_def)
  next
    show "\<forall>c t n. delimiter c \<longrightarrow> 3 * length ((0x7B # w @ [0x7D]) @ c # t) + 1 \<le> n \<longrightarrow>
      parse_value sd True n ((0x7B # w @ [0x7D]) @ c # t) = Ret (Ok (Some (JObject [])) (c # t))"
    proof (intro allI impI)
      fix c t n assume n: "3 * length ((0x7B # w @ [0x7D]) @ c # t) + 1 \<le> n"
      then obtain m where m: "n = Suc (Suc m)" by (cases n; cases "n - 1") auto
      from skip_space_ws [OF w, of "0x7D" "c # t"]
      show "parse_value sd True n ((0x7B # w @ [0x7D]) @ c # t) = Ret (Ok (Some (JObject [])) (c # t))"
        by (simp add: m out_value_def)
    qed
  qed
qed

lemma parses_literal:
  "parses_value sd JNull (ascii ''null'')" "parses_value sd (JBool False) (ascii ''false'')"
  "parses_value sd (JBool True) (ascii ''true'')"
  by (rule parses_valueI; simp add: ascii_def out_value_def)+

lemma parses_string:
  assumes "string_text str b"
  shows "parses_value sd (JString str) b"
proof (rule parses_valueI)
  fix c t n
  from string_text_head [OF assms] obtain r where "b = 0x22 # r" by auto
  with parse_string_text(1) [OF assms, of "c # t"]
  show "parse_value sd True (Suc n) (b @ c # t) = Ret (Ok (Some (JString str)) (c # t))" by simp
qed

lemma text_parses:
  assumes "strtod_local sd"
  shows "(value_text sd v b \<longrightarrow> parses_value sd v b) \<and> (elements_text sd es be \<longrightarrow> parses_elements sd es be) \<and>
    (members_text sd ms bm \<longrightarrow> parses_members sd ms bm)"
proof -
  have "(value_text sd v b \<longrightarrow> parses_value sd v b \<and> value_text sd v b) \<and>
    (elements_text sd es be \<longrightarrow> parses_elements sd es be \<and> elements_text sd es be) \<and>
    (members_text sd ms bm \<longrightarrow> parses_members sd ms bm \<and> members_text sd ms bm)"
    by (induction rule: value_text_elements_text_members_text.induct)
      (auto intro: value_text_elements_text_members_text.intros parses_literal parses_string parses_empty
        parses_number [OF assms] parses_array parses_object parses_last parses_more parses_last_member parses_more_members)
  then show ?thesis by blast
qed

section \<open>What is parsed is a text\<close>

definition value_sound :: "(cursor \<Rightarrow> 'd) \<Rightarrow> nat \<Rightarrow> bool" where
  "value_sound sd n \<longleftrightarrow> (\<forall>s ov c t. parse_value sd True n s = Ret (Ok ov (c # t)) \<longrightarrow> delimiter c \<longrightarrow>
     (\<exists>v b. ov = Some v \<and> s = b @ c # t \<and> value_text sd v b))"

definition array_sound :: "(cursor \<Rightarrow> 'd) \<Rightarrow> nat \<Rightarrow> bool" where
  "array_sound sd n \<longleftrightarrow> (\<forall>s ov t.
     parse_array sd True n s = Ret (Ok ov t) \<or> parse_object sd True n s = Ret (Ok ov t) \<longrightarrow>
     (\<exists>v b. ov = Some v \<and> s = b @ t \<and> value_text sd v b))"

definition items_sound :: "(cursor \<Rightarrow> 'd) \<Rightarrow> nat \<Rightarrow> bool" where
  "items_sound sd n \<longleftrightarrow>
     (\<forall>ret s ov t. parse_elements sd True n ret s = Ret (Ok ov t) \<longrightarrow>
        (\<exists>es b. ov = Some (JArray (ret @ es)) \<and> s = b @ t \<and> elements_text sd es b)) \<and>
     (\<forall>ret s ov t. parse_members sd True n ret s = Ret (Ok ov t) \<longrightarrow>
        (\<exists>ms b. ov = Some (JObject (ret @ ms)) \<and> s = b @ t \<and> members_text sd ms b))"

lemma items_soundD:
  assumes "items_sound sd n"
  shows "parse_elements sd True n ret s = Ret (Ok ov t) \<Longrightarrow>
      \<exists>es b. ov = Some (JArray (ret @ es)) \<and> s = b @ t \<and> elements_text sd es b"
    "parse_members sd True n ret' s = Ret (Ok ov t) \<Longrightarrow>
      \<exists>ms b. ov = Some (JObject (ret' @ ms)) \<and> s = b @ t \<and> members_text sd ms b"
  using assms unfolding items_sound_def by blast+

text \<open>The step between two tokens, read backwards.\<close>

lemma skip_rd_split:
  assumes "bindO (skip_space s) (\<lambda>s. bindO (rd s 0) (f s)) = Ret y"
  obtains w c u where "s = w @ c # u" "ws w" "\<not> is_space c" "f (c # u) c = Ret y"
    "delimiter c \<longrightarrow> (\<exists>d r. s = d # r \<and> delimiter d)"
proof -
  from assms obtain t c where t: "skip_space s = Ret t" "rd t 0 = Ret c" "f t c = Ret y"
    by (auto simp: bindO_Ret_iff)
  from skip_space_split [OF t(1)] obtain w c' u where "s = w @ c' # u" "ws w" "t = c' # u" "\<not> is_space c'" by auto
  with t that delimiter_after_ws [of w c' u] show ?thesis by auto
qed

lemma value_sound_step:
  assumes "strtod_local sd" "array_sound sd n"
  shows "value_sound sd (Suc n)"
  unfolding value_sound_def
proof (intro allI impI)
  fix s ov c t assume p: "parse_value sd True (Suc n) s = Ret (Ok ov (c # t))" and c: "delimiter c"
  from p obtain d r where s: "s = d # r" by (auto simp: bindO_Ret_iff rd_0_Ret_iff)
  consider "d = 0x6E" | "d = 0x66" | "d = 0x74" | "d = 0x22" | "d = 0x5B \<or> d = 0x7B"
    | "d \<notin> {0x6E, 0x66, 0x74, 0x22, 0x5B, 0x7B}" by auto
  then show "\<exists>v b. ov = Some v \<and> s = b @ c # t \<and> value_text sd v b"
  proof cases
    case 1
    with p s have "expect_literal s (ascii ''null'') = Ret (Ok () (c # t))" "ov = Some JNull"
      by (simp_all add: bindP_Ok_iff out_value_def)
    with t_null [of sd] show ?thesis by (auto dest!: expect_literal_split)
  next
    case 2
    with p s have "expect_literal s (ascii ''false'') = Ret (Ok () (c # t))" "ov = Some (JBool False)"
      by (simp_all add: bindP_Ok_iff out_value_def)
    with t_false [of sd] show ?thesis by (auto dest!: expect_literal_split)
  next
    case 3
    with p s have "expect_literal s (ascii ''true'') = Ret (Ok () (c # t))" "ov = Some (JBool True)"
      by (simp_all add: bindP_Ok_iff out_value_def)
    with t_true [of sd] show ?thesis by (auto dest!: expect_literal_split)
  next
    case 4
    with p s obtain str where "parse_string True s = Ret (Ok str (c # t))" "ov = map_option JString str"
      by (auto simp: bindP_Ok_iff)
    then show ?thesis by (auto dest!: parse_string_split intro: t_string)
  next
    case 5
    with p s assms(2) show ?thesis by (auto simp: array_sound_def)
  next
    case 6
    with p s have sc: "scan_number s = Ret (Ok () (c # t))" "ov = Some (JNumber (sd s))"
      by (auto simp: bindP_Ok_iff parse_number_def)
    from scan_number_split [OF sc(1)] obtain b where b: "s = b @ c # t" "number_text b" by auto
    from assms(1) c b(2) have "sd s = sd (b @ [0])" unfolding strtod_local_def b(1) by blast
    with sc(2) b t_number [OF b(2)] show ?thesis by auto
  qed
qed

lemma array_sound_step:
  assumes "items_sound sd n"
  shows "array_sound sd (Suc n)"
  unfolding array_sound_def
proof (intro allI impI)
  fix s ov t
  assume p: "parse_array sd True (Suc n) s = Ret (Ok ov t) \<or> parse_object sd True (Suc n) s = Ret (Ok ov t)"
  then show "\<exists>v b. ov = Some v \<and> s = b @ t \<and> value_text sd v b"
  proof
    assume p: "parse_array sd True (Suc n) s = Ret (Ok ov t)"
    then obtain r where s: "s = 0x5B # r" by (auto simp: bindO_Ret_iff rd_0_Ret_iff split: if_splits)
    with p have "bindO (skip_space r) (\<lambda>s. bindO (rd s 0) (\<lambda>c.
        if c = 0x5D then Ret (Ok (out_value True (JArray [])) (tl s))
        else parse_elements sd True n [] s)) = Ret (Ok ov t)" by simp
    then obtain w c u where w: "r = w @ c # u" "ws w" "(if c = 0x5D then Ret (Ok (out_value True (JArray [])) (tl (c # u)))
        else parse_elements sd True n [] (c # u)) = Ret (Ok ov t)" by (rule skip_rd_split)
    show ?thesis
    proof (cases "c = 0x5D")
      case True
      with w s t_empty_array [OF w(2), of sd] show ?thesis by (auto simp: out_value_def)
    next
      case False
      with w(3) items_soundD(1) [OF assms, of "[]" "c # u" ov t]
      obtain es b where "ov = Some (JArray es)" "c # u = b @ t" "elements_text sd es b" by auto
      with t_array [OF w(2), of sd es b] w(1) s show ?thesis by auto
    qed
  next
    assume p: "parse_object sd True (Suc n) s = Ret (Ok ov t)"
    then obtain r where s: "s = 0x7B # r" by (auto simp: bindO_Ret_iff rd_0_Ret_iff split: if_splits)
    with p have "bindO (skip_space r) (\<lambda>s. bindO (rd s 0) (\<lambda>c.
        if c = 0x7D then Ret (Ok (out_value True (JObject [])) (tl s))
        else parse_members sd True n [] s)) = Ret (Ok ov t)" by simp
    then obtain w c u where w: "r = w @ c # u" "ws w" "(if c = 0x7D then Ret (Ok (out_value True (JObject [])) (tl (c # u)))
        else parse_members sd True n [] (c # u)) = Ret (Ok ov t)" by (rule skip_rd_split)
    show ?thesis
    proof (cases "c = 0x7D")
      case True
      with w s t_empty_object [OF w(2), of sd] show ?thesis by (auto simp: out_value_def)
    next
      case False
      with w(3) items_soundD(2) [OF assms, of "[]" "c # u" ov t]
      obtain ms b where "ov = Some (JObject ms)" "c # u = b @ t" "members_text sd ms b" by auto
      with t_object [OF w(2), of sd ms b] w(1) s show ?thesis by auto
    qed
  qed
qed

lemma elements_sound_step:
  assumes "items_sound sd n" "value_sound sd n" "parse_elements sd True (Suc n) ret s = Ret (Ok ov t)"
  shows "\<exists>es b. ov = Some (JArray (ret @ es)) \<and> s = b @ t \<and> elements_text sd es b"
proof -
  from assms(3) obtain oe s1 where p: "parse_value sd True n s = Ret (Ok oe s1)"
    "bindO (skip_space s1) (\<lambda>s. bindO (rd s 0) (\<lambda>c.
       if c = 0x5D then Ret (Ok (out_value True (JArray (append_out ret oe))) (tl s))
       else if c \<noteq> 0x2C then Ret Fail
       else bindO (skip_space (tl s)) (\<lambda>s. parse_elements sd True n (append_out ret oe) s))) = Ret (Ok ov t)"
    by (auto simp: bindP_Ok_iff)
  from p(2) obtain w c u where w: "s1 = w @ c # u" "ws w" "delimiter c \<longrightarrow> (\<exists>d r. s1 = d # r \<and> delimiter d)"
    "(if c = 0x5D then Ret (Ok (out_value True (JArray (append_out ret oe))) (tl (c # u)))
       else if c \<noteq> 0x2C then Ret Fail
       else bindO (skip_space (tl (c # u))) (\<lambda>s. parse_elements sd True n (append_out ret oe) s)) = Ret (Ok ov t)"
    by (rule skip_rd_split)
  from w(4) have c: "c = 0x5D \<or> c = 0x2C" by (auto split: if_splits)
  with w(3) obtain d r where "s1 = d # r" "delimiter d" by auto
  with p(1) assms(2) obtain e b where e: "oe = Some e" "s = b @ s1" "value_text sd e b"
    unfolding value_sound_def by blast
  show ?thesis
  proof (cases "c = 0x5D")
    case True
    with w e t_last [OF e(3) w(2)] show ?thesis by (auto simp: out_value_def)
  next
    case False
    with w(4) c obtain s2 where s2: "skip_space u = Ret s2" "parse_elements sd True n (ret @ [e]) s2 = Ret (Ok ov t)"
      by (auto simp: bindO_Ret_iff e(1))
    from skip_space_split [OF s2(1)] obtain w' where w': "u = w' @ s2" "ws w'" by auto
    from s2(2) assms(1) obtain es b' where "ov = Some (JArray ((ret @ [e]) @ es))" "s2 = b' @ t" "elements_text sd es b'"
      unfolding items_sound_def by blast
    with t_more [OF e(3) w(2) w'(2)] e(2) w(1) w'(1) c False show ?thesis by auto
  qed
qed

lemma members_sound_step:
  assumes "items_sound sd n" "value_sound sd n" "parse_members sd True (Suc n) ret s = Ret (Ok ov t)"
  shows "\<exists>ms b. ov = Some (JObject (ret @ ms)) \<and> s = b @ t \<and> members_text sd ms b"
proof -
  from assms(3) obtain key s0 where k: "parse_string True s = Ret (Ok key s0)"
    "bindO (skip_space s0) (\<lambda>s. bindO (rd s 0) (\<lambda>c.
       if c \<noteq> 0x3A then Ret Fail
       else bindO (skip_space (tl s)) (\<lambda>s.
       bindP (parse_value sd True n s) (\<lambda>value s.
       bindO (skip_space s) (\<lambda>s. bindO (rd s 0) (\<lambda>c.
         if c = 0x7D then Ret (Ok (out_value True (JObject (append_out ret (member_out key value)))) (tl s))
         else if c \<noteq> 0x2C then Ret Fail
         else bindO (skip_space (tl s)) (\<lambda>s.
           parse_members sd True n (append_out ret (member_out key value)) s))))))) = Ret (Ok ov t)"
    by (auto simp: bindP_Ok_iff)
  from parse_string_split [OF k(1)] obtain x kb where x: "s = kb @ s0" "key = Some x" "string_text x kb" by auto
  from k(2) obtain w0 c0 u0 where w0: "s0 = w0 @ c0 # u0" "ws w0"
    "(if c0 \<noteq> 0x3A then Ret Fail
       else bindO (skip_space (tl (c0 # u0))) (\<lambda>s.
       bindP (parse_value sd True n s) (\<lambda>value s.
       bindO (skip_space s) (\<lambda>s. bindO (rd s 0) (\<lambda>c.
         if c = 0x7D then Ret (Ok (out_value True (JObject (append_out ret (member_out key value)))) (tl s))
         else if c \<noteq> 0x2C then Ret Fail
         else bindO (skip_space (tl s)) (\<lambda>s.
           parse_members sd True n (append_out ret (member_out key value)) s)))))) = Ret (Ok ov t)"
    by (rule skip_rd_split)
  then obtain s' ov1 s1 where v: "c0 = 0x3A" "skip_space u0 = Ret s'" "parse_value sd True n s' = Ret (Ok ov1 s1)"
    "bindO (skip_space s1) (\<lambda>s. bindO (rd s 0) (\<lambda>c.
         if c = 0x7D then Ret (Ok (out_value True (JObject (append_out ret (member_out key ov1)))) (tl s))
         else if c \<noteq> 0x2C then Ret Fail
         else bindO (skip_space (tl s)) (\<lambda>s.
           parse_members sd True n (append_out ret (member_out key ov1)) s))) = Ret (Ok ov t)"
    by (auto simp: bindO_Ret_iff [of "skip_space u0"] bindP_Ok_iff split: if_splits)
  from skip_space_split [OF v(2)] obtain w1 where w1: "u0 = w1 @ s'" "ws w1" by auto
  from v(4) obtain w c u where w: "s1 = w @ c # u" "ws w" "delimiter c \<longrightarrow> (\<exists>d r. s1 = d # r \<and> delimiter d)"
    "(if c = 0x7D then Ret (Ok (out_value True (JObject (append_out ret (member_out key ov1)))) (tl (c # u)))
         else if c \<noteq> 0x2C then Ret Fail
         else bindO (skip_space (tl (c # u))) (\<lambda>s.
           parse_members sd True n (append_out ret (member_out key ov1)) s)) = Ret (Ok ov t)"
    by (rule skip_rd_split)
  from w(4) have c: "c = 0x7D \<or> c = 0x2C" by (auto split: if_splits)
  with w(3) obtain d r where "s1 = d # r" "delimiter d" by auto
  with v(3) assms(2) obtain e b where e: "ov1 = Some e" "s' = b @ s1" "value_text sd e b"
    unfolding value_sound_def by blast
  show ?thesis
  proof (cases "c = 0x7D")
    case True
    with w e x w0 w1 v(1) t_last_member [OF x(3) w0(2) w1(2) e(3) w(2)] show ?thesis by (auto simp: out_value_def)
  next
    case False
    with w(4) c obtain s2 where s2: "skip_space u = Ret s2" "parse_members sd True n (ret @ [(x, e)]) s2 = Ret (Ok ov t)"
      by (auto simp: bindO_Ret_iff e(1) x(2))
    from skip_space_split [OF s2(1)] obtain w' where w': "u = w' @ s2" "ws w'" by auto
    from s2(2) assms(1) obtain ms b' where "ov = Some (JObject ((ret @ [(x, e)]) @ ms))" "s2 = b' @ t" "members_text sd ms b'"
      unfolding items_sound_def by blast
    with t_more_members [OF x(3) w0(2) w1(2) e(3) w(2) w'(2)] e(2) x(1) w0(1) w1(1) v(1) w(1) w'(1) c False
    show ?thesis by auto
  qed
qed

lemma parse_sound:
  assumes "strtod_local sd"
  shows "value_sound sd n \<and> array_sound sd n \<and> items_sound sd n"
proof (induction n)
  case 0
  show ?case by (auto simp: value_sound_def array_sound_def items_sound_def)
next
  case (Suc n)
  with elements_sound_step [of sd n] members_sound_step [of sd n] have "items_sound sd (Suc n)"
    unfolding items_sound_def [of sd "Suc n"] by blast
  with Suc value_sound_step [OF assms] array_sound_step show ?case by blast
qed

section \<open>The decoder decides the language\<close>

definition json_text :: "(cursor \<Rightarrow> 'd) \<Rightarrow> 'd json \<Rightarrow> byte list \<Rightarrow> bool" where
  "json_text sd v bs \<longleftrightarrow> (\<exists>w b w'. bs = w @ b @ w' \<and> ws w \<and> ws w' \<and> value_text sd v b)"

lemma decode_text:
  assumes "strtod_local sd" "json_text sd v bs"
  shows "json_decode sd (bs @ 0 # t) = Ret (Some v)"
proof -
  from assms(2) obtain w b w' where b: "bs = w @ b @ w'" "ws w" "ws w'" "value_text sd v b" by (auto simp: json_text_def)
  from value_text_head [OF b(4)] obtain c r where c: "b = c # r" "\<not> is_space c" by (auto dest: value_head_not)
  have "parses_value sd v b" using text_parses [OF assms(1)] b(4) by blast
  then have "parse_value sd True (parse_fuel (b @ w' @ 0 # t)) (b @ w' @ 0 # t) = Ret (Ok (Some v) (w' @ 0 # t))"
    by (rule parses_valueD [OF _ _ b(3)]) (simp_all add: parse_fuel_def)
  with skip_to [OF b(2) c, of "w' @ 0 # t"] skip_space_ws [OF b(3), of 0 t]
  show ?thesis by (simp add: json_decode_def b(1))
qed

lemma text_nonzero: "ws w \<Longrightarrow> 0 \<notin> set w"
  by (auto simp: ws_def list_all_iff)

lemma decode_is_text:
  assumes "strtod_local sd" "json_decode sd s = Ret (Some v)"
  shows "\<exists>bs t. s = bs @ 0 # t \<and> json_text sd v bs"
proof -
  from assms(2) obtain s1 r where r: "skip_space s = Ret s1" "parse_value sd True (parse_fuel s1) s1 = Ret r"
    "(case r of Fail \<Rightarrow> Ret None
     | Ok ret s \<Rightarrow> bindO (skip_space s) (\<lambda>s. bindO (rd s 0) (\<lambda>c. if c \<noteq> 0 then Ret None else Ret ret))) = Ret (Some v)"
    by (auto simp: json_decode_def bindO_Ret_iff)
  then obtain s2 where ok: "r = Ok (Some v) s2" and e: "bindO (skip_space s2) (\<lambda>s. bindO (rd s 0) (\<lambda>c. if c \<noteq> 0 then Ret None else Ret (Some v))) = Ret (Some v)"
    by (auto simp: bindO_Ret_iff split: parsed.splits if_splits)
  from e obtain w' c u where w': "s2 = w' @ c # u" "ws w'" "delimiter c \<longrightarrow> (\<exists>d r. s2 = d # r \<and> delimiter d)"
    "(if c \<noteq> 0 then Ret None else Ret (Some v)) = Ret (Some v)" by (rule skip_rd_split)
  then have c: "c = 0" by (auto split: if_splits)
  with w'(3) obtain d x where d: "s2 = d # x" "delimiter d" by auto
  from parse_sound [OF assms(1), of "parse_fuel s1"] r(2) d
  obtain b where "s1 = b @ s2" "value_text sd v b" unfolding value_sound_def ok by blast
  moreover from skip_space_split [OF r(1)] obtain w where "s = w @ s1" "ws w" by auto
  ultimately have "s = (w @ b @ w') @ 0 # u" "json_text sd v (w @ b @ w')"
    using w' c by (auto simp: json_text_def)
  then show ?thesis by blast
qed

section \<open>A reader of numbers\<close>

text \<open>The assumption on \<open>strtod\<close> holds of the function that gives the number's own bytes.\<close>

definition number_bytes :: "cursor \<Rightarrow> byte list" where
  "number_bytes s = takeWhile (\<lambda>c. \<not> delimiter c) s"

lemma digits_not_delimiter: "digits b \<Longrightarrow> c \<in> set b \<Longrightarrow> \<not> delimiter c"
  by (auto simp: digits_def list_all_iff is_digit_def delimiter_def is_space_def)

lemma sign_not_delimiter: "c \<in> {0x2D, 0x2B, 0x2E, 0x45, 0x65, 0x30} \<Longrightarrow> \<not> delimiter c"
  by (elim insertE emptyE) (simp_all add: delimiter_def is_space_def)

lemma int_not_delimiter: "int_text i \<Longrightarrow> c \<in> set i \<Longrightarrow> \<not> delimiter c"
  unfolding int_text_def using digits_not_delimiter sign_not_delimiter by fastforce

lemma frac_not_delimiter: "frac_text f \<Longrightarrow> c \<in> set f \<Longrightarrow> \<not> delimiter c"
  unfolding frac_text_def using digits_not_delimiter sign_not_delimiter by fastforce

lemma exp_not_delimiter:
  assumes "exp_text e" "c \<in> set e"
  shows "\<not> delimiter c"
proof -
  from assms(2) have "e \<noteq> []" by auto
  with assms(1) obtain x sg b where e: "e = x # sg @ b" "x \<in> {0x45, 0x65}" "sg \<in> {[], [0x2B], [0x2D]}" "digits b"
    unfolding exp_text_def by blast
  from assms(2) have "c = x \<or> c \<in> set sg \<or> c \<in> set b" by (simp add: e(1))
  moreover note e(2-4)
  moreover from e(3) have "c \<in> set sg \<Longrightarrow> c \<in> {0x2D, 0x2B, 0x2E, 0x45, 0x65, 0x30}" by auto
  ultimately show ?thesis using digits_not_delimiter [of b c] sign_not_delimiter [of c] by auto
qed

lemma number_text_not_delimiter:
  assumes "number_text b" "c \<in> set b"
  shows "\<not> delimiter c"
proof -
  from assms obtain sg i f e where b: "b = sg @ i @ f @ e" "sg \<in> {[], [0x2D]}" "int_text i"
    "frac_text f" "exp_text e" unfolding number_text_def by blast
  from assms(2) have "c \<in> set sg \<or> c \<in> set i \<or> c \<in> set f \<or> c \<in> set e" by (simp add: b(1))
  moreover note b(2-5)
  moreover from b(2) have "c \<in> set sg \<Longrightarrow> c \<in> {0x2D, 0x2B, 0x2E, 0x45, 0x65, 0x30}" by auto
  ultimately show ?thesis
    using int_not_delimiter frac_not_delimiter exp_not_delimiter sign_not_delimiter [of c] by blast
qed

lemma number_bytes_local: "strtod_local number_bytes"
  unfolding strtod_local_def number_bytes_def
  by (auto simp: number_text_not_delimiter takeWhile_append2)

section \<open>Properties\<close>

text \<open>
  C7. \<open>json_decode\<close> accepts exactly the JSON texts, and with the value the grammar gives them:
  it returns \<open>v\<close> on a buffer if and only if the bytes before the first NUL are optional white
  space, a text of \<open>v\<close>, and optional white space.
\<close>

theorem json_decode_grammar:
  assumes "strtod_local sd"
  shows "json_decode sd json = Ret (Some v) \<longleftrightarrow> (\<exists>bs t. json = bs @ 0 # t \<and> json_text sd v bs)"
  using decode_text [OF assms] decode_is_text [OF assms] by blast

theorem json_decode_grammar_witness:
  "json_decode number_bytes (ascii ''[12, {}]'' @ [0]) = Ret (Some (JArray [JNumber (ascii ''12''), JObject []])) \<longleftrightarrow>
    (\<exists>bs t. ascii ''[12, {}]'' @ [0] = bs @ 0 # t \<and> json_text number_bytes (JArray [JNumber (ascii ''12''), JObject []]) bs)"
  by (rule json_decode_grammar) (rule number_bytes_local)

text \<open>The language the decoder accepts is unambiguous: a text has at most one value.\<close>

theorem json_text_unambiguous:
  assumes "strtod_local sd"
  shows "\<exists>\<^sub>\<le>\<^sub>1 v. json_text sd v bs"
  unfolding Uniq_def
proof (intro allI impI)
  fix v w assume "json_text sd v bs" "json_text sd w bs"
  with decode_text [OF assms, of v bs "[]"] decode_text [OF assms, of w bs "[]"] show "w = v" by simp
qed

theorem json_text_unambiguous_witness: "\<exists>\<^sub>\<le>\<^sub>1 v. json_text number_bytes v (ascii ''[1, 2]'')"
  by (rule json_text_unambiguous) (rule number_bytes_local)

end
