(* ===== verification/JsonEmit.thy ===== *)
theory JsonEmit
  imports JsonLanguage
begin

text \<open>
  The emitting half of src/json.c: \<open>emit_value\<close> .. \<open>write_hex16\<close>, \<open>json_encode\<close>,
  \<open>json_encode_string\<close> and \<open>json_stringify\<close>. \<open>sprintf(buf, "%.16g", num)\<close> of the C
  library is the parameter \<open>fmt\<close>: the characters it writes in front of the terminator.
\<close>

section \<open>Definitions\<close>

instantiation JsonTag :: linorder
begin

fun tag_number :: "JsonTag \<Rightarrow> nat" where
  "tag_number JSON_NULL = 0"
| "tag_number JSON_BOOL = 1"
| "tag_number JSON_STRING = 2"
| "tag_number JSON_NUMBER = 3"
| "tag_number JSON_ARRAY = 4"
| "tag_number JSON_OBJECT = 5"

definition less_eq_JsonTag :: "JsonTag \<Rightarrow> JsonTag \<Rightarrow> bool" where
  "less_eq_JsonTag a b \<longleftrightarrow> tag_number a \<le> tag_number b"

definition less_JsonTag :: "JsonTag \<Rightarrow> JsonTag \<Rightarrow> bool" where
  "less_JsonTag a b \<longleftrightarrow> tag_number a < tag_number b"

instance
proof
  fix a b :: JsonTag
  show "a \<le> b \<Longrightarrow> b \<le> a \<Longrightarrow> a = b"
    by (cases a; cases b) (simp_all add: less_eq_JsonTag_def)
qed (auto simp: less_eq_JsonTag_def less_JsonTag_def)

end

definition tag_is_valid :: "JsonTag \<Rightarrow> bool" where
  "tag_is_valid tag \<longleftrightarrow> tag \<le> JSON_OBJECT"

definition hex_chars :: "byte list" where
  "hex_chars = ascii ''0123456789ABCDEF''"

definition write_hex16 :: "u16 \<Rightarrow> byte list" where
  "write_hex16 val =
     [hex_chars ! unat (drop_bit 12 val AND 0xF), hex_chars ! unat (drop_bit 8 val AND 0xF),
      hex_chars ! unat (drop_bit 4 val AND 0xF), hex_chars ! unat (val AND 0xF)]"

text \<open>One round of the loop of \<open>emit_string\<close>: what is written to \<open>b\<close>, and the new \<open>s\<close>.\<close>

definition emit_string_char :: "bool \<Rightarrow> cursor \<Rightarrow> (byte list \<times> cursor) outcome" where
  "emit_string_char escape_unicode s = bindO (rd s 0) (\<lambda>c.
     if c = 0x22 then Ret ([0x5C, 0x22], tl s)
     else if c = 0x5C then Ret ([0x5C, 0x5C], tl s)
     else if c = 0x08 then Ret ([0x5C, 0x62], tl s)
     else if c = 0x0C then Ret ([0x5C, 0x66], tl s)
     else if c = 0x0A then Ret ([0x5C, 0x6E], tl s)
     else if c = 0x0D then Ret ([0x5C, 0x72], tl s)
     else if c = 0x09 then Ret ([0x5C, 0x74], tl s)
     else bindO (utf8_validate_cz s) (\<lambda>len.
       if len = 0 then Fault Assert_failed
       else if c < 0x1F \<or> c \<ge> 0x80 \<and> escape_unicode then
         bindO (utf8_read_char s) (\<lambda>(unicode, n).
         if unicode \<le> 0xFFFF then Ret (0x5C # 0x75 # write_hex16 (ucast unicode), drop n s)
         else bindO (assertO (unicode \<le> 0x10FFFF)) (\<lambda>_.
           bindO (to_surrogate_pair unicode) (\<lambda>(uc, lc).
           Ret (0x5C # 0x75 # write_hex16 uc @ 0x5C # 0x75 # write_hex16 lc, drop n s))))
       else Ret (take len s, drop len s)))"

lemma read_char_length: "utf8_read_char s = Ret (u, n) \<Longrightarrow> n \<noteq> 0 \<and> s \<noteq> []"
  by (auto simp: utf8_read_char_def bindO_Ret_iff split: if_splits)

lemma emit_string_char_shorter:
  "emit_string_char esc s = Ret (bytes, s') \<Longrightarrow> length s' < length s"
  by (cases s) (auto simp: emit_string_char_def bindO_Ret_iff dest!: read_char_length split: if_splits)

function emit_string_loop :: "bool \<Rightarrow> SB \<Rightarrow> cursor \<Rightarrow> SB outcome" where
  "emit_string_loop escape_unicode out s = bindO (rd s 0) (\<lambda>c.
     if c = 0 then Ret out
     else bindO (emit_string_char escape_unicode s) (\<lambda>(bytes, s').
       bindO (sb_store out bytes) (\<lambda>out.
       bindO (sb_need out 14) (\<lambda>out.
       emit_string_loop escape_unicode out s'))))"
  by pat_completeness auto
termination
  by (relation "measure (\<lambda>(escape_unicode, out, s). length s)") (auto dest: emit_string_char_shorter)

declare emit_string_loop.simps [simp del]

definition emit_string_as :: "bool \<Rightarrow> SB \<Rightarrow> cursor \<Rightarrow> SB outcome" where
  "emit_string_as escape_unicode out str =
     bindO (utf8_validate str) (\<lambda>valid.
     bindO (assertO valid) (\<lambda>_.
     bindO (sb_need out 14) (\<lambda>out.
     bindO (sb_store out [0x22]) (\<lambda>out.
     bindO (emit_string_loop escape_unicode out str) (\<lambda>out.
     sb_store out [0x22])))))"

text \<open>The source fixes \<open>escape_unicode = false\<close>.\<close>

definition emit_string :: "SB \<Rightarrow> cursor \<Rightarrow> SB outcome" where
  "emit_string = emit_string_as False"

definition number_is_valid :: "cursor \<Rightarrow> bool outcome" where
  "number_is_valid num =
     bindO (parse_number (\<lambda>_. ()) False num) (\<lambda>r. case r of
       Fail \<Rightarrow> Ret False
     | Ok _ num \<Rightarrow> bindO (rd num 0) (\<lambda>c. Ret (c = 0)))"

text \<open>\<open>char buf[64]\<close>: a longer rendering is written past its end.\<close>

definition emit_number :: "('d \<Rightarrow> byte list) \<Rightarrow> SB \<Rightarrow> 'd \<Rightarrow> SB outcome" where
  "emit_number fmt out num =
     (if length (fmt num) + 1 > 64 then Fault Write_OOB
      else bindO (number_is_valid (fmt num @ [0])) (\<lambda>valid.
        if valid then sb_puts out (fmt num) else sb_puts out (ascii ''null'')))"

fun emit_value :: "('d \<Rightarrow> byte list) \<Rightarrow> SB \<Rightarrow> 'd json \<Rightarrow> SB outcome"
and emit_array_elements :: "('d \<Rightarrow> byte list) \<Rightarrow> SB \<Rightarrow> 'd json list \<Rightarrow> SB outcome"
and emit_object_members :: "('d \<Rightarrow> byte list) \<Rightarrow> SB \<Rightarrow> (byte list \<times> 'd json) list \<Rightarrow> SB outcome" where
  "emit_value fmt out node =
     bindO (assertO (tag_is_valid (tag_of node))) (\<lambda>_.
     case node of
       JNull \<Rightarrow> sb_puts out (ascii ''null'')
     | JBool b \<Rightarrow> sb_puts out (if b then ascii ''true'' else ascii ''false'')
     | JString str \<Rightarrow> emit_string out (str @ [0])
     | JNumber num \<Rightarrow> emit_number fmt out num
     | JArray es \<Rightarrow> bindO (sb_putc out 0x5B) (\<lambda>out.
         bindO (emit_array_elements fmt out es) (\<lambda>out. sb_putc out 0x5D))
     | JObject ms \<Rightarrow> bindO (sb_putc out 0x7B) (\<lambda>out.
         bindO (emit_object_members fmt out ms) (\<lambda>out. sb_putc out 0x7D)))"
| "emit_array_elements fmt out [] = Ret out"
| "emit_array_elements fmt out (element # rest) =
     bindO (emit_value fmt out element) (\<lambda>out.
     bindO (if rest \<noteq> [] then sb_putc out 0x2C else Ret out) (\<lambda>out.
     emit_array_elements fmt out rest))"
| "emit_object_members fmt out [] = Ret out"
| "emit_object_members fmt out ((key, member) # rest) =
     bindO (emit_string out (key @ [0])) (\<lambda>out.
     bindO (sb_putc out 0x3A) (\<lambda>out.
     bindO (emit_value fmt out member) (\<lambda>out.
     bindO (if rest \<noteq> [] then sb_putc out 0x2C else Ret out) (\<lambda>out.
     emit_object_members fmt out rest))))"

declare emit_value.simps [simp del]

text \<open>\<open>for (i = 0; i < indent_level; i++) sb_puts(out, space);\<close>\<close>

fun emit_indent :: "SB \<Rightarrow> byte list \<Rightarrow> nat \<Rightarrow> SB outcome" where
  "emit_indent out space 0 = Ret out"
| "emit_indent out space (Suc i) = bindO (sb_puts out space) (\<lambda>out. emit_indent out space i)"

function (sequential) emit_value_indented :: "('d \<Rightarrow> byte list) \<Rightarrow> SB \<Rightarrow> 'd json \<Rightarrow> byte list \<Rightarrow> nat \<Rightarrow> SB outcome"
and emit_elements_indented :: "('d \<Rightarrow> byte list) \<Rightarrow> SB \<Rightarrow> 'd json list \<Rightarrow> byte list \<Rightarrow> nat \<Rightarrow> SB outcome"
and emit_members_indented ::
  "('d \<Rightarrow> byte list) \<Rightarrow> SB \<Rightarrow> (byte list \<times> 'd json) list \<Rightarrow> byte list \<Rightarrow> nat \<Rightarrow> SB outcome" where
  "emit_value_indented fmt out node space indent_level =
     bindO (assertO (tag_is_valid (tag_of node))) (\<lambda>_.
     case node of
       JNull \<Rightarrow> sb_puts out (ascii ''null'')
     | JBool b \<Rightarrow> sb_puts out (if b then ascii ''true'' else ascii ''false'')
     | JString str \<Rightarrow> emit_string out (str @ [0])
     | JNumber num \<Rightarrow> emit_number fmt out num
     | JArray es \<Rightarrow>
         if es = [] then sb_puts out (ascii ''[]'')
         else bindO (sb_puts out [0x5B, 0x0A]) (\<lambda>out.
           bindO (emit_elements_indented fmt out es space indent_level) (\<lambda>out.
           bindO (emit_indent out space indent_level) (\<lambda>out. sb_putc out 0x5D)))
     | JObject ms \<Rightarrow>
         if ms = [] then sb_puts out (ascii ''{}'')
         else bindO (sb_puts out [0x7B, 0x0A]) (\<lambda>out.
           bindO (emit_members_indented fmt out ms space indent_level) (\<lambda>out.
           bindO (emit_indent out space indent_level) (\<lambda>out. sb_putc out 0x7D))))"
| "emit_elements_indented fmt out [] space indent_level = Ret out"
| "emit_elements_indented fmt out (element # rest) space indent_level =
     bindO (emit_indent out space (indent_level + 1)) (\<lambda>out.
     bindO (emit_value_indented fmt out element space (indent_level + 1)) (\<lambda>out.
     bindO (sb_puts out (if rest \<noteq> [] then [0x2C, 0x0A] else [0x0A])) (\<lambda>out.
     emit_elements_indented fmt out rest space indent_level)))"
| "emit_members_indented fmt out [] space indent_level = Ret out"
| "emit_members_indented fmt out ((key, member) # rest) space indent_level =
     bindO (emit_indent out space (indent_level + 1)) (\<lambda>out.
     bindO (emit_string out (key @ [0])) (\<lambda>out.
     bindO (sb_puts out [0x3A, 0x20]) (\<lambda>out.
     bindO (emit_value_indented fmt out member space (indent_level + 1)) (\<lambda>out.
     bindO (sb_puts out (if rest \<noteq> [] then [0x2C, 0x0A] else [0x0A])) (\<lambda>out.
     emit_members_indented fmt out rest space indent_level)))))"
  by pat_completeness auto
termination
  by (relation "measure (\<lambda>x. case x of
        Inl (_, _, node, _) \<Rightarrow> size node
      | Inr (Inl (_, _, es, _)) \<Rightarrow> size_list size es
      | Inr (Inr (_, _, ms, _)) \<Rightarrow> size_list (size_prod (\<lambda>_. 0) size) ms)") auto

declare emit_value_indented.simps [simp del]

text \<open>The result is the buffer with its terminator; \<open>space\<close> is \<open>None\<close> for a null pointer.\<close>

definition json_stringify :: "('d \<Rightarrow> byte list) \<Rightarrow> 'd json \<Rightarrow> byte list option \<Rightarrow> cursor outcome" where
  "json_stringify fmt node space =
     bindO (case space of
         Some sp \<Rightarrow> emit_value_indented fmt sb_init node sp 0
       | None \<Rightarrow> emit_value fmt sb_init node) sb_finish"

definition json_encode :: "('d \<Rightarrow> byte list) \<Rightarrow> 'd json \<Rightarrow> cursor outcome" where
  "json_encode fmt node = json_stringify fmt node None"

definition json_encode_string :: "cursor \<Rightarrow> cursor outcome" where
  "json_encode_string str = bindO (emit_string sb_init str) sb_finish"

section \<open>The reference encoder\<close>

text \<open>
  The texts as functions of the values, without a buffer: \<open>encode_value sp v\<close> for a null
  pointer \<open>sp\<close> is the compact text, otherwise the indented one at a level.
\<close>

definition char_code :: "bool \<Rightarrow> u32 \<Rightarrow> byte list" where
  "char_code esc u =
     (if u = 0x22 then [0x5C, 0x22] else if u = 0x5C then [0x5C, 0x5C]
      else if u = 0x08 then [0x5C, 0x62] else if u = 0x0C then [0x5C, 0x66]
      else if u = 0x0A then [0x5C, 0x6E] else if u = 0x0D then [0x5C, 0x72]
      else if u = 0x09 then [0x5C, 0x74]
      else if u < 0x1F \<or> 0x80 \<le> u \<and> esc then
        (case to_surrogate_pair u of
           Ret (uc, lc) \<Rightarrow> 0x5C # 0x75 # write_hex16 uc @ 0x5C # 0x75 # write_hex16 lc
         | Fault e \<Rightarrow> 0x5C # 0x75 # write_hex16 (ucast u))
      else utf8_bytes u)"

function utf8_chars :: "byte list \<Rightarrow> u32 list" where
  "utf8_chars s =
     (if s = [] then []
      else case utf8_read_char (s @ [0]) of Ret (u, n) \<Rightarrow> u # utf8_chars (drop n s) | Fault e \<Rightarrow> [])"
  by pat_completeness auto
termination
  by (relation "measure length") (auto dest: read_char_length)

declare utf8_chars.simps [simp del]

definition string_code :: "bool \<Rightarrow> byte list \<Rightarrow> byte list" where
  "string_code esc str = 0x22 # concat (map (char_code esc) (utf8_chars str)) @ [0x22]"

definition number_code :: "('d \<Rightarrow> byte list) \<Rightarrow> 'd \<Rightarrow> byte list" where
  "number_code fmt num = (if number_is_valid (fmt num @ [0]) = Ret True then fmt num else ascii ''null'')"

fun join :: "byte list \<Rightarrow> byte list list \<Rightarrow> byte list" where
  "join sep [] = []"
| "join sep [b] = b"
| "join sep (b # bs) = b @ sep @ join sep bs"

definition indent :: "byte list \<Rightarrow> nat \<Rightarrow> byte list" where
  "indent sp n = concat (replicate n sp)"

fun encode :: "('d \<Rightarrow> byte list) \<Rightarrow> 'd json \<Rightarrow> byte list" where
  "encode fmt JNull = ascii ''null''"
| "encode fmt (JBool b) = (if b then ascii ''true'' else ascii ''false'')"
| "encode fmt (JString str) = string_code False str"
| "encode fmt (JNumber num) = number_code fmt num"
| "encode fmt (JArray es) = 0x5B # join [0x2C] (map (encode fmt) es) @ [0x5D]"
| "encode fmt (JObject ms) = 0x7B # join [0x2C] (map (\<lambda>(k, v). string_code False k @ 0x3A # encode fmt v) ms) @ [0x7D]"

fun encode_indented :: "('d \<Rightarrow> byte list) \<Rightarrow> byte list \<Rightarrow> nat \<Rightarrow> 'd json \<Rightarrow> byte list" where
  "encode_indented fmt sp n (JArray es) =
     (if es = [] then ascii ''[]''
      else [0x5B, 0x0A] @ join [0x2C, 0x0A] (map (\<lambda>e. indent sp (n + 1) @ encode_indented fmt sp (n + 1) e) es)
        @ [0x0A] @ indent sp n @ [0x5D])"
| "encode_indented fmt sp n (JObject ms) =
     (if ms = [] then ascii ''{}''
      else [0x7B, 0x0A] @ join [0x2C, 0x0A] (map (\<lambda>(k, v). indent sp (n + 1) @ string_code False k @ [0x3A, 0x20]
          @ encode_indented fmt sp (n + 1) v) ms) @ [0x0A] @ indent sp n @ [0x7D])"
| "encode_indented fmt sp n v = encode fmt v"

section \<open>Strings\<close>

lemma utf8_chars_bytes: "list_all is_scalar us \<Longrightarrow> utf8_chars (concat (map utf8_bytes us)) = us"
proof (induction us)
  case Nil
  show ?case by (simp add: utf8_chars.simps [of "[]"])
next
  case (Cons u us)
  note w = write_then_read [OF _ write_char_bytes, of u]
  from Cons w(1) w(4) [of "concat (map utf8_bytes us) @ [0]"] show ?case
    by (simp add: utf8_chars.simps [of "utf8_bytes u @ concat (map utf8_bytes us)"])
qed

lemma to_surrogate_pair_cases:
  "is_scalar u \<Longrightarrow> (u \<le> 0xFFFF \<and> to_surrogate_pair u = Fault Assert_failed) \<or> (\<not> u \<le> 0xFFFF \<and> u \<le> 0x10FFFF \<and>
     (\<exists>uc lc. to_surrogate_pair u = Ret (uc, lc) \<and> from_surrogate_pair uc lc = Some u))"
proof (cases "u \<le> 0xFFFF")
  case False
  assume "is_scalar u"
  with False have "0x10000 \<le> u" "u \<le> 0x10FFFF" by (simp_all add: is_scalar_def byte_nat)
  from surrogates_roundtrip [OF this] False \<open>u \<le> 0x10FFFF\<close> show ?thesis by metis
qed (simp add: to_surrogate_pair_def byte_nat)

lemma emit_char:
  assumes "is_scalar u" "u \<noteq> 0"
  shows "emit_string_char esc (utf8_bytes u @ t) = Ret (char_code esc u, t)"
proof -
  note w = write_then_read [OF assms(1) write_char_bytes [OF assms(1)]]
  from w(1) obtain c r where c: "utf8_bytes u = c # r" by (cases "utf8_bytes u") auto
  show ?thesis
  proof (cases "c \<le> 0x7F")
    case True
    from ascii_lead [OF assms(1) c True] have u: "u = ucast c" .
    then have un: "unat u = unat c" by (simp add: unat_shifted)
    from un True have "utf8_bytes u = [ucast u]"
      by (simp add: utf8_bytes_def utf8_write_char_def assms(1) byte_nat)
    with c have r: "r = []" by simp
    have eqs: "u = k \<longleftrightarrow> c = j" if "unat k = unat j" for k j using un that by (simp add: word_unat_eq_iff)
    from True un have "\<not> 0x80 \<le> c" "\<not> 0x80 \<le> u" "u \<le> 0xFFFF" by (simp_all add: byte_nat)
    moreover from un have "c < 0x1F \<longleftrightarrow> u < 0x1F" by (simp add: byte_nat)
    moreover have "to_surrogate_pair u = Fault Assert_failed"
      using to_surrogate_pair_cases [OF assms(1)] \<open>u \<le> 0xFFFF\<close> by auto
    ultimately show ?thesis
      using w(3) [of t] w(4) [of t]
      by (simp add: emit_string_char_def char_code_def c r eqs [of "0x22" "0x22"] eqs [of "0x5C" "0x5C"] eqs [of "0x08" "0x08"]
        eqs [of "0x0C" "0x0C"] eqs [of "0x0A" "0x0A"] eqs [of "0x0D" "0x0D"] eqs [of "0x09" "0x09"])
  next
    case False
    have "\<not> unat u < 128"
    proof
      assume u: "unat u < 128"
      then have "utf8_bytes u = [ucast u]" by (simp add: utf8_bytes_def utf8_write_char_def assms(1) byte_nat)
      with c have "c = ucast u" by simp
      with u False show False by (simp add: byte_nat unsigned_ucast_eq take_bit_nat_eq_self)
    qed
    then have "0x80 \<le> c" "0x80 \<le> u" "\<not> c < 0x1F" "\<not> u < 0x1F" "u \<noteq> 0x22" "u \<noteq> 0x5C" "u \<noteq> 0x08" "u \<noteq> 0x0C" "u \<noteq> 0x0A"
      "u \<noteq> 0x0D" "u \<noteq> 0x09" "c \<noteq> 0x22" "c \<noteq> 0x5C" "c \<noteq> 0x08" "c \<noteq> 0x0C" "c \<noteq> 0x0A" "c \<noteq> 0x0D" "c \<noteq> 0x09"
      using False by (auto simp: byte_nat)
    with w(1) w(3) [of t] w(4) [of t] to_surrogate_pair_cases [OF assms(1)] c show ?thesis
      by (auto simp: emit_string_char_def char_code_def)
  qed
qed

lemma write_hex16_length [simp]: "length (write_hex16 v) = 4"
  by (simp add: write_hex16_def)

lemma char_code_length: "is_scalar u \<Longrightarrow> length (char_code esc u) \<le> 12"
  using write_then_read(2) [OF _ write_char_bytes, of u]
  by (auto simp: char_code_def split: outcome.split)

lemma hex_char: "k < 16 \<Longrightarrow> \<exists>x. hex_digit (hex_chars ! k) = Some x \<and> unat x = k"
proof -
  assume "k < 16"
  then have "k = 0 \<or> k = 1 \<or> k = 2 \<or> k = 3 \<or> k = 4 \<or> k = 5 \<or> k = 6 \<or> k = 7 \<or> k = 8 \<or> k = 9 \<or> k = 10 \<or> k = 11
    \<or> k = 12 \<or> k = 13 \<or> k = 14 \<or> k = 15" by arith
  then show ?thesis
    by (elim disjE) (simp_all add: hex_chars_def ascii_def hex_digit_def)
qed

lemma hex4_write: "hex4 v (write_hex16 v)"
proof -
  define n where "n = unat v"
  have n: "n < 65536" using unsigned_less [of v, where ?'a = nat] by (simp add: n_def)
  have ks: "unat (drop_bit 12 v AND 0xF) = n div 4096 mod 16" "unat (drop_bit 8 v AND 0xF) = n div 256 mod 16"
    "unat (drop_bit 4 v AND 0xF) = n div 16 mod 16" "unat (v AND 0xF) = n mod 16"
    using n by (simp_all add: unat_bits n_def [symmetric])
  obtain xa xc xd xe where "hex_digit (hex_chars ! (n div 4096 mod 16)) = Some xa" "unat xa = n div 4096 mod 16"
    "hex_digit (hex_chars ! (n div 256 mod 16)) = Some xc" "unat xc = n div 256 mod 16"
    "hex_digit (hex_chars ! (n div 16 mod 16)) = Some xd" "unat xd = n div 16 mod 16"
    "hex_digit (hex_chars ! (n mod 16)) = Some xe" "unat xe = n mod 16"
    using hex_char [of "n div 4096 mod 16"] hex_char [of "n div 256 mod 16"] hex_char [of "n div 16 mod 16"] hex_char [of "n mod 16"]
    by auto
  moreover have "n = ((n div 4096 mod 16 * 16 + n div 256 mod 16) * 16 + n div 16 mod 16) * 16 + n mod 16"
  proof -
    have d: "n div 4096 mod 16 = n div 16 div 16 div 16" "n div 256 = n div 16 div 16"
      using n by (simp_all add: div_mult2_eq [symmetric])
    show ?thesis unfolding d div_mult_mod_eq ..
  qed
  ultimately show ?thesis unfolding hex4_def write_hex16_def ks n_def [symmetric] by auto
qed

section \<open>The emitter writes the reference encoding\<close>

definition sb_14 :: "SB \<Rightarrow> bool" where
  "sb_14 sb \<longleftrightarrow> sb_wf sb \<and> 13 \<le> sb_room sb"

lemma emit_string_loop_appends:
  "list_all (\<lambda>u. is_scalar u \<and> u \<noteq> 0) us \<Longrightarrow> sb_14 sb \<Longrightarrow>
     ensures (emit_string_loop esc sb (concat (map utf8_bytes us) @ 0 # t))
       (\<lambda>sb'. sb_14 sb' \<and> sb_bytes sb' = sb_bytes sb @ concat (map (char_code esc) us))"
proof (induction us arbitrary: sb)
  case Nil
  then show ?case by (simp add: emit_string_loop.simps [of esc sb "0 # t"])
next
  case (Cons u us)
  let ?s = "utf8_bytes u @ concat (map utf8_bytes us) @ 0 # t"
  from Cons.prems have u: "is_scalar u" "u \<noteq> 0" by simp_all
  from utf8_bytes_string_char [OF u] obtain c r where c: "utf8_bytes u = c # r" "c \<noteq> 0"
    by (cases "utf8_bytes u") (auto simp: string_char_def)
  note e = emit_char [OF u, of esc "concat (map utf8_bytes us) @ 0 # t"]
  have "ensures (bindO (sb_store sb (char_code esc u)) (\<lambda>out. bindO (sb_need out 14) (\<lambda>out.
        emit_string_loop esc out (concat (map utf8_bytes us) @ 0 # t))))
      (\<lambda>sb'. sb_14 sb' \<and> sb_bytes sb' = sb_bytes sb @ char_code esc u @ concat (map (char_code esc) us))"
  proof (rule ensures_bindO [OF sb_store_ensures])
    show "sb_wf sb" "length (char_code esc u) \<le> sb_room sb"
      using Cons.prems char_code_length [OF u(1), of esc] by (auto simp: sb_14_def)
    fix sb1 assume sb1: "sb_wf sb1 \<and> sb_bytes sb1 = sb_bytes sb @ char_code esc u \<and>
        sb_room sb1 = sb_room sb - length (char_code esc u)"
    show "ensures (bindO (sb_need sb1 14) (\<lambda>out. emit_string_loop esc out (concat (map utf8_bytes us) @ 0 # t)))
      (\<lambda>sb'. sb_14 sb' \<and> sb_bytes sb' = sb_bytes sb @ char_code esc u @ concat (map (char_code esc) us))"
    proof (rule ensures_bindO [OF sb_need_ensures])
      fix sb2 assume "sb_wf sb2 \<and> sb_bytes sb2 = sb_bytes sb1 \<and> 14 \<le> sb_room sb2"
      with Cons.IH [of sb2] Cons.prems sb1
      show "ensures (emit_string_loop esc sb2 (concat (map utf8_bytes us) @ 0 # t))
        (\<lambda>sb'. sb_14 sb' \<and> sb_bytes sb' = sb_bytes sb @ char_code esc u @ concat (map (char_code esc) us))"
        by (auto simp: sb_14_def elim!: ensures_mono)
    qed (use sb1 in simp)
  qed
  with e c show ?case by (simp add: emit_string_loop.simps [of esc sb "c # r @ concat (map utf8_bytes us) @ 0 # t"])
qed

lemma str_okE:
  assumes "str_ok str"
  obtains us where "str = concat (map utf8_bytes us)" "list_all (\<lambda>u. is_scalar u \<and> u \<noteq> 0) us" "utf8_chars str = us"
proof -
  from assms obtain us where us: "list_all is_scalar us" "str = concat (map utf8_bytes us)" "0 \<notin> set str"
    by (auto simp: str_ok_iff utf8_text_def)
  have "utf8_bytes 0 = [0]" by (simp add: utf8_bytes_def utf8_write_char_def is_scalar_def)
  with us have "0 \<notin> set us" by force
  with us(1) have "list_all (\<lambda>u. is_scalar u \<and> u \<noteq> 0) us" by (auto simp: list_all_iff)
  with us that utf8_chars_bytes show ?thesis by blast
qed

lemma emit_string_as_appends:
  assumes "str_ok str" "sb_wf sb"
  shows "appends sb (string_code esc str) (emit_string_as esc sb (str @ [0]))"
proof -
  from assms(1) obtain us where us: "str = concat (map utf8_bytes us)" "list_all (\<lambda>u. is_scalar u \<and> u \<noteq> 0) us"
    "utf8_chars str = us" by (rule str_okE)
  from assms(1) have v: "utf8_validate (str @ [0]) = Ret True" by (simp add: str_ok_def)
  have "ensures (bindO (sb_need sb 14) (\<lambda>out. bindO (sb_store out [0x22]) (\<lambda>out.
     bindO (emit_string_loop esc out (str @ [0])) (\<lambda>out. sb_store out [0x22]))))
     (\<lambda>sb'. sb_wf sb' \<and> sb_bytes sb' = sb_bytes sb @ string_code esc str)"
  proof (rule ensures_bindO [OF sb_need_ensures [OF assms(2)]], rule ensures_bindO [OF sb_store_ensures])
    fix sb1 sb2 assume sb1: "sb_wf sb1 \<and> sb_bytes sb1 = sb_bytes sb \<and> 14 \<le> sb_room sb1"
      and "sb_wf sb2 \<and> sb_bytes sb2 = sb_bytes sb1 @ [0x22] \<and> sb_room sb2 = sb_room sb1 - length [0x22 :: byte]"
    then have sb2: "sb_14 sb2" "sb_bytes sb2 = sb_bytes sb @ [0x22]" by (auto simp: sb_14_def)
    show "ensures (bindO (emit_string_loop esc sb2 (str @ [0])) (\<lambda>out. sb_store out [0x22]))
       (\<lambda>sb'. sb_wf sb' \<and> sb_bytes sb' = sb_bytes sb @ string_code esc str)"
      unfolding us(1)
    proof (rule ensures_bindO [OF emit_string_loop_appends [OF us(2) sb2(1)]])
      fix sb3 assume "sb_14 sb3 \<and> sb_bytes sb3 = sb_bytes sb2 @ concat (map (char_code esc) us)"
      with sb_store_ensures [of sb3 "[0x22]"] sb2(2) us
      show "ensures (sb_store sb3 [0x22])
        (\<lambda>sb'. sb_wf sb' \<and> sb_bytes sb' = sb_bytes sb @ string_code esc (concat (map utf8_bytes us)))"
        by (auto simp: sb_14_def string_code_def elim!: ensures_mono)
    qed
  qed (auto)
  with v show ?thesis by (simp add: emit_string_as_def appends_def)
qed

lemma emit_string_appends: "str_ok str \<Longrightarrow> sb_wf sb \<Longrightarrow> appends sb (string_code False str) (emit_string sb (str @ [0]))"
  unfolding emit_string_def by (rule emit_string_as_appends)

lemma emit_string_invalid:
  assumes "0 \<notin> set str" "\<not> str_ok str"
  shows "emit_string sb (str @ [0]) = Fault Assert_failed"
  using assms validate_text [of str "[]"] by (auto simp: emit_string_def emit_string_as_def str_ok_iff)

text \<open>What is relied on of \<open>sprintf\<close>: a double needs at most 63 characters, none of them NUL.\<close>

definition fmt_ok :: "('d \<Rightarrow> byte list) \<Rightarrow> bool" where
  "fmt_ok fmt \<longleftrightarrow> (\<forall>num. length (fmt num) < 64 \<and> 0 \<notin> set (fmt num))"

lemma number_is_valid_ensures: "terminated s \<Longrightarrow> ensures (number_is_valid s) (\<lambda>_. True)"
  unfolding number_is_valid_def
  by (rule ensures_bindO [OF parse_number_ensures])
    (auto simp: consumes_def split: parsed.split intro!: ensures_bindO [OF rd_terminated])

lemma emit_number_appends:
  assumes "fmt_ok fmt" "sb_wf sb"
  shows "appends sb (number_code fmt num) (emit_number fmt sb num)"
proof -
  from number_is_valid_ensures [of "fmt num @ [0]"] obtain v where "number_is_valid (fmt num @ [0]) = Ret v"
    by (auto simp: ensures_iff)
  moreover from assms(1) have "length (fmt num) < 64" by (simp add: fmt_ok_def)
  then have "\<not> length (fmt num) + 1 > 64" by linarith
  ultimately show ?thesis using assms(2)
    unfolding emit_number_def number_code_def by (cases v) (simp_all add: sb_puts_appends)
qed

lemma tag_valid [simp]: "tag_is_valid tag"
  by (cases tag) (simp_all add: tag_is_valid_def less_eq_JsonTag_def)

lemma join_Cons: "join sep (b # bs) = b @ (if bs \<noteq> [] then sep else []) @ join sep bs"
  by (cases bs) auto

lemma appends_if: "(b \<Longrightarrow> appends sb x m) \<Longrightarrow> (\<not> b \<Longrightarrow> appends sb y k) \<Longrightarrow> appends sb (if b then x else y) (if b then m else k)"
  by simp

lemma appends_nothing [simp]: "sb_wf sb \<Longrightarrow> appends sb [] (Ret sb)"
  by simp

text \<open>What a value's emission promises, at every state of the buffer.\<close>

definition emits :: "(SB \<Rightarrow> SB outcome) \<Rightarrow> byte list \<Rightarrow> bool" where
  "emits f b \<longleftrightarrow> (\<forall>sb. sb_wf sb \<longrightarrow> appends sb b (f sb))"

lemma emitsD: "emits f b \<Longrightarrow> sb_wf sb \<Longrightarrow> appends sb b (f sb)"
  by (simp add: emits_def)

named_theorems emits_intros \<open>what the pieces of an emitter write\<close>

lemma emits_bindO [emits_intros]: "emits f a \<Longrightarrow> emits g b \<Longrightarrow> emits (\<lambda>sb. bindO (f sb) g) (a @ b)"
  by (auto simp: emits_def intro!: appends_bindO)

lemma emits_Cons: "emits f [c] \<Longrightarrow> emits g b \<Longrightarrow> emits (\<lambda>sb. bindO (f sb) g) (c # b)"
  using emits_bindO [of f "[c]" g b] by simp

lemma emits_basic [emits_intros]:
  "emits (\<lambda>sb. sb_puts sb b) b" "emits (\<lambda>sb. sb_putc sb c) [c]" "emits Ret []"
  "str_ok str \<Longrightarrow> emits (\<lambda>sb. emit_string sb (str @ [0])) (string_code False str)"
  "fmt_ok fmt \<Longrightarrow> emits (\<lambda>sb. emit_number fmt sb num) (number_code fmt num)"
  by (auto simp: emits_def intro: emit_string_appends emit_number_appends)

lemma emits_if: "(b \<Longrightarrow> emits f x) \<Longrightarrow> (\<not> b \<Longrightarrow> emits g y) \<Longrightarrow> emits (\<lambda>sb. if b then f sb else g sb) (if b then x else y)"
  by simp

lemma emits_elements:
  "(\<And>e. e \<in> set es \<Longrightarrow> emits (\<lambda>sb. emit_value fmt sb e) (encode fmt e)) \<Longrightarrow>
     emits (\<lambda>sb. emit_array_elements fmt sb es) (join [0x2C] (map (encode fmt) es))"
proof (induction es)
  case (Cons e es)
  then show ?case unfolding emit_array_elements.simps list.map join_Cons
    by (intro emits_bindO emits_if) (auto intro: emits_intros)
qed (simp add: emits_intros)

lemma emits_members:
  "(\<And>m. m \<in> set ms \<Longrightarrow> str_ok (fst m) \<and> emits (\<lambda>sb. emit_value fmt sb (snd m)) (encode fmt (snd m))) \<Longrightarrow>
     emits (\<lambda>sb. emit_object_members fmt sb ms) (join [0x2C] (map (\<lambda>(k, v). string_code False k @ 0x3A # encode fmt v) ms))"
proof (induction ms)
  case (Cons m ms)
  obtain k v where m: "m = (k, v)" by (cases m)
  have "emits (\<lambda>sb. emit_object_members fmt sb (m # ms))
      (string_code False k @ [0x3A] @ encode fmt v @ (if ms \<noteq> [] then [0x2C] else []) @
        join [0x2C] (map (\<lambda>(k, v). string_code False k @ 0x3A # encode fmt v) ms))"
    using Cons.IH Cons.prems [of m] Cons.prems unfolding emit_object_members.simps m
    by (intro emits_bindO emits_if) (auto intro: emits_intros)
  then show ?case by (simp add: m join_Cons)
qed (simp add: emits_intros)

lemma emits_value:
  assumes "fmt_ok fmt"
  shows "json_wf v \<Longrightarrow> emits (\<lambda>sb. emit_value fmt sb v) (encode fmt v)"
proof (induction v)
  case (JArray es)
  then have "emits (\<lambda>sb. emit_array_elements fmt sb es) (join [0x2C] (map (encode fmt) es))"
    by (intro emits_elements) auto
  then show ?case by (auto simp: emit_value.simps intro!: emits_intros emits_Cons)
next
  case (JObject ms)
  then have "emits (\<lambda>sb. emit_object_members fmt sb ms) (join [0x2C] (map (\<lambda>(k, v). string_code False k @ 0x3A # encode fmt v) ms))"
    by (intro emits_members) (auto simp: prod_set_defs)
  then show ?case by (auto simp: emit_value.simps intro!: emits_intros emits_Cons)
qed (use assms in \<open>auto simp: emit_value.simps intro: emits_intros\<close>)

section \<open>The indented texts\<close>

lemma emits_indent [emits_intros]: "emits (\<lambda>sb. emit_indent sb sp n) (indent sp n)"
proof (induction n)
  case (Suc n)
  have "indent sp (Suc n) = sp @ indent sp n" by (simp add: indent_def)
  with Suc show ?case by (auto intro: emits_intros)
qed (simp add: indent_def emits_intros)

lemma emits_newline:
  "emits (\<lambda>sb. sb_puts sb (if b then [0x2C, 0x0A] else [0x0A])) (if b then [0x2C, 0x0A] else [0x0A])"
  by (rule emits_intros)

lemma emits_elements_indented:
  "es \<noteq> [] \<Longrightarrow> (\<And>e. e \<in> set es \<Longrightarrow> emits (\<lambda>sb. emit_value_indented fmt sb e sp (n + 1)) (encode_indented fmt sp (n + 1) e)) \<Longrightarrow>
     emits (\<lambda>sb. emit_elements_indented fmt sb es sp n)
       (join [0x2C, 0x0A] (map (\<lambda>e. indent sp (n + 1) @ encode_indented fmt sp (n + 1) e) es) @ [0x0A])"
proof (induction es)
  case (Cons e es)
  let ?rest = "if es = [] then [] else join [0x2C, 0x0A] (map (\<lambda>e. indent sp (n + 1) @ encode_indented fmt sp (n + 1) e) es) @ [0x0A]"
  have "emits (\<lambda>sb. emit_elements_indented fmt sb es sp n) ?rest"
    using Cons by (auto simp: emits_intros)
  with Cons.prems(2) have "emits (\<lambda>sb. emit_elements_indented fmt sb (e # es) sp n)
     (indent sp (n + 1) @ encode_indented fmt sp (n + 1) e @ (if es \<noteq> [] then [0x2C, 0x0A] else [0x0A]) @ ?rest)"
    unfolding emit_elements_indented.simps by (intro emits_intros) auto
  then show ?case by (auto simp: join_Cons)
qed simp

lemma emits_members_indented:
  "ms \<noteq> [] \<Longrightarrow> (\<And>m. m \<in> set ms \<Longrightarrow> str_ok (fst m) \<and>
       emits (\<lambda>sb. emit_value_indented fmt sb (snd m) sp (n + 1)) (encode_indented fmt sp (n + 1) (snd m))) \<Longrightarrow>
     emits (\<lambda>sb. emit_members_indented fmt sb ms sp n)
       (join [0x2C, 0x0A] (map (\<lambda>(k, v). indent sp (n + 1) @ string_code False k @ [0x3A, 0x20]
          @ encode_indented fmt sp (n + 1) v) ms) @ [0x0A])"
proof (induction ms)
  case (Cons m ms)
  obtain k v where m: "m = (k, v)" by (cases m)
  let ?rest = "if ms = [] then [] else join [0x2C, 0x0A] (map (\<lambda>(k, v). indent sp (n + 1) @ string_code False k
    @ [0x3A, 0x20] @ encode_indented fmt sp (n + 1) v) ms) @ [0x0A]"
  have "emits (\<lambda>sb. emit_members_indented fmt sb ms sp n) ?rest"
    using Cons by (auto simp: emits_intros)
  with Cons.prems(2) [of m] have "emits (\<lambda>sb. emit_members_indented fmt sb (m # ms) sp n)
     (indent sp (n + 1) @ string_code False k @ [0x3A, 0x20] @ encode_indented fmt sp (n + 1) v
       @ (if ms \<noteq> [] then [0x2C, 0x0A] else [0x0A]) @ ?rest)"
    unfolding emit_members_indented.simps m by (intro emits_intros) auto
  then show ?case by (auto simp: m join_Cons)
qed simp

lemma emit_indented_nonempty:
  "es \<noteq> [] \<Longrightarrow> emit_value_indented fmt out (JArray es) sp n =
     bindO (sb_puts out [0x5B, 0x0A]) (\<lambda>out. bindO (emit_elements_indented fmt out es sp n) (\<lambda>out.
     bindO (emit_indent out sp n) (\<lambda>out. sb_putc out 0x5D)))"
  "ms \<noteq> [] \<Longrightarrow> emit_value_indented fmt out (JObject ms) sp n =
     bindO (sb_puts out [0x7B, 0x0A]) (\<lambda>out. bindO (emit_members_indented fmt out ms sp n) (\<lambda>out.
     bindO (emit_indent out sp n) (\<lambda>out. sb_putc out 0x7D)))"
  by (simp_all add: emit_value_indented.simps)

lemma emits_value_indented:
  assumes "fmt_ok fmt"
  shows "json_wf v \<Longrightarrow> emits (\<lambda>sb. emit_value_indented fmt sb v sp n) (encode_indented fmt sp n v)"
proof (induction v arbitrary: n)
  case (JArray es)
  show ?case
  proof (cases "es = []")
    case False
    with JArray have es: "emits (\<lambda>sb. emit_elements_indented fmt sb es sp n)
       (join [0x2C, 0x0A] (map (\<lambda>e. indent sp (n + 1) @ encode_indented fmt sp (n + 1) e) es) @ [0x0A])"
      by (intro emits_elements_indented) auto
    have "emits (\<lambda>sb. emit_value_indented fmt sb (JArray es) sp n)
       ([0x5B, 0x0A] @ (join [0x2C, 0x0A] (map (\<lambda>e. indent sp (n + 1) @ encode_indented fmt sp (n + 1) e) es) @ [0x0A])
        @ indent sp n @ [0x5D])"
      unfolding emit_indented_nonempty(1) [OF False] by (intro emits_bindO emits_basic emits_indent es)
    with False show ?thesis by simp
  qed (simp add: emit_value_indented.simps emits_intros)
next
  case (JObject ms)
  show ?case
  proof (cases "ms = []")
    case False
    with JObject have ms: "emits (\<lambda>sb. emit_members_indented fmt sb ms sp n)
       (join [0x2C, 0x0A] (map (\<lambda>(k, v). indent sp (n + 1) @ string_code False k @ [0x3A, 0x20]
          @ encode_indented fmt sp (n + 1) v) ms) @ [0x0A])"
      by (intro emits_members_indented) (auto simp: prod_set_defs)
    have "emits (\<lambda>sb. emit_value_indented fmt sb (JObject ms) sp n)
       ([0x7B, 0x0A] @ (join [0x2C, 0x0A] (map (\<lambda>(k, v). indent sp (n + 1) @ string_code False k @ [0x3A, 0x20]
          @ encode_indented fmt sp (n + 1) v) ms) @ [0x0A]) @ indent sp n @ [0x7D])"
      unfolding emit_indented_nonempty(2) [OF False] by (intro emits_bindO emits_basic emits_indent ms)
    with False show ?thesis by simp
  qed (simp add: emit_value_indented.simps emits_intros)
qed (use assms in \<open>auto simp: emit_value_indented.simps intro: emits_intros\<close>)

end
