(* ===== verification/JsonRoundtrip.thy ===== *)
theory JsonRoundtrip
  imports JsonEmit
begin

text \<open>
  The emitter against the grammar: what \<open>json_encode\<close> and \<open>json_stringify\<close> write is valid
  UTF-8 without NUL and, when no string holds the byte 0x1F, a text of the language that decodes
  to the value. The byte 0x1F is the exception in the source: the emitter escapes the bytes below
  it, the parser rejects it as well.
\<close>

section \<open>C strings in UTF-8\<close>

lemma str_ok_append: "str_ok a \<Longrightarrow> str_ok b \<Longrightarrow> str_ok (a @ b)"
  by (auto simp: str_ok_iff utf8_text_append)

lemma str_ok_Nil [simp]: "str_ok []"
  by (simp add: str_ok_iff)

lemma str_ok_Cons: "c \<noteq> 0 \<Longrightarrow> c \<le> 0x7F \<Longrightarrow> str_ok b \<Longrightarrow> str_ok (c # b)"
  using str_ok_append [of "[c]" b] ascii_string_char [of c] by (simp add: str_ok_iff string_char_def)

lemma str_ok_ascii: "(\<And>c. c \<in> set b \<Longrightarrow> c \<noteq> 0 \<and> c \<le> 0x7F) \<Longrightarrow> str_ok b"
  by (induction b) (auto intro: str_ok_Cons)

lemma str_ok_concat: "(\<And>b. b \<in> set bs \<Longrightarrow> str_ok b) \<Longrightarrow> str_ok (concat bs)"
  by (induction bs) (auto intro: str_ok_append)

lemma str_ok_join: "(\<And>b. b \<in> set bs \<Longrightarrow> str_ok b) \<Longrightarrow> str_ok sep \<Longrightarrow> str_ok (join sep bs)"
  by (induction bs) (auto simp: join_Cons intro!: str_ok_append)

lemma hex4_ascii:
  assumes "hex4 v h" "c \<in> set h"
  shows "c \<noteq> 0 \<and> c \<le> 0x7F"
proof -
  from assms obtain x where "hex_digit c = Some x" by (auto simp: hex4_def)
  then show ?thesis by (auto simp: hex_digit_def byte_nat split: if_splits)
qed

lemma str_ok_hex: "str_ok (write_hex16 v)"
  by (rule str_ok_ascii) (rule hex4_ascii [OF hex4_write])

lemma str_ok_utf8_bytes: "is_scalar u \<Longrightarrow> u \<noteq> 0 \<Longrightarrow> str_ok (utf8_bytes u)"
  using utf8_bytes_string_char [of u] by (simp add: string_char_def str_ok_iff)

lemma str_ok_char_code: "is_scalar u \<Longrightarrow> u \<noteq> 0 \<Longrightarrow> str_ok (char_code esc u)"
  by (auto simp: char_code_def str_ok_utf8_bytes split: outcome.split intro!: str_ok_Cons str_ok_append str_ok_hex)

lemma str_ok_string_code: "str_ok str \<Longrightarrow> str_ok (string_code esc str)"
  by (erule str_okE) (auto simp: string_code_def list_all_iff intro!: str_ok_Cons str_ok_append str_ok_concat str_ok_char_code)

lemma digit_ascii: "is_digit c \<Longrightarrow> c \<noteq> 0 \<and> c \<le> 0x7F"
  by (auto simp: is_digit_def byte_nat)

lemma str_ok_digits: "digits b \<Longrightarrow> str_ok b"
  by (auto simp: digits_def list_all_iff intro!: str_ok_ascii dest: digit_ascii)

lemma str_ok_number: "number_text b \<Longrightarrow> str_ok b"
  by (auto simp: number_text_def int_text_def frac_text_def exp_text_def
    intro!: str_ok_Cons str_ok_append intro: str_ok_digits)

lemma str_ok_literals: "str_ok (ascii ''null'')" "str_ok (ascii ''true'')" "str_ok (ascii ''false'')"
  "str_ok (ascii ''[]'')" "str_ok (ascii ''{}'')"
  by (auto simp: ascii_def intro!: str_ok_ascii)

section \<open>Characters and strings\<close>

lemma char_code_text:
  assumes "is_scalar u" "u \<noteq> 0" "u \<noteq> 0x1F"
  shows "char_text u (char_code esc u)"
proof -
  have short: "char_text u [0x5C, e]" if "short_escape e = Some u" for e by (rule char_text.short [OF that])
  consider "u = 0x22 \<or> u = 0x5C \<or> u = 0x08 \<or> u = 0x0C \<or> u = 0x0A \<or> u = 0x0D \<or> u = 0x09"
    | "u \<notin> {0x22, 0x5C, 0x08, 0x0C, 0x0A, 0x0D, 0x09}" "u < 0x1F \<or> 0x80 \<le> u \<and> esc"
    | "u \<notin> {0x22, 0x5C, 0x08, 0x0C, 0x0A, 0x0D, 0x09}" "\<not> (u < 0x1F \<or> 0x80 \<le> u \<and> esc)" by blast
  then show ?thesis
  proof cases
    case 1
    then show ?thesis by (elim disjE) (simp_all add: char_code_def char_text.short short_escape_def)
  next
    case 2
    show ?thesis
    proof (cases "u \<le> 0xFFFF")
      case True
      then have v: "ucast (ucast u :: u16) = u" "unat (ucast u :: u16) = unat u"
        by (simp_all add: word_unat_eq_iff unsigned_ucast_eq unsigned_take_bit_eq take_bit_nat_eq_self byte_nat)
      from assms(1,2) v(2) have "(ucast u :: u16) \<noteq> 0" "\<not> (0xD800 \<le> (ucast u :: u16) \<and> (ucast u :: u16) \<le> 0xDFFF)"
        by (auto simp: byte_nat is_scalar_def)
      from char_text.unit [OF hex4_write this] v(1) 2 True to_surrogate_pair_cases [OF assms(1)]
      show ?thesis by (auto simp: char_code_def)
    next
      case False
      with to_surrogate_pair_cases [OF assms(1)] obtain uc lc where
        "to_surrogate_pair u = Ret (uc, lc)" "from_surrogate_pair uc lc = Some u" by auto
      with char_text.pair [OF hex4_write hex4_write] 2 show ?thesis by (auto simp: char_code_def)
    qed
  next
    case 3
    with assms(3) have "0x20 \<le> u"
      by (auto simp: byte_nat)
    with 3 char_text.direct [OF assms(1)] show ?thesis by (auto simp: char_code_def)
  qed
qed

lemma utf8_bytes_0x1F: "utf8_bytes 0x1F = [0x1F]"
  by (simp add: utf8_bytes_def utf8_write_char_def is_scalar_def)

lemma list_all2_map_right: "(\<And>x. x \<in> set xs \<Longrightarrow> P x (g x)) \<Longrightarrow> list_all2 P xs (map g xs)"
  by (induction xs) auto

lemma string_code_text:
  assumes "str_ok str" "0x1F \<notin> set str"
  shows "string_text str (string_code esc str)"
proof -
  from assms(1) obtain us where us: "str = concat (map utf8_bytes us)" "list_all (\<lambda>u. is_scalar u \<and> u \<noteq> 0) us"
    "utf8_chars str = us" by (rule str_okE)
  have "\<forall>u \<in> set us. u \<noteq> 0x1F" using assms(2) us(1) utf8_bytes_0x1F by force
  with us(2) have "list_all2 char_text us (map (char_code esc) us)"
    unfolding list_all_iff by (intro list_all2_map_right char_code_text) blast+
  moreover have "string_code esc str = 0x22 # concat (map (char_code esc) us) @ [0x22]" by (simp add: string_code_def us(3))
  ultimately show ?thesis using us(1) unfolding string_text_def by blast
qed

section \<open>Values\<close>

text \<open>Values whose strings avoid the byte 0x1F, and values with their numbers as printed.\<close>

fun plain :: "'d json \<Rightarrow> bool" where
  "plain (JString str) \<longleftrightarrow> 0x1F \<notin> set str"
| "plain (JArray es) \<longleftrightarrow> (\<forall>e \<in> set es. plain e)"
| "plain (JObject ms) \<longleftrightarrow> (\<forall>m \<in> set ms. 0x1F \<notin> set (fst m) \<and> plain (snd m))"
| "plain _ \<longleftrightarrow> True"

fun reread :: "('d \<Rightarrow> byte list) \<Rightarrow> (cursor \<Rightarrow> 'd) \<Rightarrow> 'd json \<Rightarrow> 'd json" where
  "reread fmt sd (JNumber num) =
     (if number_is_valid (fmt num @ [0]) = Ret True then JNumber (sd (fmt num @ [0])) else JNull)"
| "reread fmt sd (JArray es) = JArray (map (reread fmt sd) es)"
| "reread fmt sd (JObject ms) = JObject (map (\<lambda>(k, v). (k, reread fmt sd v)) ms)"
| "reread fmt sd v = v"

lemma number_is_valid_text:
  assumes "number_is_valid (b @ [0]) = Ret True" "0 \<notin> set b"
  shows "number_text b"
proof -
  from assms(1) obtain t where "scan_number (b @ [0]) = Ret (Ok () (0 # t))"
    by (cases "scan_number (b @ [0])" rule: parsed_outcome_cases)
      (auto simp: number_is_valid_def parse_number_def bindO_Ret_iff rd_0_Ret_iff)
  from scan_number_split [OF this] obtain p where p: "b @ [0] = p @ 0 # t" "number_text p" by auto
  from str_ok_number [OF p(2)] have "c_str (b @ [0]) = p" by (simp add: p(1) str_ok_iff c_str_append)
  with c_str_append [OF assms(2), of "[]"] have "b = p" by simp
  with p(2) show ?thesis by simp
qed

lemma join_elements:
  assumes "list_all2 (value_text sd) es bs" "es \<noteq> []" "ws nl" "ws ind" "ws tr"
  shows "\<exists>b. elements_text sd es b \<and> join (0x2C # nl) (map (\<lambda>b. ind @ b) bs) @ tr @ [0x5D] = ind @ b"
  using assms(1,2)
proof (induction es bs rule: list_all2_induct)
  case (Cons e es b bs)
  show ?case
  proof (cases "es = []")
    case True
    with Cons t_last [OF Cons.hyps(1) assms(5)] show ?thesis by (auto simp: join_Cons)
  next
    case False
    with Cons obtain b' where b': "elements_text sd es b'"
      "join (0x2C # nl) (map (\<lambda>b. ind @ b) bs) @ tr @ [0x5D] = ind @ b'" by auto
    from False Cons.hyps have "bs \<noteq> []" by auto
    with b' t_more [OF Cons.hyps(1), of "[]" "nl @ ind" es b'] assms show ?thesis
      by (auto simp: join_Cons)
  qed
qed simp

definition member_text :: "(cursor \<Rightarrow> 'd) \<Rightarrow> byte list \<Rightarrow> byte list \<times> 'd json \<Rightarrow> byte list \<Rightarrow> bool" where
  "member_text sd w m b \<longleftrightarrow> (\<exists>kb vb. string_text (fst m) kb \<and> value_text sd (snd m) vb \<and> b = kb @ 0x3A # w @ vb)"

lemma join_members:
  assumes "list_all2 (member_text sd w) ms bs" "ms \<noteq> []" "ws w" "ws nl" "ws ind" "ws tr"
  shows "\<exists>b. members_text sd ms b \<and> join (0x2C # nl) (map (\<lambda>b. ind @ b) bs) @ tr @ [0x7D] = ind @ b"
  using assms(1,2)
proof (induction ms bs rule: list_all2_induct)
  case (Cons m ms b bs)
  from Cons.hyps(1) obtain kb vb where k: "string_text (fst m) kb" "value_text sd (snd m) vb" "b = kb @ 0x3A # w @ vb"
    by (auto simp: member_text_def)
  show ?case
  proof (cases "ms = []")
    case True
    with Cons k t_last_member [OF k(1) _ assms(3) k(2) assms(6), of "[]"] show ?thesis by (auto simp: join_Cons)
  next
    case False
    with Cons obtain b' where b': "members_text sd ms b'"
      "join (0x2C # nl) (map (\<lambda>b. ind @ b) bs) @ tr @ [0x7D] = ind @ b'" by auto
    from False Cons.hyps have "bs \<noteq> []" by auto
    with b' k t_more_members [OF k(1) _ assms(3) k(2), of "[]" "[]" "nl @ ind" ms b'] assms show ?thesis
      by (auto simp: join_Cons)
  qed
qed simp

lemma list_all2_mapI: "(\<And>x. x \<in> set xs \<Longrightarrow> P (f x) (g x)) \<Longrightarrow> list_all2 P (map f xs) (map g xs)"
  by (induction xs) auto

lemma encode_text:
  assumes "fmt_ok fmt"
  shows "json_wf v \<Longrightarrow> plain v \<Longrightarrow> value_text sd (reread fmt sd v) (encode fmt v)"
proof (induction v)
  case (JNumber d)
  with assms number_is_valid_text [of "fmt d"] show ?case
    by (auto simp: number_code_def fmt_ok_def intro: t_number t_null)
next
  case (JArray es)
  show ?case
  proof (cases "es = []")
    case False
    have "list_all2 (value_text sd) (map (reread fmt sd) es) (map (encode fmt) es)"
      using JArray by (intro list_all2_mapI) auto
    from join_elements [OF this, of "[]" "[]" "[]"] False t_array [of "[]" sd "map (reread fmt sd) es"]
    show ?thesis by (auto simp: comp_def)
  qed (use t_empty_array [of "[]" sd] in simp)
next
  case (JObject ms)
  show ?case
  proof (cases "ms = []")
    case False
    have "list_all2 (member_text sd []) (map (\<lambda>(k, v). (k, reread fmt sd v)) ms)
        (map (\<lambda>(k, v). string_code False k @ 0x3A # encode fmt v) ms)"
    proof (rule list_all2_mapI)
      fix m assume m: "m \<in> set ms"
      obtain k v where kv: "m = (k, v)" by (cases m)
      with m JObject have "str_ok k" "0x1F \<notin> set k" "value_text sd (reread fmt sd v) (encode fmt v)"
        by (force simp: prod_set_defs)+
      with string_code_text show "member_text sd [] (case m of (k, v) \<Rightarrow> (k, reread fmt sd v))
         (case m of (k, v) \<Rightarrow> string_code False k @ 0x3A # encode fmt v)"
        by (fastforce simp: kv member_text_def)
    qed
    from join_members [OF this, of "[]" "[]" "[]"] False t_object [of "[]" sd "map (\<lambda>(k, v). (k, reread fmt sd v)) ms"]
    show ?thesis by (auto simp: comp_def)
  qed (use t_empty_object [of "[]" sd] in simp)
qed (auto intro: t_null t_true t_false t_string string_code_text)

lemma ws_indent: "ws sp \<Longrightarrow> ws (indent sp n)"
  by (induction n) (auto simp: indent_def)

lemma space_bytes [simp]: "is_space 0x0A" "is_space 0x20"
  by (simp_all add: is_space_def)

lemma encode_indented_text:
  assumes "fmt_ok fmt" "ws sp"
  shows "json_wf v \<Longrightarrow> plain v \<Longrightarrow> value_text sd (reread fmt sd v) (encode_indented fmt sp n v)"
proof (induction v arbitrary: n)
  case (JArray es)
  note w = ws_indent [OF assms(2)]
  show ?case
  proof (cases "es = []")
    case False
    have "list_all2 (value_text sd) (map (reread fmt sd) es) (map (encode_indented fmt sp (n + 1)) es)"
      using JArray by (intro list_all2_mapI) auto
    from join_elements [OF this, of "[0x0A]" "indent sp (n + 1)" "0x0A # indent sp n"] False w
    obtain b where b: "elements_text sd (map (reread fmt sd) es) b"
      "join [0x2C, 0x0A] (map (\<lambda>e. indent sp (n + 1) @ encode_indented fmt sp (n + 1) e) es) @ (0x0A # indent sp n) @ [0x5D]
        = indent sp (n + 1) @ b" by (auto simp: comp_def)
    from t_array [OF _ b(1), of "0x0A # indent sp (n + 1)"] w False b(2) show ?thesis by simp
  qed (use t_empty_array [of "[]" sd] in \<open>simp add: ascii_def\<close>)
next
  case (JObject ms)
  note w = ws_indent [OF assms(2)]
  show ?case
  proof (cases "ms = []")
    case False
    have "list_all2 (member_text sd [0x20]) (map (\<lambda>(k, v). (k, reread fmt sd v)) ms)
        (map (\<lambda>(k, v). string_code False k @ [0x3A, 0x20] @ encode_indented fmt sp (n + 1) v) ms)"
    proof (rule list_all2_mapI)
      fix m assume m: "m \<in> set ms"
      obtain k v where kv: "m = (k, v)" by (cases m)
      with m JObject have "str_ok k" "0x1F \<notin> set k" "value_text sd (reread fmt sd v) (encode_indented fmt sp (n + 1) v)"
        by (force simp: prod_set_defs)+
      with string_code_text show "member_text sd [0x20] (case m of (k, v) \<Rightarrow> (k, reread fmt sd v))
         (case m of (k, v) \<Rightarrow> string_code False k @ [0x3A, 0x20] @ encode_indented fmt sp (n + 1) v)"
        by (fastforce simp: kv member_text_def)
    qed
    from join_members [OF this, of "[0x0A]" "indent sp (n + 1)" "0x0A # indent sp n"] False w
    obtain b where b: "members_text sd (map (\<lambda>(k, v). (k, reread fmt sd v)) ms) b"
      "join [0x2C, 0x0A] (map (\<lambda>(k, v). indent sp (n + 1) @ string_code False k @ [0x3A, 0x20]
          @ encode_indented fmt sp (n + 1) v) ms) @ (0x0A # indent sp n) @ [0x7D] = indent sp (n + 1) @ b"
      by (auto simp: comp_def case_prod_unfold)
    from t_object [OF _ b(1), of "0x0A # indent sp (n + 1)"] w False b(2) show ?thesis by simp
  qed (use t_empty_object [of "[]" sd] in \<open>simp add: ascii_def\<close>)
qed (simp_all only: encode_indented.simps encode_text [OF assms(1)])

section \<open>The texts are C strings in UTF-8\<close>

lemmas str_ok_intros = str_ok_Cons str_ok_append str_ok_join str_ok_literals str_ok_string_code

lemma str_ok_number_code: "fmt_ok fmt \<Longrightarrow> str_ok (number_code fmt num)"
  by (auto simp: number_code_def fmt_ok_def str_ok_literals intro!: str_ok_number number_is_valid_text)

lemma str_ok_encode:
  assumes "fmt_ok fmt"
  shows "json_wf v \<Longrightarrow> str_ok (encode fmt v)"
proof (induction v)
  case (JArray es)
  then show ?case by (auto intro!: str_ok_intros)
next
  case (JObject ms)
  have "str_ok (case m of (k, v) \<Rightarrow> string_code False k @ 0x3A # encode fmt v)" if "m \<in> set ms" for m
    using JObject that by (cases m) (auto simp: prod_set_defs intro!: str_ok_intros)
  then have "str_ok (join [0x2C] (map (\<lambda>(k, v). string_code False k @ 0x3A # encode fmt v) ms))"
    by (intro str_ok_join) (auto intro!: str_ok_Cons simp del: split_paired_All)
  then show ?case by (auto intro!: str_ok_Cons str_ok_append)
qed (auto intro: str_ok_intros str_ok_number_code [OF assms])

lemma str_ok_indent: "str_ok sp \<Longrightarrow> str_ok (indent sp n)"
  unfolding indent_def by (rule str_ok_concat) auto

lemma str_ok_encode_indented:
  "fmt_ok fmt \<Longrightarrow> str_ok sp \<Longrightarrow> json_wf v \<Longrightarrow> str_ok (encode_indented fmt sp n v)"
proof (induction v arbitrary: n)
  case (JArray es)
  have "str_ok (indent sp (n + 1) @ encode_indented fmt sp (n + 1) e)" if "e \<in> set es" for e
    using JArray that by (auto intro!: str_ok_intros str_ok_indent)
  with JArray show ?case by (auto intro!: str_ok_intros str_ok_indent)
next
  case (JObject ms)
  have "str_ok (case m of (k, v) \<Rightarrow> indent sp (n + 1) @ string_code False k @ [0x3A, 0x20] @ encode_indented fmt sp (n + 1) v)"
    if "m \<in> set ms" for m
    using JObject that by (cases m) (auto simp: prod_set_defs intro!: str_ok_intros str_ok_indent)
  then have "str_ok (join [0x2C, 0x0A] (map (\<lambda>(k, v). indent sp (n + 1) @ string_code False k @ [0x3A, 0x20]
      @ encode_indented fmt sp (n + 1) v) ms))"
    by (intro str_ok_join) (auto intro!: str_ok_Cons)
  with JObject.prems show ?case by (auto intro!: str_ok_Cons str_ok_append str_ok_indent str_ok_literals)
qed (simp_all only: encode_indented.simps str_ok_encode)

section \<open>The entry points\<close>

lemma finish_emitted:
  assumes "emits f b" "str_ok b"
  shows "bindO (f sb_init) sb_finish = Ret (b @ [0])"
proof -
  from emitsD [OF assms(1), of sb_init] obtain sb where "f sb_init = Ret sb" "sb_wf sb" "sb_bytes sb = b"
    by (auto dest: appendsD)
  with assms(2) show ?thesis by (simp add: sb_finish_Ret str_ok_iff)
qed

lemma json_encode_Ret: "fmt_ok fmt \<Longrightarrow> json_wf v \<Longrightarrow> json_encode fmt v = Ret (encode fmt v @ [0])"
  using finish_emitted [OF emits_value str_ok_encode] by (simp add: json_encode_def json_stringify_def)

lemma json_stringify_Ret:
  "fmt_ok fmt \<Longrightarrow> json_wf v \<Longrightarrow> str_ok sp \<Longrightarrow> json_stringify fmt v (Some sp) = Ret (encode_indented fmt sp 0 v @ [0])"
  using finish_emitted [OF emits_value_indented str_ok_encode_indented] by (simp add: json_stringify_def)

lemma json_encode_string_Ret: "str_ok str \<Longrightarrow> json_encode_string (str @ [0]) = Ret (string_code False str @ [0])"
  using finish_emitted [OF emits_basic(4) str_ok_string_code] by (simp add: json_encode_string_def)

lemma value_text_json_text: "value_text sd v b \<Longrightarrow> json_text sd v b"
  unfolding json_text_def by (metis append_Nil append_Nil2 ws_simps(1))

lemma ws_str_ok: "ws sp \<Longrightarrow> str_ok sp"
  by (auto simp: ws_def list_all_iff is_space_def intro!: str_ok_ascii)

section \<open>A printer of numbers\<close>

text \<open>The assumption on \<open>sprintf\<close> holds of the function that prints short byte strings as they are.\<close>

definition short_bytes :: "byte list \<Rightarrow> byte list" where
  "short_bytes b = (if length b < 64 \<and> 0 \<notin> set b then b else [])"

lemma short_bytes_ok: "fmt_ok short_bytes"
  by (simp add: fmt_ok_def short_bytes_def)

section \<open>Properties\<close>

text \<open>
  Encoding a well-formed value returns the reference encoding with its terminator: no store
  leaves the string buffer (the room of 14 bytes is always enough), no assertion fails, and the
  text is valid UTF-8 without NUL.
\<close>

theorem json_encode_correct:
  assumes "fmt_ok fmt" "json_wf v"
  shows "json_encode fmt v = Ret (encode fmt v @ [0]) \<and> str_ok (encode fmt v)"
  using json_encode_Ret [OF assms] str_ok_encode [OF assms] by simp

theorem json_encode_correct_witness:
  "json_encode short_bytes (JArray [JNull, JNumber [0x37]]) = Ret (encode short_bytes (JArray [JNull, JNumber [0x37]]) @ [0])
    \<and> str_ok (encode short_bytes (JArray [JNull, JNumber [0x37]]))"
  by (rule json_encode_correct [OF short_bytes_ok]) simp

text \<open>The same for the indented text, for any indentation string in UTF-8.\<close>

theorem json_stringify_correct:
  assumes "fmt_ok fmt" "json_wf v" "str_ok space"
  shows "json_stringify fmt v (Some space) = Ret (encode_indented fmt space 0 v @ [0])
    \<and> str_ok (encode_indented fmt space 0 v)"
  using json_stringify_Ret [OF assms] str_ok_encode_indented [OF assms(1,3,2)] by simp

theorem json_stringify_correct_witness:
  "json_stringify short_bytes (JArray [JNull]) (Some [0x20]) = Ret (encode_indented short_bytes [0x20] 0 (JArray [JNull]) @ [0])
    \<and> str_ok (encode_indented short_bytes [0x20] 0 (JArray [JNull]))"
  by (rule json_stringify_correct [OF short_bytes_ok]) (simp_all add: ws_str_ok)

text \<open>
  C9. Encoding and decoding: a value without the byte 0x1F in its strings is encoded to a text
  that decodes to the value again, with its numbers as they were printed (a number whose printed
  form is not a JSON number, such as an infinity, comes back as null).
\<close>

theorem json_roundtrip:
  assumes "fmt_ok fmt" "strtod_local sd" "json_wf v" "plain v"
  shows "bindO (json_encode fmt v) (json_decode sd) = Ret (Some (reread fmt sd v))"
  using decode_text [OF assms(2) value_text_json_text [OF encode_text [OF assms(1,3,4)]], of "[]"]
  by (simp add: json_encode_Ret [OF assms(1,3)])

theorem json_roundtrip_witness:
  "bindO (json_encode short_bytes (JObject [([0x6B], JString [0x22, 0xC3, 0xA9]), ([], JNumber [0x2D, 0x31])])) (json_decode number_bytes)
    = Ret (Some (reread short_bytes number_bytes (JObject [([0x6B], JString [0x22, 0xC3, 0xA9]), ([], JNumber [0x2D, 0x31])])))"
proof (rule json_roundtrip [OF short_bytes_ok number_bytes_local])
  have "str_ok [0xC3, 0xA9]" using str_ok_utf8_bytes [of "0xE9"]
    by (simp add: utf8_bytes_def utf8_write_char_def is_scalar_def)
  then show "json_wf (JObject [([0x6B], JString [0x22, 0xC3, 0xA9]), ([], JNumber [0x2D, 0x31])])"
    by (auto intro: str_ok_Cons)
qed simp

text \<open>
  Indented text decodes to the same value as compact text, whatever white space is the
  indentation.
\<close>

theorem json_stringify_roundtrip:
  assumes "fmt_ok fmt" "strtod_local sd" "json_wf v" "plain v" "ws space"
  shows "bindO (json_stringify fmt v (Some space)) (json_decode sd) = Ret (Some (reread fmt sd v))"
  using decode_text [OF assms(2) value_text_json_text [OF encode_indented_text [OF assms(1,5,3,4)]], of 0 "[]"]
  by (simp add: json_stringify_Ret [OF assms(1,3) ws_str_ok [OF assms(5)]])

theorem json_stringify_roundtrip_witness:
  "bindO (json_stringify short_bytes (JArray [JNull, JArray [JBool True]]) (Some [0x20, 0x20])) (json_decode number_bytes)
    = Ret (Some (reread short_bytes number_bytes (JArray [JNull, JArray [JBool True]])))"
  by (rule json_stringify_roundtrip [OF short_bytes_ok number_bytes_local]) (simp_all)

text \<open>
  A string that is not valid UTF-8 is never emitted: its emission stops at the assertion,
  whatever the buffer holds.
\<close>

theorem emit_string_rejects_invalid:
  assumes "0 \<notin> set str" "\<not> str_ok str"
  shows "emit_string out (str @ [0]) = Fault Assert_failed"
  by (rule emit_string_invalid [OF assms])

theorem emit_string_rejects_invalid_witness:
  "emit_string sb_init ([0xFF] @ [0]) = Fault Assert_failed"
proof (rule emit_string_rejects_invalid)
  show "\<not> str_ok [0xFF]"
    by (simp add: str_ok_def utf8_validate.simps [of "[0xFF, 0]"] utf8_validate_cz_def)
qed simp

text \<open>
  The byte 0x1F is valid in a string and is written as it is, but a text with it is
  rejected: the round trip fails for the one-character string U+001F.
\<close>

theorem encode_0x1F_not_decodable:
  "str_ok [0x1F] \<and> json_encode_string ([0x1F] @ [0]) = Ret [0x22, 0x1F, 0x22, 0]
    \<and> json_decode sd [0x22, 0x1F, 0x22, 0] = Ret None"
proof -
  have ok: "str_ok [0x1F]" by (rule str_ok_ascii) simp
  have "utf8_chars [0x1F] = [0x1F]"
    using utf8_chars_bytes [of "[0x1F]"] by (simp add: utf8_bytes_0x1F is_scalar_def)
  then have "string_code False [0x1F] = [0x22, 0x1F, 0x22]"
    by (simp add: string_code_def char_code_def utf8_bytes_0x1F)
  with json_encode_string_Ret [OF ok] have "json_encode_string ([0x1F] @ [0]) = Ret [0x22, 0x1F, 0x22, 0]" by simp
  moreover have "parse_string True [0x22, 0x1F, 0x22, 0] = Ret Fail"
    using sb_ready_start [of True]
    by (auto simp: parse_string_def ensures_iff parse_string_loop.simps [of _ _ "[0x1F, 0x22, 0]"] parse_string_char_def)
  then have "json_decode sd [0x22, 0x1F, 0x22, 0] = Ret None"
    by (simp add: json_decode_def parse_fuel_def is_space_def)
  ultimately show ?thesis using ok by simp
qed

end
