(* ===== verification/JsonDom.thy ===== *)
theory JsonDom
  imports JsonEmit
begin

text \<open>
  The document tree of src/json.c: the nodes lie in a heap and point to their parent, to their
  neighbours and, for an array or object, to their first and last child. The constructors,
  \<open>json_append_element\<close> and its three siblings, \<open>json_remove_from_parent\<close>, \<open>json_delete\<close>, the
  lookups, \<open>json_check\<close>, and the encoder and decoder on nodes. A string a node owns is a value of
  the node, the bytes in front of its terminator. An address is never used again after \<open>free\<close>.
\<close>

section \<open>Nodes and the heap\<close>

type_synonym ptr = "nat option"

text \<open>The union of a \<open>JsonNode\<close>: \<open>calloc\<close> leaves it zero, a store selects a member.\<close>

datatype 'd payload =
    Zero
  | BoolVal bool
  | StringVal "byte list option"
  | NumberVal 'd
  | Children ptr ptr

record 'd JsonNode =
  parent :: ptr
  prev :: ptr
  nxt :: ptr
  key :: "byte list option"
  tag :: JsonTag
  payload :: "'d payload"

record 'd heap =
  nodes :: "nat \<Rightarrow> 'd JsonNode option"
  fresh :: nat

definition empty_heap :: "'d heap" where
  "empty_heap = \<lparr>nodes = \<lambda>_. None, fresh = 0\<rparr>"

text \<open>Reading and storing through a pointer; the pointer may be null or its node freed.\<close>

definition load :: "ptr \<Rightarrow> 'd heap \<Rightarrow> 'd JsonNode outcome" where
  "load p h =
     (case p of
        None \<Rightarrow> Fault Null_deref
      | Some a \<Rightarrow> (case nodes h a of None \<Rightarrow> Fault Dangling | Some n \<Rightarrow> Ret n))"

definition modify :: "ptr \<Rightarrow> ('d JsonNode \<Rightarrow> 'd JsonNode) \<Rightarrow> 'd heap \<Rightarrow> 'd heap outcome" where
  "modify p f h =
     (case p of
        None \<Rightarrow> Fault Null_deref
      | Some a \<Rightarrow>
          (case nodes h a of
             None \<Rightarrow> Fault Dangling
           | Some n \<Rightarrow> Ret (h\<lparr>nodes := (nodes h)(a \<mapsto> f n)\<rparr>)))"

definition free_node :: "nat \<Rightarrow> 'd heap \<Rightarrow> 'd heap outcome" where
  "free_node a h =
     (case nodes h a of None \<Rightarrow> Fault Dangling | Some _ \<Rightarrow> Ret (h\<lparr>nodes := (nodes h)(a := None)\<rparr>))"

text \<open>The members of the union, read when another one was stored.\<close>

fun children :: "'d payload \<Rightarrow> (ptr \<times> ptr) outcome" where
  "children Zero = Ret (None, None)"
| "children (Children head tail) = Ret (head, tail)"
| "children _ = Fault Wrong_member"

fun string_val :: "'d payload \<Rightarrow> byte list option outcome" where
  "string_val Zero = Ret None"
| "string_val (StringVal s) = Ret s"
| "string_val _ = Fault Wrong_member"

fun bool_val :: "'d payload \<Rightarrow> bool outcome" where
  "bool_val Zero = Ret False"
| "bool_val (BoolVal b) = Ret b"
| "bool_val _ = Fault Wrong_member"

definition kids :: "ptr \<Rightarrow> 'd heap \<Rightarrow> (ptr \<times> ptr) outcome" where
  "kids p h = bindO (load p h) (\<lambda>n. children (payload n))"

definition set_head :: "ptr \<Rightarrow> ptr \<Rightarrow> 'd heap \<Rightarrow> 'd heap outcome" where
  "set_head p head h = bindO (kids p h) (\<lambda>(_, tail). modify p (payload_update (\<lambda>_. Children head tail)) h)"

definition set_tail :: "ptr \<Rightarrow> ptr \<Rightarrow> 'd heap \<Rightarrow> 'd heap outcome" where
  "set_tail p tail h = bindO (kids p h) (\<lambda>(head, _). modify p (payload_update (\<lambda>_. Children head tail)) h)"

section \<open>Construction\<close>

text \<open>\<open>calloc\<close> does not fail here: \<open>out_of_memory\<close> ends the process.\<close>

definition mknode :: "JsonTag \<Rightarrow> 'd heap \<Rightarrow> nat \<times> 'd heap" where
  "mknode t h =
     (fresh h,
      h\<lparr>nodes := (nodes h)(fresh h \<mapsto>
          \<lparr>parent = None, prev = None, nxt = None, key = None, tag = t, payload = Zero\<rparr>),
        fresh := Suc (fresh h)\<rparr>)"

definition json_mknull :: "'d heap \<Rightarrow> (nat \<times> 'd heap) outcome" where
  "json_mknull h = Ret (mknode JSON_NULL h)"

definition json_mkbool :: "bool \<Rightarrow> 'd heap \<Rightarrow> (nat \<times> 'd heap) outcome" where
  "json_mkbool b h = (let (ret, h) = mknode JSON_BOOL h in
     bindO (modify (Some ret) (payload_update (\<lambda>_. BoolVal b)) h) (\<lambda>h. Ret (ret, h)))"

definition mkstring :: "byte list option \<Rightarrow> 'd heap \<Rightarrow> (nat \<times> 'd heap) outcome" where
  "mkstring s h = (let (ret, h) = mknode JSON_STRING h in
     bindO (modify (Some ret) (payload_update (\<lambda>_. StringVal s)) h) (\<lambda>h. Ret (ret, h)))"

text \<open>The argument is a C string, copied by \<open>json_strdup\<close>; that of a null pointer is a fault.\<close>

definition json_strdup :: "byte list option \<Rightarrow> byte list outcome" where
  "json_strdup s = (case s of None \<Rightarrow> Fault Null_deref | Some str \<Rightarrow> Ret str)"

definition json_mkstring :: "byte list option \<Rightarrow> 'd heap \<Rightarrow> (nat \<times> 'd heap) outcome" where
  "json_mkstring s h = bindO (json_strdup s) (\<lambda>str. mkstring (Some str) h)"

definition json_mknumber :: "'d \<Rightarrow> 'd heap \<Rightarrow> (nat \<times> 'd heap) outcome" where
  "json_mknumber x h = (let (node, h) = mknode JSON_NUMBER h in
     bindO (modify (Some node) (payload_update (\<lambda>_. NumberVal x)) h) (\<lambda>h. Ret (node, h)))"

definition json_mkarray :: "'d heap \<Rightarrow> (nat \<times> 'd heap) outcome" where
  "json_mkarray h = Ret (mknode JSON_ARRAY h)"

definition json_mkobject :: "'d heap \<Rightarrow> (nat \<times> 'd heap) outcome" where
  "json_mkobject h = Ret (mknode JSON_OBJECT h)"

section \<open>Attaching and detaching\<close>

definition append_node :: "ptr \<Rightarrow> ptr \<Rightarrow> 'd heap \<Rightarrow> 'd heap outcome" where
  "append_node par child h =
     bindO (modify child (parent_update (\<lambda>_. par)) h) (\<lambda>h.
     bindO (kids par h) (\<lambda>(_, tail).
     bindO (modify child (\<lambda>n. n\<lparr>prev := tail, nxt := None\<rparr>) h) (\<lambda>h.
     bindO (if tail \<noteq> None then modify tail (nxt_update (\<lambda>_. child)) h else set_head par child h)
       (set_tail par child))))"

definition prepend_node :: "ptr \<Rightarrow> ptr \<Rightarrow> 'd heap \<Rightarrow> 'd heap outcome" where
  "prepend_node par child h =
     bindO (modify child (\<lambda>n. n\<lparr>parent := par, prev := None\<rparr>) h) (\<lambda>h.
     bindO (kids par h) (\<lambda>(head, _).
     bindO (modify child (nxt_update (\<lambda>_. head)) h) (\<lambda>h.
     bindO (if head \<noteq> None then modify head (prev_update (\<lambda>_. child)) h else set_tail par child h)
       (set_head par child))))"

definition append_member :: "ptr \<Rightarrow> byte list \<Rightarrow> ptr \<Rightarrow> 'd heap \<Rightarrow> 'd heap outcome" where
  "append_member obj k val h =
     bindO (modify val (key_update (\<lambda>_. Some k)) h) (append_node obj val)"

text \<open>The two assertions in front of every attaching function.\<close>

definition can_attach :: "JsonTag \<Rightarrow> ptr \<Rightarrow> ptr \<Rightarrow> 'd heap \<Rightarrow> unit outcome" where
  "can_attach t par child h =
     bindO (load par h) (\<lambda>p. bindO (assertO (tag p = t)) (\<lambda>_.
     bindO (load child h) (\<lambda>c. assertO (parent c = None))))"

definition json_append_element :: "ptr \<Rightarrow> ptr \<Rightarrow> 'd heap \<Rightarrow> 'd heap outcome" where
  "json_append_element array element h =
     bindO (can_attach JSON_ARRAY array element h) (\<lambda>_. append_node array element h)"

definition json_prepend_element :: "ptr \<Rightarrow> ptr \<Rightarrow> 'd heap \<Rightarrow> 'd heap outcome" where
  "json_prepend_element array element h =
     bindO (can_attach JSON_ARRAY array element h) (\<lambda>_. prepend_node array element h)"

definition json_append_member :: "ptr \<Rightarrow> byte list \<Rightarrow> ptr \<Rightarrow> 'd heap \<Rightarrow> 'd heap outcome" where
  "json_append_member obj k val h =
     bindO (can_attach JSON_OBJECT obj val h) (\<lambda>_. append_member obj k val h)"

definition json_prepend_member :: "ptr \<Rightarrow> byte list \<Rightarrow> ptr \<Rightarrow> 'd heap \<Rightarrow> 'd heap outcome" where
  "json_prepend_member obj k val h =
     bindO (can_attach JSON_OBJECT obj val h) (\<lambda>_.
     bindO (modify val (key_update (\<lambda>_. Some k)) h) (prepend_node obj val))"

definition json_remove_from_parent :: "ptr \<Rightarrow> 'd heap \<Rightarrow> 'd heap outcome" where
  "json_remove_from_parent node h =
     bindO (load node h) (\<lambda>n.
     if parent n \<noteq> None then
       bindO (if prev n \<noteq> None then modify (prev n) (nxt_update (\<lambda>_. nxt n)) h
              else set_head (parent n) (nxt n) h) (\<lambda>h.
       bindO (if nxt n \<noteq> None then modify (nxt n) (prev_update (\<lambda>_. prev n)) h
              else set_tail (parent n) (prev n) h)
         (modify node (\<lambda>n. n\<lparr>parent := None, prev := None, nxt := None, key := None\<rparr>)))
     else Ret h)"

text \<open>
  The recursion over the tree carries fuel; \<open>walk_fuel\<close> is enough for a tree, whose nodes have
  different addresses below \<open>fresh\<close>.
\<close>

definition walk_fuel :: "'d heap \<Rightarrow> nat" where
  "walk_fuel h = 2 * fresh h + 2"

fun json_delete_in :: "nat \<Rightarrow> ptr \<Rightarrow> 'd heap \<Rightarrow> 'd heap outcome"
and delete_children :: "nat \<Rightarrow> ptr \<Rightarrow> 'd heap \<Rightarrow> 'd heap outcome" where
  "json_delete_in 0 node h = Fault No_fuel"
| "json_delete_in (Suc n) node h =
     (case node of
        None \<Rightarrow> Ret h
      | Some a \<Rightarrow>
          bindO (json_remove_from_parent node h) (\<lambda>h.
          bindO (load node h) (\<lambda>nd.
          bindO (if tag nd = JSON_STRING then bindO (string_val (payload nd)) (\<lambda>_. Ret h)
                 else if tag nd = JSON_ARRAY \<or> tag nd = JSON_OBJECT then
                   bindO (children (payload nd)) (\<lambda>(head, _). delete_children n head h)
                 else Ret h)
            (free_node a))))"
| "delete_children 0 child h = Fault No_fuel"
| "delete_children (Suc n) child h =
     (if child = None then Ret h
      else bindO (load child h) (\<lambda>c.
        bindO (json_delete_in n child h) (delete_children n (nxt c))))"

definition json_delete :: "ptr \<Rightarrow> 'd heap \<Rightarrow> 'd heap outcome" where
  "json_delete node h = json_delete_in (walk_fuel h) node h"

section \<open>Lookup\<close>

definition json_first_child :: "ptr \<Rightarrow> 'd heap \<Rightarrow> ptr outcome" where
  "json_first_child node h =
     (if node = None then Ret None
      else bindO (load node h) (\<lambda>n.
        if tag n = JSON_ARRAY \<or> tag n = JSON_OBJECT then bindO (children (payload n)) (\<lambda>(head, _). Ret head)
        else Ret None))"

text \<open>\<open>i\<close> is an \<open>int\<close>.\<close>

fun find_element_from :: "nat \<Rightarrow> u32 \<Rightarrow> u32 \<Rightarrow> ptr \<Rightarrow> 'd heap \<Rightarrow> ptr outcome" where
  "find_element_from 0 i index element h = Fault No_fuel"
| "find_element_from (Suc n) i index element h =
     (if element = None then Ret None
      else if i = index then Ret element
      else bindO (load element h) (\<lambda>e. find_element_from n (i + 1) index (nxt e) h))"

definition json_find_element :: "ptr \<Rightarrow> u32 \<Rightarrow> 'd heap \<Rightarrow> ptr outcome" where
  "json_find_element array index h =
     (if array = None then Ret None
      else bindO (load array h) (\<lambda>n.
        if tag n \<noteq> JSON_ARRAY then Ret None
        else bindO (json_first_child array h) (\<lambda>element. find_element_from (walk_fuel h) 0 index element h)))"

fun find_member_from :: "nat \<Rightarrow> byte list \<Rightarrow> ptr \<Rightarrow> 'd heap \<Rightarrow> ptr outcome" where
  "find_member_from 0 name member h = Fault No_fuel"
| "find_member_from (Suc n) name member h =
     (if member = None then Ret None
      else bindO (load member h) (\<lambda>m.
        bindO (json_strdup (key m)) (\<lambda>k.
        if k = name then Ret member else find_member_from n name (nxt m) h)))"

definition json_find_member :: "ptr \<Rightarrow> byte list \<Rightarrow> 'd heap \<Rightarrow> ptr outcome" where
  "json_find_member obj name h =
     (if obj = None then Ret None
      else bindO (load obj h) (\<lambda>n.
        if tag n \<noteq> JSON_OBJECT then Ret None
        else bindO (json_first_child obj h) (\<lambda>member. find_member_from (walk_fuel h) name member h)))"

section \<open>Checking\<close>

text \<open>
  The result is the message of the first problem, or \<open>None\<close> for a check that returns true. The tag
  and the \<open>bool\<close> are in range by their types.
\<close>

fun json_check_in :: "nat \<Rightarrow> nat \<Rightarrow> 'd heap \<Rightarrow> string option outcome"
and check_children :: "nat \<Rightarrow> nat \<Rightarrow> JsonTag \<Rightarrow> ptr \<Rightarrow> ptr \<Rightarrow> ptr \<Rightarrow> 'd heap \<Rightarrow> (string + ptr) outcome" where
  "json_check_in 0 a h = Fault No_fuel"
| "json_check_in (Suc n) a h =
     bindO (load (Some a) h) (\<lambda>nd.
     bindO (case key nd of None \<Rightarrow> Ret True | Some k \<Rightarrow> utf8_validate (k @ [0])) (\<lambda>key_ok.
     if \<not> key_ok then Ret (Some ''key contains invalid UTF-8'')
     else if \<not> tag_is_valid (tag nd) then Ret (Some ''tag is invalid'')
     else if tag nd = JSON_BOOL then bindO (bool_val (payload nd)) (\<lambda>_. Ret None)
     else if tag nd = JSON_STRING then
       bindO (string_val (payload nd)) (\<lambda>s. case s of
         None \<Rightarrow> Ret (Some ''string_ is NULL'')
       | Some str \<Rightarrow>
           bindO (utf8_validate (str @ [0])) (\<lambda>ok.
           if \<not> ok then Ret (Some ''string_ contains invalid UTF-8'') else Ret None))
     else if tag nd = JSON_ARRAY \<or> tag nd = JSON_OBJECT then
       bindO (children (payload nd)) (\<lambda>(head, tail).
       if head = None \<or> tail = None then
         if head \<noteq> None then Ret (Some ''tail is NULL, but head is not'')
         else if tail \<noteq> None then Ret (Some ''head is NULL, but tail is not'')
         else Ret None
       else
         bindO (load head h) (\<lambda>hd_node.
         if prev hd_node \<noteq> None then Ret (Some ''First child's prev pointer is not NULL'')
         else bindO (check_children n a (tag nd) head head None h) (\<lambda>r. case r of
           Inl problem \<Rightarrow> Ret (Some problem)
         | Inr final \<Rightarrow>
             if final \<noteq> tail
             then Ret (Some ''tail does not match pointer found by starting at head and following next links'')
             else Ret None)))
     else Ret None))"
| "check_children 0 a t head child final h = Fault No_fuel"
| "check_children (Suc n) a t head child final h =
     (case child of
        None \<Rightarrow> Ret (Inr final)
      | Some c \<Rightarrow>
          if c = a then Ret (Inl ''node is its own child'')
          else bindO (load child h) (\<lambda>cn.
            if nxt cn = child then Ret (Inl ''child->next == child (cycle)'')
            else if nxt cn = head then Ret (Inl ''child->next == head (cycle)'')
            else if parent cn \<noteq> Some a then Ret (Inl ''child does not point back to parent'')
            else bindO (if nxt cn \<noteq> None then bindO (load (nxt cn) h) (\<lambda>nn. Ret (prev nn = child)) else Ret True)
              (\<lambda>back.
              if \<not> back then Ret (Inl ''child->next does not point back to child'')
              else if t = JSON_ARRAY \<and> key cn \<noteq> None then Ret (Inl ''Array element's key is not NULL'')
              else if t = JSON_OBJECT \<and> key cn = None then Ret (Inl ''Object member's key is NULL'')
              else bindO (json_check_in n c h) (\<lambda>r. case r of
                  Some problem \<Rightarrow> Ret (Inl problem)
                | None \<Rightarrow> check_children n a t head (nxt cn) child h))))"

definition json_check :: "nat \<Rightarrow> 'd heap \<Rightarrow> string option outcome" where
  "json_check node h = json_check_in (walk_fuel h) node h"

section \<open>Encoding and decoding nodes\<close>

text \<open>
  \<open>emit_value\<close> follows the links in the order of the children. What it finds is the value it
  writes; a fault on the way is a fault of the encoder.
\<close>

fun read_node :: "nat \<Rightarrow> ptr \<Rightarrow> 'd heap \<Rightarrow> 'd json outcome"
and read_elements :: "nat \<Rightarrow> ptr \<Rightarrow> 'd heap \<Rightarrow> 'd json list outcome"
and read_members :: "nat \<Rightarrow> ptr \<Rightarrow> 'd heap \<Rightarrow> (byte list \<times> 'd json) list outcome" where
  "read_node 0 node h = Fault No_fuel"
| "read_node (Suc n) node h =
     bindO (load node h) (\<lambda>nd. case tag nd of
       JSON_NULL \<Rightarrow> Ret JNull
     | JSON_BOOL \<Rightarrow> bindO (bool_val (payload nd)) (\<lambda>b. Ret (JBool b))
     | JSON_STRING \<Rightarrow> bindO (string_val (payload nd)) (\<lambda>s. bindO (json_strdup s) (\<lambda>str. Ret (JString str)))
     | JSON_NUMBER \<Rightarrow> (case payload nd of NumberVal x \<Rightarrow> Ret (JNumber x) | _ \<Rightarrow> Fault Wrong_member)
     | JSON_ARRAY \<Rightarrow> bindO (children (payload nd)) (\<lambda>(head, _).
         bindO (read_elements n head h) (\<lambda>vs. Ret (JArray vs)))
     | JSON_OBJECT \<Rightarrow> bindO (children (payload nd)) (\<lambda>(head, _).
         bindO (read_members n head h) (\<lambda>ms. Ret (JObject ms))))"
| "read_elements 0 element h = Fault No_fuel"
| "read_elements (Suc n) element h =
     (if element = None then Ret []
      else bindO (read_node n element h) (\<lambda>v.
        bindO (load element h) (\<lambda>e.
        bindO (read_elements n (nxt e) h) (\<lambda>vs. Ret (v # vs)))))"
| "read_members 0 member h = Fault No_fuel"
| "read_members (Suc n) member h =
     (if member = None then Ret []
      else bindO (load member h) (\<lambda>m.
        bindO (json_strdup (key m)) (\<lambda>k.
        bindO (read_node n member h) (\<lambda>v.
        bindO (read_members n (nxt m) h) (\<lambda>ms. Ret ((k, v) # ms))))))"

definition json_encode_node :: "('d \<Rightarrow> byte list) \<Rightarrow> ptr \<Rightarrow> 'd heap \<Rightarrow> cursor outcome" where
  "json_encode_node fmt node h = bindO (read_node (walk_fuel h) node h) (json_encode fmt)"

text \<open>
  The parser makes the node of an array or object first, then every child, which it attaches
  behind the others. A parse that fails deletes what it has made.
\<close>

fun make_node :: "'d json \<Rightarrow> 'd heap \<Rightarrow> (nat \<times> 'd heap) outcome"
and make_elements :: "nat \<Rightarrow> 'd json list \<Rightarrow> 'd heap \<Rightarrow> 'd heap outcome"
and make_members :: "nat \<Rightarrow> (byte list \<times> 'd json) list \<Rightarrow> 'd heap \<Rightarrow> 'd heap outcome" where
  "make_node JNull h = json_mknull h"
| "make_node (JBool b) h = json_mkbool b h"
| "make_node (JString s) h = mkstring (Some s) h"
| "make_node (JNumber x) h = json_mknumber x h"
| "make_node (JArray vs) h =
     bindO (json_mkarray h) (\<lambda>(ret, h). bindO (make_elements ret vs h) (\<lambda>h. Ret (ret, h)))"
| "make_node (JObject ms) h =
     bindO (json_mkobject h) (\<lambda>(ret, h). bindO (make_members ret ms h) (\<lambda>h. Ret (ret, h)))"
| "make_elements ret [] h = Ret h"
| "make_elements ret (v # vs) h =
     bindO (make_node v h) (\<lambda>(element, h).
     bindO (json_append_element (Some ret) (Some element) h) (make_elements ret vs))"
| "make_members ret [] h = Ret h"
| "make_members ret ((k, v) # ms) h =
     bindO (make_node v h) (\<lambda>(val, h).
     bindO (append_member (Some ret) k (Some val) h) (make_members ret ms))"

definition json_decode_node :: "(cursor \<Rightarrow> 'd) \<Rightarrow> cursor \<Rightarrow> 'd heap \<Rightarrow> (ptr \<times> 'd heap) outcome" where
  "json_decode_node sd json h =
     bindO (json_decode sd json) (\<lambda>r. case r of
       None \<Rightarrow> Ret (None, h)
     | Some v \<Rightarrow> bindO (make_node v h) (\<lambda>(node, h). Ret (Some node, h)))"

end
