(* ===== verification/JsonTree.thy ===== *)
theory JsonTree
  imports JsonDom JsonRoundtrip
begin

text \<open>
  What the nodes of src/json.c mean: \<open>rep h t v\<close> says that the nodes of the tree of addresses \<open>t\<close>
  hold the value \<open>v\<close>. A tree never shares a node, whatever the heap (\<open>rep_distinct\<close>). The four
  attaching functions share one contract, the locale \<open>attach\<close>.
\<close>

section \<open>Segments of siblings\<close>

definition first :: "nat list \<Rightarrow> ptr \<Rightarrow> ptr" where
  "first cs d = (case cs of [] \<Rightarrow> d | c # _ \<Rightarrow> Some c)"

definition final :: "nat list \<Rightarrow> ptr \<Rightarrow> ptr" where
  "final cs d = (if cs = [] then d else Some (last cs))"

lemma ends_simps [simp]:
  "first [] d = d" "first (c # cs) d = Some c" "final [] d = d" "final (cs @ [c]) d = Some c"
  "final (c # cs) d = final cs (Some c)" "first (cs @ ds) d = first cs (first ds d)"
  "final (cs @ ds) d = final ds (final cs d)"
  "first cs None = None \<longleftrightarrow> cs = []" "final cs None = None \<longleftrightarrow> cs = []"
  by (simp_all add: first_def final_def split: list.split)

text \<open>\<open>seg h p pre cs post\<close>: the children \<open>cs\<close> of \<open>p\<close> are linked both ways, between two neighbours.\<close>

fun seg :: "'d heap \<Rightarrow> nat \<Rightarrow> ptr \<Rightarrow> nat list \<Rightarrow> ptr \<Rightarrow> bool" where
  "seg h p pre [] post \<longleftrightarrow> True"
| "seg h p pre (c # cs) post \<longleftrightarrow>
     (case nodes h c of
        None \<Rightarrow> False
      | Some n \<Rightarrow> parent n = Some p \<and> prev n = pre \<and> nxt n = first cs post \<and> seg h p (Some c) cs post)"

lemma seg_append [simp]:
  "seg h p pre (cs @ ds) post \<longleftrightarrow> seg h p pre cs (first ds post) \<and> seg h p (final cs pre) ds post"
  by (induction cs arbitrary: pre) (auto split: option.splits)

lemma seg_cong: "(\<And>c. c \<in> set cs \<Longrightarrow> nodes h' c = nodes h c) \<Longrightarrow> seg h' p pre cs post = seg h p pre cs post"
  by (induction cs arbitrary: pre) (auto split: option.splits)

lemma seg_node: "seg h p pre cs post \<Longrightarrow> c \<in> set cs \<Longrightarrow> \<exists>n. nodes h c = Some n \<and> parent n = Some p"
  by (induction cs arbitrary: pre) (auto split: option.splits)

lemma seg_unique:
  "seg h p pre cs None \<Longrightarrow> seg h q pre' ds None \<Longrightarrow> first cs None = first ds None \<Longrightarrow> cs = ds"
proof (induction cs arbitrary: pre pre' ds)
  case (Cons c cs)
  then obtain ds' where "ds = c # ds'" by (cases ds) auto
  with Cons show ?case by (auto split: option.splits)
qed (auto simp: first_def split: list.splits)

lemma seg_distinct: "seg h p pre cs None \<Longrightarrow> distinct cs"
proof (induction cs arbitrary: pre)
  case (Cons c cs)
  have "c \<notin> set cs"
  proof
    assume "c \<in> set cs"
    then obtain us vs where cs: "cs = us @ c # vs" by (meson split_list)
    with Cons.prems have "seg h p (final us (Some c)) (c # vs) None" by (auto split: option.splits)
    from seg_unique [OF Cons.prems this] show False by (simp add: cs)
  qed
  with Cons show ?case by (auto split: option.splits)
qed simp

section \<open>The value of a tree of nodes\<close>

datatype tree = Node (addr: nat) (subs: "tree list")

fun addrs :: "tree \<Rightarrow> nat list" where
  "addrs (Node a ts) = a # concat (map addrs ts)"

definition key_at :: "'d heap \<Rightarrow> nat \<Rightarrow> byte list option" where
  "key_at h a = (case nodes h a of None \<Rightarrow> None | Some n \<Rightarrow> key n)"

text \<open>What a node holds, and how it is linked.\<close>

definition content :: "'d heap \<Rightarrow> nat \<Rightarrow> (JsonTag \<times> 'd payload) option" where
  "content h a = map_option (\<lambda>n. (tag n, payload n)) (nodes h a)"

definition links :: "'d heap \<Rightarrow> nat \<Rightarrow> (ptr \<times> ptr \<times> ptr \<times> byte list option) option" where
  "links h a = map_option (\<lambda>n. (parent n, prev n, nxt n, key n)) (nodes h a)"

text \<open>The node \<open>a\<close> has the tag and the children of a container.\<close>

definition box :: "'d heap \<Rightarrow> JsonTag \<Rightarrow> nat \<Rightarrow> nat list \<Rightarrow> bool" where
  "box h t a cs \<longleftrightarrow>
     (\<exists>pl. content h a = Some (t, pl) \<and> children pl = Ret (first cs None, final cs None)) \<and> seg h a None cs None"

fun rep :: "'d heap \<Rightarrow> tree \<Rightarrow> 'd json \<Rightarrow> bool" where
  "rep h (Node a ts) JNull \<longleftrightarrow> ts = [] \<and> content h a = Some (JSON_NULL, Zero)"
| "rep h (Node a ts) (JBool b) \<longleftrightarrow> ts = [] \<and> content h a = Some (JSON_BOOL, BoolVal b)"
| "rep h (Node a ts) (JString s) \<longleftrightarrow> ts = [] \<and> content h a = Some (JSON_STRING, StringVal (Some s))"
| "rep h (Node a ts) (JNumber x) \<longleftrightarrow> ts = [] \<and> content h a = Some (JSON_NUMBER, NumberVal x)"
| "rep h (Node a ts) (JArray vs) \<longleftrightarrow>
     box h JSON_ARRAY a (map addr ts) \<and> list_all2 (\<lambda>t v. key_at h (addr t) = None \<and> rep h t v) ts vs"
| "rep h (Node a ts) (JObject ms) \<longleftrightarrow>
     box h JSON_OBJECT a (map addr ts) \<and> list_all2 (\<lambda>t m. key_at h (addr t) = Some (fst m) \<and> rep h t (snd m)) ts ms"

text \<open>Arrays and objects alike, as lists of items: a key, or none, and a value.\<close>

type_synonym 'd item = "byte list option \<times> 'd json"

definition items_of :: "JsonTag \<Rightarrow> 'd item list \<Rightarrow> bool" where
  "items_of T its \<longleftrightarrow> (T = JSON_ARRAY \<or> T = JSON_OBJECT) \<and> list_all (\<lambda>(k, _). (k \<noteq> None) = (T = JSON_OBJECT)) its"

definition box_value :: "JsonTag \<Rightarrow> 'd item list \<Rightarrow> 'd json" where
  "box_value T its = (if T = JSON_ARRAY then JArray (map snd its) else JObject (map (map_prod the id) its))"

definition contains :: "'d heap \<Rightarrow> JsonTag \<Rightarrow> nat \<Rightarrow> tree list \<Rightarrow> 'd item list \<Rightarrow> bool" where
  "contains h T a ts its \<longleftrightarrow> items_of T its \<and>
     box h T a (map addr ts) \<and> list_all2 (\<lambda>t (k, v). key_at h (addr t) = k \<and> rep h t v) ts its"

lemma rep_array: "rep h (Node a ts) (JArray vs) \<longleftrightarrow> contains h JSON_ARRAY a ts (map (Pair None) vs)"
  by (simp add: contains_def items_of_def list.rel_map list_all_length)

lemma rep_object: "rep h (Node a ts) (JObject ms) \<longleftrightarrow> contains h JSON_OBJECT a ts (map (map_prod Some id) ms)"
  by (simp add: contains_def items_of_def list.rel_map list_all_length case_prod_beta)

lemma box_value_rep: "contains h T a ts its \<Longrightarrow> rep h (Node a ts) (box_value T its)"
  by (auto simp: contains_def items_of_def box_value_def list.rel_map list_all_length list_all2_conv_all_nth
      split: prod.splits) (metis fst_conv option.sel option.distinct(1) snd_conv surj_pair)+

lemma list_all2_ex: "list_all2 R xs ys \<Longrightarrow> x \<in> set xs \<Longrightarrow> \<exists>y \<in> set ys. R x y"
  by (induction rule: list_all2_induct) auto

lemma list_all2_cong_left:
  "(\<And>x y. x \<in> set xs \<Longrightarrow> P x y = Q x y) \<Longrightarrow> list_all2 P xs ys = list_all2 Q xs ys"
  by (auto simp: list_all2_conv_all_nth)

lemma rep_kids: "rep h (Node a ts) v \<Longrightarrow> t \<in> set ts \<Longrightarrow> \<exists>w. rep h t w"
  by (cases v) (auto dest!: list_all2_ex)

lemma rep_box:
  "rep h (Node a ts) v \<Longrightarrow> ts = [] \<and> (\<exists>T pl. content h a = Some (T, pl) \<and> T \<noteq> JSON_ARRAY \<and> T \<noteq> JSON_OBJECT)
    \<or> box h JSON_ARRAY a (map addr ts) \<or> box h JSON_OBJECT a (map addr ts)"
  by (cases v) auto

lemma box_unique: "box h T a cs \<Longrightarrow> box h T' a ds \<Longrightarrow> T = T' \<and> cs = ds"
  by (auto simp: box_def intro: seg_unique)

lemma rep_seg: "rep h (Node a ts) v \<Longrightarrow> seg h a None (map addr ts) None"
  using rep_box [of h a ts v] by (auto simp: box_def)

lemma addr_in_addrs [simp]: "addr t \<in> set (addrs t)"
  by (cases t) simp

lemma addrs_head: "hd (addrs t) = addr t"
  by (cases t) simp

lemma contains_kids: "contains h T a ts its \<Longrightarrow> t \<in> set ts \<Longrightarrow> \<exists>v. rep h t v"
  by (auto simp: contains_def dest!: list_all2_ex)

lemma rep_unique: "rep h t v \<Longrightarrow> rep h t' v' \<Longrightarrow> addr t = addr t' \<Longrightarrow> t = t'"
proof (induction t arbitrary: v t' v')
  case (Node a ts)
  obtain us where t': "t' = Node a us" using Node.prems(3) by (cases t') auto
  from rep_box [OF Node.prems(1)] rep_box [OF Node.prems(2) [unfolded t']]
  have eq: "map addr ts = map addr us" by (auto simp: box_def intro: seg_unique)
  have "ts = us"
  proof (rule nth_equalityI)
    show len: "length ts = length us" using eq map_eq_imp_length_eq by blast
    fix i assume i: "i < length ts"
    with len rep_kids [OF Node.prems(1)] rep_kids [OF Node.prems(2) [unfolded t']]
    obtain w w' where "rep h (ts ! i) w" "rep h (us ! i) w'" by (metis nth_mem)
    moreover have "addr (ts ! i) = addr (us ! i)" using eq i len by (metis nth_map)
    ultimately show "ts ! i = us ! i" using Node.IH i nth_mem by blast
  qed
  then show ?case by (simp add: t')
qed

section \<open>Trees share no node\<close>

definition up :: "'d heap \<Rightarrow> nat \<Rightarrow> nat" where
  "up h x = (case nodes h x of None \<Rightarrow> x | Some n \<Rightarrow> (case parent n of None \<Rightarrow> x | Some p \<Rightarrow> p))"

lemma rep_child_up: "rep h (Node a ts) v \<Longrightarrow> t \<in> set ts \<Longrightarrow> up h (addr t) = a"
  using seg_node [OF rep_seg, of h a ts v "addr t"] by (auto simp: up_def)

lemma rep_climb:
  "rep h t v \<Longrightarrow> b \<in> set (addrs t) \<Longrightarrow> \<exists>k. (up h ^^ k) b = addr t \<and> (\<forall>i \<le> k. (up h ^^ i) b \<in> set (addrs t))"
proof (induction t arbitrary: v)
  case (Node a ts)
  show ?case
  proof (cases "b = a")
    case True
    then show ?thesis by (auto intro!: exI [of _ 0])
  next
    case False
    with Node.prems(2) obtain t where t: "t \<in> set ts" "b \<in> set (addrs t)" by auto
    with rep_kids [OF Node.prems(1)] obtain w where "rep h t w" by blast
    from Node.IH [OF t(1) this t(2)] obtain k
      where k: "(up h ^^ k) b = addr t" "\<forall>i \<le> k. (up h ^^ i) b \<in> set (addrs t)" by blast
    have s: "(up h ^^ Suc k) b = a" using rep_child_up [OF Node.prems(1) t(1)] k(1) by simp
    have "(up h ^^ i) b \<in> set (addrs (Node a ts))" if "i \<le> Suc k" for i
    proof (cases "i = Suc k")
      case True
      with s show ?thesis by (simp only: addrs.simps) simp
    next
      case False
      with that k(2) have "(up h ^^ i) b \<in> set (addrs t)" by simp
      with t(1) show ?thesis by auto
    qed
    with s show ?thesis by (intro exI [of _ "Suc k"]) (simp del: addrs.simps funpow.simps)
  qed
qed

lemma rep_subtree: "rep h t v \<Longrightarrow> b \<in> set (addrs t) \<Longrightarrow> \<exists>s w. rep h s w \<and> addr s = b \<and> size s \<le> size t"
proof (induction t arbitrary: v)
  case (Node a ts)
  show ?case
  proof (cases "b = a")
    case True
    with Node.prems show ?thesis by (intro exI [of _ "Node a ts"]) auto
  next
    case False
    with Node.prems(2) obtain t where t: "t \<in> set ts" "b \<in> set (addrs t)" by auto
    with rep_kids [OF Node.prems(1)] obtain w where "rep h t w" by blast
    from Node.IH [OF t(1) this t(2)] obtain s u where s: "rep h s u" "addr s = b" "size s \<le> size t" by blast
    have "size t \<le> size_list size ts" by (rule size_list_estimation' [OF t(1)]) simp
    with s show ?thesis by (intro exI [of _ s] exI [of _ u]) simp
  qed
qed

lemma rep_root_once: "rep h (Node a ts) v \<Longrightarrow> t \<in> set ts \<Longrightarrow> a \<notin> set (addrs t)"
proof
  assume r: "rep h (Node a ts) v" and t: "t \<in> set ts" and "a \<in> set (addrs t)"
  moreover from r t rep_kids obtain w where "rep h t w" by blast
  ultimately obtain s u where s: "rep h s u" "addr s = a" "size s \<le> size t" using rep_subtree by metis
  with rep_unique [OF s(1) r] have "s = Node a ts" by simp
  with s(3) t size_list_estimation' [of t ts "size t" size] show False by auto
qed

lemma rep_siblings_apart:
  assumes "rep h (Node a ts) v" "s \<in> set ts" "t \<in> set ts" "b \<in> set (addrs s)" "b \<in> set (addrs t)"
  shows "addr s = addr t"
proof -
  from assms rep_kids obtain w w' where w: "rep h s w" "rep h t w'" by blast
  from rep_climb [OF w(1) assms(4)] obtain k
    where k: "(up h ^^ k) b = addr s" "\<forall>i \<le> k. (up h ^^ i) b \<in> set (addrs s)" by blast
  from rep_climb [OF w(2) assms(5)] obtain l
    where l: "(up h ^^ l) b = addr t" "\<forall>i \<le> l. (up h ^^ i) b \<in> set (addrs t)" by blast
  have "(up h ^^ Suc k) b = a" "(up h ^^ Suc l) b = a"
    using rep_child_up [OF assms(1)] assms(2,3) k(1) l(1) by auto
  moreover have "a \<notin> set (addrs s)" "a \<notin> set (addrs t)" using rep_root_once [OF assms(1)] assms(2,3) by auto
  ultimately have "\<not> Suc k \<le> l" "\<not> Suc l \<le> k" using k(2) l(2) by metis+
  then have "k = l" by simp
  with k(1) l(1) show ?thesis by simp
qed

lemma rep_distinct: "rep h t v \<Longrightarrow> distinct (addrs t)"
proof (induction t arbitrary: v)
  case (Node a ts)
  have d: "distinct (map addr ts)" using rep_seg [OF Node.prems] by (rule seg_distinct)
  have "distinct (concat (map addrs ts))"
  proof (rule distinct_concat)
    show "distinct (map addrs ts)"
      unfolding distinct_map
    proof (intro conjI inj_onI)
      show "distinct ts" using d by (simp add: distinct_map)
      fix s t assume "s \<in> set ts" "t \<in> set ts" "addrs s = addrs t"
      moreover from this have "addr s = addr t" by (metis addrs_head)
      ultimately show "s = t" using d by (auto simp: distinct_map dest: inj_onD)
    qed
  next
    fix ys assume "ys \<in> set (map addrs ts)"
    then obtain t where "t \<in> set ts" "ys = addrs t" by auto
    with Node.IH [OF this(1)] rep_kids [OF Node.prems this(1)] show "distinct ys" by blast
  next
    fix ys zs assume "ys \<in> set (map addrs ts)" "zs \<in> set (map addrs ts)" "ys \<noteq> zs"
    then show "set ys \<inter> set zs = {}"
      using rep_siblings_apart [OF Node.prems] d by (auto simp: distinct_map) (metis inj_onD)
  qed
  moreover have "a \<notin> set (concat (map addrs ts))" using rep_root_once [OF Node.prems] by auto
  ultimately show ?case by simp
qed

section \<open>Frames\<close>

lemma seg_content: "seg h p pre cs post \<Longrightarrow> c \<in> set cs \<Longrightarrow> content h c \<noteq> None"
  by (auto simp: content_def dest: seg_node)

lemma rep_cong:
  "content h' (addr t) = content h (addr t) \<Longrightarrow> (\<And>x. x \<in> set (tl (addrs t)) \<Longrightarrow> nodes h' x = nodes h x) \<Longrightarrow>
    rep h' t v = rep h t v"
proof (induction t arbitrary: v)
  case (Node a ts)
  have kid: "nodes h' x = nodes h x" if "x \<in> set (addrs t)" "t \<in> set ts" for x t
    using Node.prems(2) that by auto
  have "rep h' t w = rep h t w" if "t \<in> set ts" for t w
  proof (rule Node.IH [OF that])
    show "content h' (addr t) = content h (addr t)" using kid [OF _ that] by (simp add: content_def)
    show "nodes h' x = nodes h x" if "x \<in> set (tl (addrs t))" for x
      using kid [OF _ \<open>t \<in> set ts\<close>] that by (cases t) auto
  qed
  moreover have "seg h' a None (map addr ts) None = seg h a None (map addr ts) None"
    by (rule seg_cong) (auto intro: kid [OF addr_in_addrs])
  then have "box h' T a (map addr ts) = box h T a (map addr ts)" for T
    using Node.prems(1) by (simp add: box_def)
  moreover have "key_at h' (addr t) = key_at h (addr t)" if "t \<in> set ts" for t
    using kid [OF _ that] by (simp add: key_at_def)
  moreover from calculation(1,3) have
    "list_all2 (\<lambda>t v. key_at h' (addr t) = None \<and> rep h' t v) ts vs = list_all2 (\<lambda>t v. key_at h (addr t) = None \<and> rep h t v) ts vs"
    "list_all2 (\<lambda>t m. key_at h' (addr t) = Some (fst m) \<and> rep h' t (snd m)) ts ms =
     list_all2 (\<lambda>t m. key_at h (addr t) = Some (fst m) \<and> rep h t (snd m)) ts ms" for vs ms
    by - (rule list_all2_cong_left; simp)+
  ultimately show ?case using Node.prems(1) by (cases v) auto
qed

corollary rep_frame: "(\<And>x. x \<in> set (addrs t) \<Longrightarrow> nodes h' x = nodes h x) \<Longrightarrow> rep h' t v = rep h t v"
  by (rule rep_cong) (cases t; simp add: content_def)+

text \<open>
  A change that concerns the children of \<open>a\<close>: nodes outside \<open>S\<close> stay, only \<open>a\<close> gets another
  content, and its own links stay.
\<close>

definition relinked :: "'d heap \<Rightarrow> 'd heap \<Rightarrow> nat \<Rightarrow> nat set \<Rightarrow> bool" where
  "relinked h h' a S \<longleftrightarrow> fresh h' = fresh h \<and> (\<forall>x. x \<notin> S \<longrightarrow> nodes h' x = nodes h x) \<and>
     (\<forall>x. x \<noteq> a \<longrightarrow> content h' x = content h x) \<and> links h' a = links h a"

definition detached :: "'d heap \<Rightarrow> nat \<Rightarrow> bool" where
  "detached h a \<longleftrightarrow> (\<exists>n. nodes h a = Some n \<and> parent n = None \<and> key n = None)"

lemma relinked_rep:
  assumes "relinked h h' a S" "addr t \<noteq> a" "set (tl (addrs t)) \<inter> S = {}"
  shows "rep h' t v = rep h t v"
  using assms by (intro rep_cong) (auto simp: relinked_def)

section \<open>Attaching\<close>

lemma load_Some [simp]: "nodes h a = Some n \<Longrightarrow> load (Some a) h = Ret n"
  by (simp add: load_def)

lemma modify_Some [simp]: "nodes h a = Some n \<Longrightarrow> modify (Some a) f h = Ret (h\<lparr>nodes := (nodes h)(a \<mapsto> f n)\<rparr>)"
  by (simp add: modify_def)

lemma contentD: "content h a = Some (T, pl) \<Longrightarrow> \<exists>n. nodes h a = Some n \<and> tag n = T \<and> payload n = pl"
  by (auto simp: content_def)

text \<open>The links of a child put behind the others, and in front of them.\<close>

lemma append_node_box:
  assumes b: "box h T a cs" and c: "nodes h c = Some n" "c \<notin> set cs" "c \<noteq> a" "a \<notin> set cs"
  shows "\<exists>h'. append_node (Some a) (Some c) h = Ret h' \<and> box h' T a (cs @ [c]) \<and> relinked h h' a ({a, c} \<union> set cs)
    \<and> key_at h' = key_at h"
proof -
  from b obtain A where A: "nodes h a = Some A" "tag A = T" "children (payload A) = Ret (first cs None, final cs None)"
    by (auto simp: box_def dest: contentD)
  show ?thesis
  proof (cases cs rule: rev_cases)
    case Nil
    with A c show ?thesis
      by (auto simp: append_node_def kids_def set_head_def set_tail_def box_def content_def links_def relinked_def
        key_at_def fun_eq_iff)
  next
    case (snoc ds l)
    with b have s: "seg h a None ds (Some l)" "distinct (ds @ [l])"
      using seg_distinct [of h a None cs] by (auto simp: box_def)
    from b snoc obtain L where L: "nodes h l = Some L" "parent L = Some a" "prev L = final ds None" "nxt L = None"
      by (auto simp: box_def split: option.splits)
    define h' where "h' = h\<lparr>nodes := (nodes h)(c \<mapsto> n\<lparr>parent := Some a, prev := Some l, nxt := None\<rparr>,
      l \<mapsto> L\<lparr>nxt := Some c\<rparr>, a \<mapsto> A\<lparr>payload := Children (first cs None) (Some c)\<rparr>)\<rparr>"
    have "append_node (Some a) (Some c) h = Ret h'"
      using A c L snoc by (auto simp: append_node_def kids_def set_tail_def h'_def fun_eq_iff)
    moreover have "seg h' a None ds (Some l)"
      using s c(2,4) snoc unfolding h'_def by (subst seg_cong [of ds _ h]) auto
    with L c snoc have "box h' T a (cs @ [c])"
      by (auto simp: box_def h'_def content_def A)
    moreover have "relinked h h' a ({a, c} \<union> set cs)" "key_at h' = key_at h"
      using A L c snoc by (auto simp: relinked_def h'_def content_def links_def key_at_def fun_eq_iff)
    ultimately show ?thesis by blast
  qed
qed

lemma prepend_node_box:
  assumes b: "box h T a cs" and c: "nodes h c = Some n" "c \<notin> set cs" "c \<noteq> a" "a \<notin> set cs"
  shows "\<exists>h'. prepend_node (Some a) (Some c) h = Ret h' \<and> box h' T a (c # cs) \<and> relinked h h' a ({a, c} \<union> set cs)
    \<and> key_at h' = key_at h"
proof -
  from b obtain A where A: "nodes h a = Some A" "tag A = T" "children (payload A) = Ret (first cs None, final cs None)"
    by (auto simp: box_def dest: contentD)
  show ?thesis
  proof (cases cs)
    case Nil
    with A c show ?thesis
      by (auto simp: prepend_node_def kids_def set_head_def set_tail_def box_def content_def links_def relinked_def
        key_at_def fun_eq_iff)
  next
    case (Cons l ds)
    with b have s: "seg h a (Some l) ds None" "distinct (l # ds)"
      using seg_distinct [of h a None cs] by (auto simp: box_def split: option.splits)
    from b Cons obtain L where L: "nodes h l = Some L" "parent L = Some a" "prev L = None" "nxt L = first ds None"
      by (auto simp: box_def split: option.splits)
    define h' where "h' = h\<lparr>nodes := (nodes h)(c \<mapsto> n\<lparr>parent := Some a, prev := None, nxt := Some l\<rparr>,
      l \<mapsto> L\<lparr>prev := Some c\<rparr>, a \<mapsto> A\<lparr>payload := Children (Some c) (final cs None)\<rparr>)\<rparr>"
    have "prepend_node (Some a) (Some c) h = Ret h'"
      using A c L Cons by (auto simp: prepend_node_def kids_def set_head_def h'_def fun_eq_iff)
    moreover have "seg h' a (Some l) ds None"
      using s c(2,4) Cons unfolding h'_def by (subst seg_cong [of ds _ h]) auto
    with L c Cons have "box h' T a (c # cs)"
      by (auto simp: box_def h'_def content_def A)
    moreover have "relinked h h' a ({a, c} \<union> set cs)" "key_at h' = key_at h"
      using A L c Cons by (auto simp: relinked_def h'_def content_def links_def key_at_def fun_eq_iff)
    ultimately show ?thesis by blast
  qed
qed

text \<open>Insertion in front or at the end, for trees and for items.\<close>

definition put :: "bool \<Rightarrow> 'a \<Rightarrow> 'a list \<Rightarrow> 'a list" where
  "put front x xs = (if front then x # xs else xs @ [x])"

lemma map_put [simp]: "map f (put b x xs) = put b (f x) (map f xs)"
  by (simp add: put_def)

lemma set_put [simp]: "set (put b x xs) = insert x (set xs)"
  by (auto simp: put_def)

lemma list_all2_put [intro]: "list_all2 R xs ys \<Longrightarrow> R x y \<Longrightarrow> list_all2 R (put b x xs) (put b y ys)"
  by (simp add: put_def list_all2_appendI)

lemma list_all_put [simp]: "list_all P (put b x xs) \<longleftrightarrow> P x \<and> list_all P xs"
  by (auto simp: put_def)

text \<open>The trees in a container are apart from each other and from its own node.\<close>

lemma contains_apart:
  assumes "contains h T a ts its" "t \<in> set ts"
  shows "addr t \<noteq> a" "set (tl (addrs t)) \<inter> ({a} \<union> set (map addr ts)) = {}"
proof -
  note r = box_value_rep [OF assms(1)]
  from rep_root_once [OF r assms(2)] show "addr t \<noteq> a" by auto
  have "addr s \<notin> set (tl (addrs t))" if s: "s \<in> set ts" for s
  proof
    assume "addr s \<in> set (tl (addrs t))"
    moreover from this have "addr s \<in> set (addrs t)" by (cases t) simp
    with rep_siblings_apart [OF r s assms(2) addr_in_addrs] have "addr s = addr t" by simp
    moreover obtain w where "rep h t w" using rep_kids [OF r assms(2)] by blast
    then have "addr t \<notin> set (tl (addrs t))" using rep_distinct [of h t w] by (cases t) simp
    ultimately show False by simp
  qed
  moreover have "a \<notin> set (tl (addrs t))" using rep_root_once [OF r assms(2)] by (cases t) simp
  ultimately show "set (tl (addrs t)) \<inter> ({a} \<union> set (map addr ts)) = {}" by auto
qed

lemma tree_apart: "rep h t v \<Longrightarrow> addr t \<notin> set (tl (addrs t))"
  using rep_distinct [of h t v] by (cases t) simp

definition apart :: "tree \<Rightarrow> nat \<Rightarrow> tree list \<Rightarrow> bool" where
  "apart t a ts \<longleftrightarrow> set (addrs t) \<inter> set (addrs (Node a ts)) = {}"

lemma apartD:
  "apart t a ts \<Longrightarrow> addr t \<noteq> a" "apart t a ts \<Longrightarrow> addr t \<notin> set (map addr ts)"
  "apart t a ts \<Longrightarrow> set (tl (addrs t)) \<inter> ({a} \<union> set (map addr ts)) = {}"
  "apart t a ts \<Longrightarrow> s \<in> set ts \<Longrightarrow> addr t \<notin> set (tl (addrs s))"
  by (cases t; cases s; force simp: apart_def)+

text \<open>From the links to the contents.\<close>

lemma contains_put:
  assumes c: "contains h T a ts its" and t: "rep h t v" "apart t a ts"
    and h': "box h' T a (map addr (put b t ts))" "relinked h h' a ({a, addr t} \<union> set (map addr ts))"
    and k: "key_at h' = (key_at h)(addr t := k)" and its: "items_of T ((k, v) # its)"
  shows "contains h' T a (put b t ts) (put b (k, v) its)"
proof -
  have "rep h' s w = rep h s w" if s: "s \<in> set ts" for s w
    using contains_apart [OF c s] apartD(4) [OF t(2) s] by (intro relinked_rep [OF h'(2)]) auto
  moreover have "rep h' t v"
    using t(1) apartD [OF t(2)] tree_apart [OF t(1)] by (subst relinked_rep [OF h'(2)]) auto
  moreover have "key_at h' (addr s) = key_at h (addr s)" if "s \<in> set ts" for s
    using apartD(2) [OF t(2)] that k by (metis fun_upd_other image_eqI list.set_map)
  moreover have "list_all2 (\<lambda>t (k, v). key_at h (addr t) = k \<and> rep h t v) ts its"
    using c by (simp add: contains_def)
  ultimately have "list_all2 (\<lambda>t (k, v). key_at h' (addr t) = k \<and> rep h' t v) (put b t ts) (put b (k, v) its)"
    using k by (intro list_all2_put) (auto simp: list_all2_conv_all_nth split: prod.splits)
  then show ?thesis using h'(1) its by (auto simp: contains_def items_of_def)
qed

section \<open>Detaching\<close>

lemma seg_remove:
  assumes s: "seg h p None (us @ c # vs) None" and n: "nodes h c = Some n"
  shows "prev n = final us None" "nxt n = first vs None" "parent n = Some p"
    "seg h p None us (Some c)" "seg h p (Some c) vs None" "distinct (us @ c # vs)"
  using s n seg_distinct [OF s] by auto

text \<open>A child that goes: the one in front of it, the one behind it, and the ends of the container.\<close>

lemma json_remove_from_parent_box:
  assumes b: "box h T a (us @ c # vs)" and c: "nodes h c = Some n" "a \<notin> set (us @ c # vs)"
  shows "\<exists>h'. json_remove_from_parent (Some c) h = Ret h' \<and> box h' T a (us @ vs) \<and> detached h' c
    \<and> relinked h h' a ({a, c} \<union> set (us @ vs)) \<and> key_at h' = (key_at h)(c := None)"
proof -
  from b obtain A where A: "nodes h a = Some A" "tag A = T"
    "children (payload A) = Ret (first (us @ c # vs) None, final (us @ c # vs) None)"
    by (auto simp: box_def dest: contentD)
  from b have s: "seg h a None (us @ c # vs) None" by (simp add: box_def)
  note r = seg_remove [OF s c(1)]
  note defs = json_remove_from_parent_def kids_def set_head_def set_tail_def
  note goals = box_def content_def links_def relinked_def key_at_def fun_eq_iff detached_def
  define n' where "n' = n\<lparr>parent := None, prev := None, nxt := None, key := None\<rparr>"
  show ?thesis
  proof (cases us rule: rev_cases)
    case us: Nil
    show ?thesis
    proof (cases vs)
      case Nil
      then show ?thesis using A c r us by (auto simp: defs goals)
    next
      case (Cons m ws)
      obtain M where M: "nodes h m = Some M" "parent M = Some a" "prev M = Some c" "nxt M = first ws None"
        and sw: "seg h a (Some m) ws None"
        using r(5) Cons by (auto split: option.splits)
      define h' where "h' = h\<lparr>nodes := (nodes h)(a \<mapsto> A\<lparr>payload := Children (Some m) (final vs (Some c))\<rparr>,
        m \<mapsto> M\<lparr>prev := None\<rparr>, c \<mapsto> n')\<rparr>"
      have "json_remove_from_parent (Some c) h = Ret h'"
        using A c r us Cons M by (auto simp: defs h'_def n'_def fun_eq_iff)
      moreover have "seg h' a (Some m) ws None"
        using sw r(6) c(2) Cons unfolding h'_def by (subst seg_cong [of ws _ h]) auto
      ultimately show ?thesis using A c r us Cons M by (auto simp: goals h'_def n'_def)
    qed
  next
    case us: (snoc ds l)
    obtain L where L: "nodes h l = Some L" "parent L = Some a" "prev L = final ds None" "nxt L = Some c"
      and sd: "seg h a None ds (Some l)"
      using r(4) us by (auto split: option.splits)
    show ?thesis
    proof (cases vs)
      case Nil
      define h' where "h' = h\<lparr>nodes := (nodes h)(l \<mapsto> L\<lparr>nxt := None\<rparr>,
        a \<mapsto> A\<lparr>payload := Children (first us (Some c)) (Some l)\<rparr>, c \<mapsto> n')\<rparr>"
      have "json_remove_from_parent (Some c) h = Ret h'"
        using A c r us Nil L by (auto simp: defs h'_def n'_def fun_eq_iff)
      moreover have "seg h' a None ds (Some l)"
        using sd r(6) c(2) us Nil unfolding h'_def by (subst seg_cong [of ds _ h]) auto
      ultimately show ?thesis using A c r us Nil L by (auto simp: goals h'_def n'_def)
    next
      case (Cons m ws)
      obtain M where M: "nodes h m = Some M" "parent M = Some a" "prev M = Some c" "nxt M = first ws None"
        and sw: "seg h a (Some m) ws None"
        using r(5) Cons by (auto split: option.splits)
      define h' where "h' = h\<lparr>nodes := (nodes h)(l \<mapsto> L\<lparr>nxt := Some m\<rparr>, m \<mapsto> M\<lparr>prev := Some l\<rparr>, c \<mapsto> n')\<rparr>"
      have "json_remove_from_parent (Some c) h = Ret h'"
        using A c r us Cons L M by (auto simp: defs h'_def n'_def fun_eq_iff)
      moreover have "seg h' a None ds (Some l)" "seg h' a (Some m) ws None"
        using sd sw r(6) c(2) us Cons unfolding h'_def by (subst seg_cong [of _ _ h]; auto)+
      ultimately show ?thesis using A c r us Cons L M by (auto simp: goals h'_def n'_def)
    qed
  qed
qed

lemma contains_remove:
  assumes c: "contains h T a (us @ t # vs) (is @ (k, v) # js)" "length us = length is"
    and n: "nodes h (addr t) = Some n"
  shows "\<exists>h'. json_remove_from_parent (Some (addr t)) h = Ret h' \<and> contains h' T a (us @ vs) (is @ js) \<and>
    rep h' t v \<and> detached h' (addr t) \<and> relinked h h' a ({a, addr t} \<union> set (map addr (us @ vs)))"
proof -
  note r = box_value_rep [OF c(1)]
  let ?ts = "us @ t # vs"
  have "distinct (map addr ?ts)" using rep_seg [OF r] by (rule seg_distinct)
  then have d: "addr t \<notin> set (map addr (us @ vs))" by auto
  have a: "a \<notin> set (map addr ?ts)" using contains_apart(1) [OF c(1)] by auto
  with c(1) n obtain h' where h': "json_remove_from_parent (Some (addr t)) h = Ret h'"
    "box h' T a (map addr (us @ vs))" "detached h' (addr t)"
    "relinked h h' a ({a, addr t} \<union> set (map addr (us @ vs)))" "key_at h' = (key_at h)(addr t := None)"
    using json_remove_from_parent_box [of h T a "map addr us" "addr t" "map addr vs" n] by (auto simp: contains_def)
  have keep: "rep h' s w = rep h s w" if s: "s \<in> set ?ts" for s w
    using contains_apart [OF c(1) s] by (intro relinked_rep [OF h'(4)]) auto
  have l: "list_all2 (\<lambda>t (k, v). key_at h (addr t) = k \<and> rep h t v) us is"
    "list_all2 (\<lambda>t (k, v). key_at h (addr t) = k \<and> rep h t v) vs js" "rep h t v"
    using c by (auto simp: contains_def list_all2_append)
  have k: "key_at h' (addr s) = key_at h (addr s)" if "s \<in> set us \<or> s \<in> set vs" for s
    using d that h'(5) by (auto simp: image_iff)
  have "list_all2 (\<lambda>t (k, v). key_at h' (addr t) = k \<and> rep h' t v) us is"
    "list_all2 (\<lambda>t (k, v). key_at h' (addr t) = k \<and> rep h' t v) vs js"
    using l(1,2) keep k by (auto simp: list_all2_conv_all_nth split: prod.splits)
  then have "contains h' T a (us @ vs) (is @ js)"
    using h'(2) c(1) by (auto simp: contains_def items_of_def intro: list_all2_appendI)
  moreover have "rep h' t v" using l(3) keep by simp
  ultimately show ?thesis using h' by blast
qed

section \<open>The contract of attaching\<close>

text \<open>
  What the four attaching functions promise: the tree becomes the first or last item of the
  container, with the key given, and nothing but the links of the container's children and of
  the tree's root changes; an assertion fails when the container has another tag or the tree is
  attached already.
\<close>

locale attach =
  fixes put_child :: "nat \<Rightarrow> nat \<Rightarrow> 'd heap \<Rightarrow> 'd heap outcome"
    and T :: JsonTag
    and k :: "byte list option"
    and front :: bool
  assumes attaches:
      "contains h T a ts its \<Longrightarrow> rep h t v \<Longrightarrow> detached h (addr t) \<Longrightarrow> apart t a ts \<Longrightarrow>
        \<exists>h'. put_child a (addr t) h = Ret h' \<and> contains h' T a (put front t ts) (put front (k, v) its) \<and>
          relinked h h' a ({a, addr t} \<union> set (map addr ts))"
    and other_tag: "nodes h a = Some n \<Longrightarrow> tag n \<noteq> T \<Longrightarrow> put_child a c h = Fault Assert_failed"
    and attached: "nodes h a = Some n \<Longrightarrow> tag n = T \<Longrightarrow> nodes h c = Some m \<Longrightarrow> parent m \<noteq> None \<Longrightarrow>
        put_child a c h = Fault Assert_failed"
begin

lemma put_child_value:
  assumes "contains h T a ts its" "rep h t v" "detached h (addr t)" "apart t a ts"
  shows "\<exists>h'. put_child a (addr t) h = Ret h' \<and>
    rep h' (Node a (put front t ts)) (box_value T (put front (k, v) its))"
  using attaches [OF assms] box_value_rep by blast

text \<open>Removing what was attached gives the container and the tree back.\<close>

lemma put_remove:
  assumes c: "contains h T a ts its" and t: "rep h t v" "detached h (addr t)" "apart t a ts"
  shows "\<exists>h'. bindO (put_child a (addr t) h) (json_remove_from_parent (Some (addr t))) = Ret h' \<and>
    contains h' T a ts its \<and> rep h' t v \<and> detached h' (addr t)"
proof -
  from attaches [OF c t] obtain h1 where h1: "put_child a (addr t) h = Ret h1"
    "contains h1 T a (put front t ts) (put front (k, v) its)" by blast
  from rep_kids [OF box_value_rep [OF h1(2)], of t] obtain w where "rep h1 t w" by auto
  then obtain n where "nodes h1 (addr t) = Some n" by (cases t; cases w) (auto simp: box_def dest: contentD)
  moreover have "length ts = length its" using c by (auto simp: contains_def dest: list_all2_lengthD)
  ultimately show ?thesis
    using h1 contains_remove [of h1 T a "[]" t ts "[]" k v its n] contains_remove [of h1 T a ts t "[]" its k v "[]" n]
    by (cases front) (auto simp: put_def)
qed

text \<open>The same child is not attached twice.\<close>

lemma put_twice:
  assumes c: "contains h T a ts its" and t: "rep h t v" "detached h (addr t)" "apart t a ts"
  shows "bindO (put_child a (addr t) h) (put_child a (addr t)) = Fault Assert_failed"
proof -
  from attaches [OF c t] obtain h1 where h1: "put_child a (addr t) h = Ret h1"
    "contains h1 T a (put front t ts) (put front (k, v) its)" by blast
  then have b: "box h1 T a (map addr (put front t ts))" by (simp add: contains_def)
  then obtain n where "nodes h1 a = Some n" "tag n = T" by (auto simp: box_def dest: contentD)
  moreover have "addr t \<in> set (map addr (put front t ts))" by simp
  with b seg_node obtain m where "nodes h1 (addr t) = Some m" "parent m = Some a" unfolding box_def by metis
  ultimately show ?thesis using h1(1) attached [of h1 a n "addr t" m] by simp
qed

end

lemma can_attach_simp:
  "nodes h a = Some n \<Longrightarrow> nodes h c = Some m \<Longrightarrow>
    can_attach T (Some a) (Some c) h = assertO (tag n = T \<and> parent m = None)"
  by (cases "tag n = T") (simp_all add: can_attach_def)

lemma contains_tag: "contains h T a ts its \<Longrightarrow> \<exists>n. nodes h a = Some n \<and> tag n = T"
  by (auto simp: contains_def box_def dest: contentD)

text \<open>The common part: the child is given its key, then its links.\<close>

definition place_child :: "bool \<Rightarrow> byte list option \<Rightarrow> nat \<Rightarrow> nat \<Rightarrow> 'd heap \<Rightarrow> 'd heap outcome" where
  "place_child front k a c h =
     bindO (if k = None then Ret h else modify (Some c) (key_update (\<lambda>_. k)) h)
       (if front then prepend_node (Some a) (Some c) else append_node (Some a) (Some c))"

lemma place_child_attaches:
  assumes c: "contains h T a ts its" and t: "rep h t v" "detached h (addr t)" "apart t a ts"
    and its: "items_of T [(k, v)]"
  shows "\<exists>h'. place_child front k a (addr t) h = Ret h' \<and> contains h' T a (put front t ts) (put front (k, v) its) \<and>
    relinked h h' a ({a, addr t} \<union> set (map addr ts))"
proof -
  from t(2) obtain n where n: "nodes h (addr t) = Some n" "parent n = None" "key n = None"
    by (auto simp: detached_def)
  define g where "g = h\<lparr>nodes := (nodes h)(addr t \<mapsto> n\<lparr>key := k\<rparr>)\<rparr>"
  have g: "(if k = None then Ret h else modify (Some (addr t)) (key_update (\<lambda>_. k)) h) = Ret g"
    using n by (cases h) (auto simp: g_def fun_eq_iff)
  have same: "content g = content h" "key_at g = (key_at h)(addr t := k)" "fresh g = fresh h"
    "\<And>x. x \<noteq> addr t \<Longrightarrow> nodes g x = nodes h x"
    using n by (auto simp: g_def content_def key_at_def fun_eq_iff)
  note ap = apartD [OF t(3)]
  have "seg g a None (map addr ts) None = seg h a None (map addr ts) None"
    using ap(2) by (intro seg_cong same(4)) force
  with c have b: "box g T a (map addr ts)" by (auto simp: contains_def box_def same)
  have a: "a \<notin> set (map addr ts)" using contains_apart(1) [OF c] by auto
  have ng: "nodes g (addr t) = Some (n\<lparr>key := k\<rparr>)" by (simp add: g_def)
  obtain h' where h': "place_child front k a (addr t) h = Ret h'"
    "box h' T a (map addr (put front t ts))" "relinked g h' a ({a, addr t} \<union> set (map addr ts))" "key_at h' = key_at g"
    using append_node_box [OF b ng ap(2,1) a] prepend_node_box [OF b ng ap(2,1) a]
    by (cases front) (auto simp: place_child_def g put_def)
  have r: "relinked h h' a ({a, addr t} \<union> set (map addr ts))"
    using h'(3) ap(1) by (auto simp: relinked_def same links_def)
  have "contains h' T a (put front t ts) (put front (k, v) its)"
    using contains_put [OF c t(1,3) h'(2) r] h'(4) same(2) c its by (simp add: contains_def items_of_def)
  with h'(1) r show ?thesis by blast
qed

lemma attach_place:
  assumes op: "\<And>a c h. op a c h = bindO (can_attach T (Some a) (Some c) h) (\<lambda>_. place_child front k a c h)"
    and T: "T = JSON_ARRAY \<or> T = JSON_OBJECT" "(k \<noteq> None) = (T = JSON_OBJECT)"
  shows "attach op T k front"
proof
  fix h :: "'a heap" and a ts its t v
  assume c: "contains h T a ts its" and t: "rep h t v" "detached h (addr t)" "apart t a ts"
  have "items_of T [(k, v)]" using T by (simp add: items_of_def)
  moreover obtain n where "nodes h a = Some n" "tag n = T" using contains_tag [OF c] by blast
  moreover obtain m where "nodes h (addr t) = Some m" "parent m = None" using t(2) by (auto simp: detached_def)
  ultimately show "\<exists>h'. op a (addr t) h = Ret h' \<and> contains h' T a (put front t ts) (put front (k, v) its) \<and>
      relinked h h' a ({a, addr t} \<union> set (map addr ts))"
    using place_child_attaches [OF c t] by (simp add: op can_attach_simp)
next
  fix h :: "'a heap" and a n c assume "nodes h a = Some n" "tag n \<noteq> T"
  then show "op a c h = Fault Assert_failed" by (simp add: op can_attach_def)
next
  fix h :: "'a heap" and a n c m
  assume "nodes h a = Some n" "tag n = T" "nodes h c = Some m" "parent m \<noteq> None"
  then show "op a c h = Fault Assert_failed" by (auto simp: op can_attach_simp)
qed

interpretation append_element: attach "\<lambda>a c. json_append_element (Some a) (Some c)" JSON_ARRAY None False
  by (rule attach_place) (simp_all add: json_append_element_def place_child_def)

interpretation prepend_element: attach "\<lambda>a c. json_prepend_element (Some a) (Some c)" JSON_ARRAY None True
  by (rule attach_place) (simp_all add: json_prepend_element_def place_child_def)

interpretation append_member: attach "\<lambda>a c. json_append_member (Some a) kk (Some c)" JSON_OBJECT "Some kk" False for kk
  by (rule attach_place) (simp_all add: json_append_member_def append_member_def place_child_def)

interpretation prepend_member: attach "\<lambda>a c. json_prepend_member (Some a) kk (Some c)" JSON_OBJECT "Some kk" True for kk
  by (rule attach_place) (simp_all add: json_prepend_member_def place_child_def)

end
