(* ===== verification/JsonDomFacts.thy ===== *)
theory JsonDomFacts
  imports JsonTree
begin

text \<open>
  The operations of src/json.c on trees of nodes: building, reading, looking up and deleting,
  each against the value the tree holds.
\<close>

section \<open>The size of a tree\<close>

text \<open>\<open>calloc\<close> returns an address that is not in use: those below \<open>fresh\<close> have been given out.\<close>

definition below :: "'d heap \<Rightarrow> bool" where
  "below h \<longleftrightarrow> (\<forall>a. nodes h a \<noteq> None \<longrightarrow> a < fresh h)"

lemma rep_node: "rep h t v \<Longrightarrow> nodes h (addr t) \<noteq> None"
  by (cases t; cases v) (auto simp: box_def dest: contentD)

lemma rep_allocated: "rep h t v \<Longrightarrow> set (addrs t) \<subseteq> {a. nodes h a \<noteq> None}"
proof
  fix a assume "rep h t v" "a \<in> set (addrs t)"
  from rep_subtree [OF this] obtain s w where "rep h s w" "addr s = a" by blast
  then show "a \<in> {a. nodes h a \<noteq> None}" using rep_node by auto
qed

lemma rep_below: "rep h t v \<Longrightarrow> below h \<Longrightarrow> set (addrs t) \<subseteq> {..<fresh h}"
  using rep_allocated [of h t v] by (auto simp: below_def)

definition weight :: "tree \<Rightarrow> nat" where
  "weight t = length (addrs t)"

lemma weight_Node [simp]: "weight (Node a ts) = Suc (\<Sum>t\<leftarrow>ts. weight t)"
  by (simp add: weight_def length_concat comp_def)

lemma weight_pos: "Suc 0 \<le> weight t"
  by (cases t) simp

lemma kids_weight: "length ts \<le> (\<Sum>t\<leftarrow>ts. weight t)"
  using sum_list_mono [of ts "\<lambda>_. Suc 0" weight] weight_pos by (simp add: sum_list_triv)

lemma rep_weight: "rep h t v \<Longrightarrow> below h \<Longrightarrow> weight t \<le> fresh h"
  unfolding weight_def
  using card_mono [OF finite_lessThan rep_below] rep_distinct [of h t v] by (fastforce simp: distinct_card)

section \<open>Reading\<close>

text \<open>The steps of a walk over a tree: two for each node.\<close>

lemma read_elements_rep:
  assumes "\<And>t v n. t \<in> set ts \<Longrightarrow> rep h t v \<Longrightarrow> 2 * weight t \<le> n \<Longrightarrow> read_node n (Some (addr t)) h = Ret v"
    "seg h a pre (map addr ts) None" "list_all2 (rep h) ts vs" "Suc (2 * (\<Sum>t\<leftarrow>ts. weight t)) \<le> n"
  shows "read_elements n (first (map addr ts) None) h = Ret vs"
  using assms(3,1,2,4)
proof (induction arbitrary: n pre rule: list_all2_induct)
  case Nil
  then show ?case by (cases n) auto
next
  case (Cons t ts v vs)
  then obtain m where n: "n = Suc m" by (cases n) auto
  have "read_node m (Some (addr t)) h = Ret v" using Cons.prems n Cons.hyps(1) by simp
  moreover have "read_elements m (first (map addr ts) None) h = Ret vs"
    using Cons.prems n weight_pos [of t] by (intro Cons.IH [of "Some (addr t)"]) (auto split: option.splits)
  ultimately show ?case using Cons.prems(2) by (auto simp: n split: option.splits)
qed

lemma read_members_rep:
  assumes "\<And>t v n. t \<in> set ts \<Longrightarrow> rep h t v \<Longrightarrow> 2 * weight t \<le> n \<Longrightarrow> read_node n (Some (addr t)) h = Ret v"
    "seg h a pre (map addr ts) None"
    "list_all2 (\<lambda>t m. key_at h (addr t) = Some (fst m) \<and> rep h t (snd m)) ts ms"
    "Suc (2 * (\<Sum>t\<leftarrow>ts. weight t)) \<le> n"
  shows "read_members n (first (map addr ts) None) h = Ret ms"
  using assms(3,1,2,4)
proof (induction arbitrary: n pre rule: list_all2_induct)
  case Nil
  then show ?case by (cases n) auto
next
  case (Cons t ts p ms)
  then obtain m where n: "n = Suc m" by (cases n) auto
  have "read_node m (Some (addr t)) h = Ret (snd p)" using Cons.prems n Cons.hyps(1) by simp
  moreover have "read_members m (first (map addr ts) None) h = Ret ms"
    using Cons.prems n weight_pos [of t] by (intro Cons.IH [of "Some (addr t)"]) (auto split: option.splits)
  ultimately show ?case
    using Cons.prems(2) Cons.hyps(1) by (auto simp: n json_strdup_def key_at_def split: option.splits)
qed

lemma read_node_rep: "rep h t v \<Longrightarrow> 2 * weight t \<le> n \<Longrightarrow> read_node n (Some (addr t)) h = Ret v"
proof (induction t arbitrary: v n)
  case (Node a ts)
  then obtain m where n: "n = Suc m" by (cases n) auto
  have fuel: "Suc (2 * (\<Sum>t\<leftarrow>ts. weight t)) \<le> m" using Node.prems(2) n by simp
  have kids: "t \<in> set ts \<Longrightarrow> rep h t v \<Longrightarrow> 2 * weight t \<le> n \<Longrightarrow> read_node n (Some (addr t)) h = Ret v" for t v n
    by (rule Node.IH)
  show ?case
  proof (cases v)
    case (JArray vs)
    with Node.prems have b: "box h JSON_ARRAY a (map addr ts)" "list_all2 (rep h) ts vs"
      by (auto elim: list_all2_mono)
    from b(1) have "seg h a None (map addr ts) None" by (simp add: box_def)
    from read_elements_rep [OF kids this b(2) fuel] b(1) show ?thesis
      by (auto simp: n JArray box_def dest!: contentD)
  next
    case (JObject ms)
    with Node.prems have b: "box h JSON_OBJECT a (map addr ts)"
      "list_all2 (\<lambda>t m. key_at h (addr t) = Some (fst m) \<and> rep h t (snd m)) ts ms" by auto
    from b(1) have "seg h a None (map addr ts) None" by (simp add: box_def)
    from read_members_rep [OF kids this b(2) fuel] b(1) show ?thesis
      by (auto simp: n JObject box_def dest!: contentD)
  qed (use Node.prems in \<open>auto simp: n json_strdup_def dest!: contentD\<close>)
qed

lemma json_encode_node_rep:
  "rep h t v \<Longrightarrow> below h \<Longrightarrow> json_encode_node fmt (Some (addr t)) h = json_encode fmt v"
  using read_node_rep [of h t v "walk_fuel h"] rep_weight [of h t v]
  by (simp add: json_encode_node_def walk_fuel_def)

section \<open>Building\<close>

lemma contains_frame:
  assumes c: "contains h T a ts its" and eq: "\<And>x. x \<in> set (addrs (Node a ts)) \<Longrightarrow> nodes h' x = nodes h x"
  shows "contains h' T a ts its"
proof -
  have kid: "nodes h' x = nodes h x" if "x \<in> set (addrs t)" "t \<in> set ts" for x t
    using eq [of x] that by auto
  have "seg h' a None (map addr ts) None = seg h a None (map addr ts) None"
    by (rule seg_cong) (auto intro: kid [OF addr_in_addrs])
  moreover have "rep h' t v = rep h t v" if "t \<in> set ts" for t v
    by (rule rep_frame) (rule kid [OF _ that])
  moreover have "key_at h' (addr t) = key_at h (addr t)" if "t \<in> set ts" for t
    using kid [OF addr_in_addrs that] by (simp add: key_at_def)
  moreover have "content h' a = content h a" using eq [of a] by (simp add: content_def)
  ultimately show ?thesis using c
    by (auto simp: contains_def box_def list_all2_conv_all_nth split: prod.splits)
qed

text \<open>
  A tree built on top of a heap: its nodes are the new ones, the old ones are as they were; and
  a container that is being filled.
\<close>

definition built :: "'d heap \<Rightarrow> 'd json \<Rightarrow> tree \<Rightarrow> 'd heap \<Rightarrow> bool" where
  "built h v t h' \<longleftrightarrow> rep h' t v \<and> detached h' (addr t) \<and> below h' \<and> set (addrs t) \<subseteq> {fresh h..<fresh h'} \<and>
     (\<forall>x. x \<notin> set (addrs t) \<longrightarrow> nodes h' x = nodes h x)"

definition filling :: "'d heap \<Rightarrow> JsonTag \<Rightarrow> nat \<Rightarrow> tree list \<Rightarrow> 'd item list \<Rightarrow> 'd heap \<Rightarrow> bool" where
  "filling h T a ts its h' \<longleftrightarrow> contains h' T a ts its \<and> detached h' a \<and> below h' \<and>
     set (addrs (Node a ts)) \<subseteq> {fresh h..<fresh h'} \<and>
     (\<forall>x. x \<notin> set (addrs (Node a ts)) \<longrightarrow> nodes h' x = nodes h x)"

lemma filling_built: "filling h T a ts its h' \<Longrightarrow> built h (box_value T its) (Node a ts) h'"
  by (auto simp: filling_def built_def box_value_rep)

lemma filling_start:
  assumes "below h" "T = JSON_ARRAY \<or> T = JSON_OBJECT"
  shows "filling h T (fresh h) [] [] (snd (mknode T h))"
  using assms by (auto simp: filling_def mknode_def contains_def items_of_def box_def content_def detached_def
      below_def less_Suc_eq split: if_splits)

lemma built_leaf:
  assumes "below h" "\<And>h'. content h' (fresh h) = Some (T, pl) \<Longrightarrow> rep h' (Node (fresh h) []) v"
  shows "built h v (Node (fresh h) []) (h\<lparr>nodes := (nodes h)(fresh h \<mapsto>
    \<lparr>parent = None, prev = None, nxt = None, key = None, tag = T, payload = pl\<rparr>), fresh := Suc (fresh h)\<rparr>)"
  using assms by (auto simp: built_def below_def less_Suc_eq detached_def content_def)

lemma links_detached: "detached h a \<longleftrightarrow> (\<exists>p n. links h a = Some (None, p, n, None))"
  by (auto simp: detached_def links_def)

lemma relinked_nodes: "relinked h h' a S \<Longrightarrow> nodes h' x = None \<longleftrightarrow> nodes h x = None"
proof -
  assume "relinked h h' a S"
  then have "content h' x = content h x \<or> links h' x = links h x" by (cases "x = a") (auto simp: relinked_def)
  then show ?thesis by (cases "nodes h' x"; cases "nodes h x") (simp_all add: content_def links_def)
qed

lemma relinked_below: "relinked h h' a S \<Longrightarrow> below h \<Longrightarrow> below h'"
  using relinked_nodes [of h h' a S] by (auto simp: below_def relinked_def)

lemma relinked_detached: "relinked h h' a S \<Longrightarrow> detached h a \<Longrightarrow> detached h' a"
  by (auto simp: links_detached relinked_def)

text \<open>One more item.\<close>

lemma filling_step:
  assumes f: "filling h T a ts its h1" and b: "built h1 v t h2"
    and p: "\<And>h3. contains h2 T a ts its \<Longrightarrow> rep h2 t v \<Longrightarrow> detached h2 (addr t) \<Longrightarrow> apart t a ts \<Longrightarrow>
      \<exists>h3. op h2 = Ret h3 \<and> contains h3 T a (ts @ [t]) (its @ [(k, v)]) \<and>
        relinked h2 h3 a ({a, addr t} \<union> set (map addr ts))"
  shows "\<exists>h3. op h2 = Ret h3 \<and> filling h T a (ts @ [t]) (its @ [(k, v)]) h3"
proof -
  have R: "fresh h \<le> x \<and> x < fresh h1" if "x \<in> set (addrs (Node a ts))" for x
    using f that unfolding filling_def by auto
  have R': "fresh h1 \<le> x \<and> x < fresh h2" if "x \<in> set (addrs t)" for x
    using b that unfolding built_def by auto
  have out: "x \<notin> set (addrs t)" if "x \<in> set (addrs (Node a ts))" for x
    using R [OF that] R' [of x] by auto
  have le: "fresh h \<le> fresh h1" "fresh h1 \<le> fresh h2" using R [of a] R' [of "addr t"] by auto
  have RR: "fresh h \<le> x \<and> x < fresh h2" if "x \<in> set (addrs (Node a (ts @ [t])))" for x
  proof -
    from that have "x \<in> set (addrs (Node a ts)) \<or> x \<in> set (addrs t)" by auto
    then show ?thesis using R [of x] R' [of x] le by linarith
  qed
  have c: "contains h2 T a ts its"
  proof (rule contains_frame)
    show "contains h1 T a ts its" using f unfolding filling_def by blast
    show "nodes h2 x = nodes h1 x" if "x \<in> set (addrs (Node a ts))" for x
      using b out [OF that] unfolding built_def by blast
  qed
  have ap: "apart t a ts" unfolding apart_def using out by blast
  from p [OF c] b ap obtain h3 where h3: "op h2 = Ret h3" "contains h3 T a (ts @ [t]) (its @ [(k, v)])"
    "relinked h2 h3 a ({a, addr t} \<union> set (map addr ts))" by (auto simp: built_def)
  have sub: "{a, addr t} \<union> set (map addr ts) \<subseteq> set (addrs (Node a (ts @ [t])))" by auto
  have "below h3" using relinked_below [OF h3(3)] b by (simp add: built_def)
  moreover have "detached h2 a" using f b out [of a] by (auto simp: filling_def built_def detached_def)
  then have "detached h3 a" by (rule relinked_detached [OF h3(3)])
  moreover have "set (addrs (Node a (ts @ [t]))) \<subseteq> {fresh h..<fresh h3}"
  proof
    fix x assume "x \<in> set (addrs (Node a (ts @ [t])))"
    from RR [OF this] h3(3) show "x \<in> {fresh h..<fresh h3}" by (simp add: relinked_def)
  qed
  moreover have "nodes h3 x = nodes h x" if "x \<notin> set (addrs (Node a (ts @ [t])))" for x
  proof -
    have "nodes h3 x = nodes h2 x" using that sub h3(3) unfolding relinked_def by (metis subsetD)
    also have "\<dots> = nodes h1 x" using that b by (auto simp: built_def)
    also have "\<dots> = nodes h x" using that f by (auto simp: filling_def)
    finally show ?thesis .
  qed
  ultimately show ?thesis using h3(1,2) by (auto simp: filling_def)
qed

lemma make_elements_filling:
  assumes "\<And>v h. v \<in> set vs \<Longrightarrow> below h \<Longrightarrow> \<exists>t h'. make_node v h = Ret (addr t, h') \<and> built h v t h'"
    "filling h JSON_ARRAY a ts its h1"
  shows "\<exists>us h2. make_elements a vs h1 = Ret h2 \<and> filling h JSON_ARRAY a (ts @ us) (its @ map (Pair None) vs) h2"
  using assms
proof (induction vs arbitrary: ts its h1)
  case Nil
  then show ?case by (auto intro!: exI [of _ "[]"])
next
  case (Cons v vs)
  have "below h1" using Cons.prems(2) unfolding filling_def by simp
  from Cons.prems(1) [OF list.set_intros(1) this] obtain t h2
    where t: "make_node v h1 = Ret (addr t, h2)" "built h1 v t h2" by blast
  have "\<exists>h3. json_append_element (Some a) (Some (addr t)) h2 = Ret h3 \<and>
      filling h JSON_ARRAY a (ts @ [t]) (its @ [(None, v)]) h3"
    using append_element.attaches [of h2 a ts its t v] by (intro filling_step [OF Cons.prems(2) t(2)]) (simp add: put_def)
  then obtain h3 where h3: "json_append_element (Some a) (Some (addr t)) h2 = Ret h3"
    "filling h JSON_ARRAY a (ts @ [t]) (its @ [(None, v)]) h3" by blast
  obtain us h4 where "make_elements a vs h3 = Ret h4"
    "filling h JSON_ARRAY a ((ts @ [t]) @ us) ((its @ [(None, v)]) @ map (Pair None) vs) h4"
    using Cons.IH [OF Cons.prems(1) h3(2)] by auto
  with t(1) h3(1) show ?case by (intro exI [of _ "t # us"] exI [of _ h4]) simp
qed

lemma make_members_filling:
  assumes "\<And>k v h. (k, v) \<in> set ms \<Longrightarrow> below h \<Longrightarrow> \<exists>t h'. make_node v h = Ret (addr t, h') \<and> built h v t h'"
    "filling h JSON_OBJECT a ts its h1"
  shows "\<exists>us h2. make_members a ms h1 = Ret h2 \<and> filling h JSON_OBJECT a (ts @ us) (its @ map (map_prod Some id) ms) h2"
  using assms
proof (induction ms arbitrary: ts its h1)
  case Nil
  then show ?case by (auto intro!: exI [of _ "[]"])
next
  case (Cons p ms)
  obtain k v where p: "p = (k, v)" by (cases p)
  have "below h1" using Cons.prems(2) unfolding filling_def by simp
  from Cons.prems(1) [OF _ this, of k v] p obtain t h2
    where t: "make_node v h1 = Ret (addr t, h2)" "built h1 v t h2" by force
  have "\<exists>h3. append_member (Some a) k (Some (addr t)) h2 = Ret h3 \<and>
      filling h JSON_OBJECT a (ts @ [t]) (its @ [(Some k, v)]) h3"
    using place_child_attaches [of h2 JSON_OBJECT a ts its t v "Some k" False]
    by (intro filling_step [OF Cons.prems(2) t(2)]) (simp add: put_def place_child_def append_member_def items_of_def)
  then obtain h3 where h3: "append_member (Some a) k (Some (addr t)) h2 = Ret h3"
    "filling h JSON_OBJECT a (ts @ [t]) (its @ [(Some k, v)]) h3" by blast
  obtain us h4 where "make_members a ms h3 = Ret h4"
    "filling h JSON_OBJECT a ((ts @ [t]) @ us) ((its @ [(Some k, v)]) @ map (map_prod Some id) ms) h4"
    using Cons.IH [OF _ h3(2)] Cons.prems(1) by (metis list.set_intros(2))
  with t(1) h3(1) show ?case by (intro exI [of _ "t # us"] exI [of _ h4]) (simp add: p id_def)
qed

lemma make_node_built: "below h \<Longrightarrow> \<exists>t h'. make_node v h = Ret (addr t, h') \<and> built h v t h'"
proof (induction v arbitrary: h)
  case (JArray vs)
  obtain us h2 where "make_elements (fresh h) vs (snd (mknode JSON_ARRAY h)) = Ret h2"
    "filling h JSON_ARRAY (fresh h) ([] @ us) ([] @ map (Pair None) vs) h2"
    using make_elements_filling [OF JArray.IH filling_start [OF JArray.prems]] by blast
  with filling_built [OF this(2)] show ?case
    by (intro exI [of _ "Node (fresh h) us"] exI [of _ h2])
      (simp add: json_mkarray_def mknode_def box_value_def comp_def)
next
  case (JObject ms)
  have "\<exists>t h'. make_node v h = Ret (addr t, h') \<and> built h v t h'" if "(k, v) \<in> set ms" "below h" for k v h
    by (rule JObject.IH [OF that(1) _ that(2)]) simp
  then obtain us h2 where "make_members (fresh h) ms (snd (mknode JSON_OBJECT h)) = Ret h2"
    "filling h JSON_OBJECT (fresh h) ([] @ us) ([] @ map (map_prod Some id) ms) h2"
    using make_members_filling [OF _ filling_start [OF JObject.prems]] by blast
  with filling_built [OF this(2)] show ?case
    by (intro exI [of _ "Node (fresh h) us"] exI [of _ h2])
      (simp add: json_mkobject_def mknode_def box_value_def comp_def case_prod_beta map_prod_def)
next
  case JNull
  from built_leaf [OF this, of JSON_NULL Zero JNull] show ?case
    by (intro exI [of _ "Node (fresh h) []"]) (simp add: json_mknull_def mknode_def)
next
  case (JBool b)
  from built_leaf [OF this, of JSON_BOOL "BoolVal b" "JBool b"] show ?case
    by (intro exI [of _ "Node (fresh h) []"]) (cases h, simp add: json_mkbool_def mknode_def)
next
  case (JString s)
  from built_leaf [OF this, of JSON_STRING "StringVal (Some s)" "JString s"] show ?case
    by (intro exI [of _ "Node (fresh h) []"]) (cases h, simp add: mkstring_def mknode_def)
next
  case (JNumber x)
  from built_leaf [OF this, of JSON_NUMBER "NumberVal x" "JNumber x"] show ?case
    by (intro exI [of _ "Node (fresh h) []"]) (cases h, simp add: json_mknumber_def mknode_def)
qed

section \<open>Deleting\<close>

definition wipe :: "nat set \<Rightarrow> 'd heap \<Rightarrow> 'd heap" where
  "wipe S h = h\<lparr>nodes := (\<lambda>x. if x \<in> S then None else nodes h x)\<rparr>"

lemma wipe_simps [simp]:
  "nodes (wipe S h) x = (if x \<in> S then None else nodes h x)" "fresh (wipe S h) = fresh h"
  by (simp_all add: wipe_def)

definition unowned :: "'d heap \<Rightarrow> nat \<Rightarrow> bool" where
  "unowned h a \<longleftrightarrow> (\<exists>n. nodes h a = Some n \<and> parent n = None)"

lemma detached_unowned: "detached h a \<Longrightarrow> unowned h a"
  by (auto simp: detached_def unowned_def)

lemma remove_unowned [simp]: "unowned h a \<Longrightarrow> json_remove_from_parent (Some a) h = Ret h"
  by (auto simp: json_remove_from_parent_def unowned_def)

lemma delete_removed:
  "json_remove_from_parent (Some a) h = Ret h' \<Longrightarrow> unowned h' a \<Longrightarrow>
    json_delete_in n (Some a) h = json_delete_in n (Some a) h'"
  by (cases n) simp_all

lemma addrs_apart:
  "distinct (addrs (Node a (t # ts))) \<Longrightarrow> x \<in> set (addrs (Node a ts)) \<Longrightarrow> x \<notin> set (addrs t)"
  by auto

lemma delete_children_contains:
  fixes h :: "'d heap"
  assumes "\<forall>t \<in> set ts. \<forall>v (h :: 'd heap) n. rep h t v \<longrightarrow> unowned h (addr t) \<longrightarrow> 2 * weight t \<le> n \<longrightarrow>
      json_delete_in n (Some (addr t)) h = Ret (wipe (set (addrs t)) h)"
    "contains h T a ts its" "Suc (2 * (\<Sum>t\<leftarrow>ts. weight t)) \<le> n"
  shows "\<exists>h'. delete_children n (first (map addr ts) None) h = Ret h' \<and> fresh h' = fresh h \<and> links h' a = links h a \<and>
    (\<forall>x. x \<noteq> a \<longrightarrow> nodes h' x = nodes (wipe (\<Union>t \<in> set ts. set (addrs t)) h) x)"
  using assms
proof (induction ts arbitrary: its h n)
  case Nil
  then show ?case by (cases n) auto
next
  case (Cons t ts)
  let ?ts = "t # ts"
  obtain m where n: "n = Suc m" using Cons.prems(3) by (cases n) auto
  have fuel: "2 * weight t \<le> m" "Suc (2 * (\<Sum>t\<leftarrow>ts. weight t)) \<le> m" using Cons.prems(3) weight_pos [of t] n by auto
  obtain k v js where its: "its = (k, v) # js" using Cons.prems(2) by (cases its) (auto simp: contains_def)
  have r: "rep h (Node a ?ts) (box_value T its)" by (rule box_value_rep [OF Cons.prems(2)])
  obtain c where c: "nodes h (addr t) = Some c" "nxt c = first (map addr ts) None"
    using rep_seg [OF r] by (auto split: option.splits)
  from contains_remove [of h T a "[]" t ts "[]" k v js c] Cons.prems(2) c(1) its
  obtain h1 where h1: "json_remove_from_parent (Some (addr t)) h = Ret h1" "contains h1 T a ts js" "rep h1 t v"
    "detached h1 (addr t)" "relinked h h1 a ({a, addr t} \<union> set (map addr ts))" by auto
  have d: "distinct (addrs (Node a ?ts))" using rep_distinct [OF r] .
  let ?h2 = "wipe (set (addrs t)) h1"
  have del: "json_delete_in m (Some (addr t)) h = Ret ?h2"
    unfolding delete_removed [OF h1(1) detached_unowned [OF h1(4)]]
    using Cons.prems(1) h1(3) detached_unowned [OF h1(4)] fuel(1) by simp
  have "contains ?h2 T a ts js"
    by (rule contains_frame [OF h1(2)]) (use addrs_apart [OF d] in \<open>auto simp del: addrs.simps\<close>)
  from Cons.IH [OF _ this fuel(2)] Cons.prems(1)
  obtain h' where h': "delete_children m (first (map addr ts) None) ?h2 = Ret h'" "fresh h' = fresh ?h2"
    "links h' a = links ?h2 a"
    "\<forall>x. x \<noteq> a \<longrightarrow> nodes h' x = nodes (wipe (\<Union>t \<in> set ts. set (addrs t)) ?h2) x" by auto
  have "a \<notin> set (addrs t)" using d by auto
  then have "links h' a = links h a" using h'(3) h1(5) by (simp add: relinked_def links_def)
  moreover have "nodes h' x = nodes (wipe (\<Union>t \<in> set ?ts. set (addrs t)) h) x" if x: "x \<noteq> a" for x
  proof (cases "x \<in> (\<Union>t \<in> set ?ts. set (addrs t))")
    case False
    then have "x \<notin> {a, addr t} \<union> set (map addr ts)" using x by auto
    with False h'(4) h1(5) x show ?thesis by (simp add: relinked_def)
  qed (use h'(4) x in auto)
  ultimately show ?case using h'(1,2) h1(5) del c by (auto simp: n relinked_def)
qed

lemma json_delete_in_rep:
  fixes h :: "'d heap"
  shows "rep h t v \<Longrightarrow> unowned h (addr t) \<Longrightarrow> 2 * weight t \<le> n \<Longrightarrow>
    json_delete_in n (Some (addr t)) h = Ret (wipe (set (addrs t)) h)"
proof (induction t arbitrary: v h n)
  case (Node a ts)
  then obtain m where n: "n = Suc m" by (cases n) auto
  have fuel: "Suc (2 * (\<Sum>t\<leftarrow>ts. weight t)) \<le> m" using Node.prems(3) n by simp
  have kids: "\<forall>t \<in> set ts. \<forall>v (h :: 'd heap) n. rep h t v \<longrightarrow> unowned h (addr t) \<longrightarrow> 2 * weight t \<le> n \<longrightarrow>
      json_delete_in n (Some (addr t)) h = Ret (wipe (set (addrs t)) h)"
    using Node.IH by blast
  show ?case
  proof (cases "\<exists>T its. contains h T a ts its")
    case True
    then obtain T its where c: "contains h T a ts its" by blast
    from delete_children_contains [OF kids this fuel] obtain h'
      where h': "delete_children m (first (map addr ts) None) h = Ret h'" "fresh h' = fresh h" "links h' a = links h a"
        "\<forall>x. x \<noteq> a \<longrightarrow> nodes h' x = nodes (wipe (\<Union>t \<in> set ts. set (addrs t)) h) x" by blast
    from c obtain A where A: "nodes h a = Some A" "tag A = T" "T = JSON_ARRAY \<or> T = JSON_OBJECT"
      "children (payload A) = Ret (first (map addr ts) None, final (map addr ts) None)"
      by (auto simp: contains_def items_of_def box_def dest!: contentD)
    moreover from this h'(3) obtain B where "nodes h' a = Some B" by (auto simp: links_def)
    moreover have "wipe (insert a (\<Union>t \<in> set ts. set (addrs t))) h = h'\<lparr>nodes := (nodes h')(a := None)\<rparr>"
      using h'(2,4) by (cases h; cases h') (auto simp: wipe_def fun_eq_iff)
    ultimately show ?thesis using Node.prems(2) h'(1)
      by (auto simp: n free_node_def)
  next
    case False
    then have "ts = []" "\<exists>A. nodes h a = Some A \<and> tag A \<noteq> JSON_ARRAY \<and> tag A \<noteq> JSON_OBJECT \<and>
      (tag A = JSON_STRING \<longrightarrow> (\<exists>s. string_val (payload A) = Ret s))"
      using Node.prems(1) by (cases v; auto simp: rep_array rep_object simp del: rep.simps(5,6) dest: contentD; fail)+
    moreover have "wipe {a} h = h\<lparr>nodes := (nodes h)(a := None)\<rparr>" by (cases h) (auto simp: wipe_def fun_eq_iff)
    ultimately show ?thesis using Node.prems(2) by (auto simp: n free_node_def)
  qed
qed

lemma json_delete_rep: "rep h t v \<Longrightarrow> below h \<Longrightarrow> unowned h (addr t) \<Longrightarrow>
    json_delete (Some (addr t)) h = Ret (wipe (set (addrs t)) h)"
  using json_delete_in_rep [of h t v "walk_fuel h"] rep_weight [of h t v] by (simp add: json_delete_def walk_fuel_def)

lemma built_new: "built h v t h' \<Longrightarrow> below h \<Longrightarrow> x \<in> set (addrs t) \<Longrightarrow> nodes h x = None"
  unfolding built_def below_def by (metis atLeastLessThan_iff not_le subsetD)

lemma built_delete:
  assumes "built h v t h'" "below h"
  shows "\<exists>h''. json_delete (Some (addr t)) h' = Ret h'' \<and> nodes h'' = nodes h \<and> below h''"
proof -
  have "nodes (wipe (set (addrs t)) h') = nodes h"
    using assms(1) built_new [OF assms] by (auto simp: built_def fun_eq_iff)
  moreover have "below (wipe (set (addrs t)) h')" using assms(1) by (simp add: built_def below_def)
  ultimately show ?thesis
    using assms(1) json_delete_rep [of h' t v] by (auto simp: built_def detached_unowned)
qed

section \<open>Looking up\<close>

lemma find_element_from_seg:
  "seg h a pre cs None \<Longrightarrow> length cs < n \<Longrightarrow> unat i + length cs \<le> 2 ^ 32 \<Longrightarrow>
    find_element_from n i index (first cs None) h =
      Ret (if i \<le> index \<and> unat index - unat i < length cs then Some (cs ! (unat index - unat i)) else None)"
proof (induction cs arbitrary: n i pre)
  case Nil
  then show ?case by (cases n) auto
next
  case (Cons c cs)
  then obtain m where n: "n = Suc m" by (cases n) auto
  obtain e where e: "nodes h c = Some e" "nxt e = first cs None" "seg h a (Some c) cs None"
    using Cons.prems(1) by (auto split: option.splits)
  show ?case
  proof (cases "i = index")
    case True
    then show ?thesis by (simp add: n)
  next
    case False
    show ?thesis
    proof (cases "cs = []")
      case True
      with False e Cons.prems(2) show ?thesis
        by (cases m) (auto simp: n word_le_nat_alt word_unat_eq_iff)
    next
      case ne: False
      then have u: "unat (i + 1) = Suc (unat i)"
        using Cons.prems(3) by (cases cs) (auto simp: unat_word_ariths)
      have "find_element_from m (i + 1) index (first cs None) h =
        Ret (if i + 1 \<le> index \<and> unat index - unat (i + 1) < length cs then Some (cs ! (unat index - unat (i + 1))) else None)"
        using Cons.prems(2,3) n u e(3) by (intro Cons.IH [of "Some c"]) auto
      moreover have "i + 1 \<le> index \<longleftrightarrow> i \<le> index" using False u by (auto simp: word_le_nat_alt word_unat_eq_iff)
      moreover have "unat index - unat i = Suc (unat index - unat (i + 1))" if "i \<le> index"
        using that False u by (auto simp: word_le_nat_alt word_unat_eq_iff)
      ultimately show ?thesis using False e by (auto simp: n)
    qed
  qed
qed

lemma find_member_from_seg:
  "seg h a pre cs None \<Longrightarrow> length cs < n \<Longrightarrow> map (key_at h) cs = map Some ks \<Longrightarrow>
    find_member_from n name (first cs None) h = Ret (map_of (zip ks cs) name)"
proof (induction cs arbitrary: n pre ks)
  case Nil
  then show ?case by (cases n) auto
next
  case (Cons c cs)
  then obtain m where n: "n = Suc m" by (cases n) auto
  from Cons.prems(3) obtain k js where ks: "ks = k # js" "key_at h c = Some k" "map (key_at h) cs = map Some js"
    by (cases ks) auto
  obtain e where e: "nodes h c = Some e" "nxt e = first cs None" "seg h a (Some c) cs None"
    using Cons.prems(1) by (auto split: option.splits)
  with ks(2) have "key e = Some k" by (simp add: key_at_def)
  with e ks Cons.IH [OF e(3), of m js] Cons.prems(2) show ?case by (auto simp: n json_strdup_def)
qed

lemma kids_fuel: "rep h (Node a ts) v \<Longrightarrow> below h \<Longrightarrow> length (map addr ts) < walk_fuel h"
  using rep_weight [of h "Node a ts" v] kids_weight [of ts] by (simp add: walk_fuel_def)

lemma json_find_element_rep:
  assumes r: "rep h (Node a ts) (JArray vs)" and b: "below h" and l: "length ts \<le> 2 ^ 32"
  shows "json_find_element (Some a) i h = Ret (if unat i < length ts then Some (addr (ts ! unat i)) else None)"
proof -
  from r obtain A where A: "nodes h a = Some A" "tag A = JSON_ARRAY"
    "children (payload A) = Ret (first (map addr ts) None, final (map addr ts) None)"
    by (auto simp: box_def dest!: contentD)
  from find_element_from_seg [OF rep_seg [OF r] kids_fuel [OF r b], of 0 i] l A show ?thesis
    by (auto simp: json_find_element_def json_first_child_def)
qed

lemma json_find_member_rep:
  assumes r: "rep h (Node a ts) (JObject ms)" and b: "below h"
  shows "json_find_member (Some a) name h = Ret (map_of (zip (map fst ms) (map addr ts)) name)"
proof -
  from r obtain A where A: "nodes h a = Some A" "tag A = JSON_OBJECT"
    "children (payload A) = Ret (first (map addr ts) None, final (map addr ts) None)"
    by (auto simp: box_def dest!: contentD)
  have "map (key_at h) (map addr ts) = map Some (map fst ms)"
    using r by (auto simp: list_all2_conv_all_nth intro!: nth_equalityI)
  from find_member_from_seg [OF rep_seg [OF r] kids_fuel [OF r b] this] A show ?thesis
    by (auto simp: json_find_member_def json_first_child_def)
qed

end
