(* ===== verification/JsonCheck.thy ===== *)
theory JsonCheck
  imports JsonDomFacts
begin

text \<open>
  \<open>json_check\<close> of src/json.c decides whether the nodes below a node form a tree with strings in
  UTF-8, in any heap whose nodes hold what their tags say. That is an invariant of the interface
  (\<open>typed\<close>), which being a tree is not: two appends make a cycle, on which the check never ends.
\<close>

section \<open>Nodes hold what their tags say\<close>

definition payload_ok :: "JsonTag \<Rightarrow> 'd payload \<Rightarrow> bool" where
  "payload_ok T pl \<longleftrightarrow>
     (case T of
        JSON_NULL \<Rightarrow> pl = Zero
      | JSON_BOOL \<Rightarrow> (\<exists>b. pl = BoolVal b)
      | JSON_STRING \<Rightarrow> (\<exists>s. pl = StringVal s \<and> (\<forall>str. s = Some str \<longrightarrow> 0 \<notin> set str))
      | JSON_NUMBER \<Rightarrow> (\<exists>x. pl = NumberVal x)
      | _ \<Rightarrow> (\<exists>r. children pl = Ret r))"

definition node_typed :: "'d JsonNode \<Rightarrow> bool" where
  "node_typed n \<longleftrightarrow> payload_ok (tag n) (payload n) \<and> (\<forall>k. key n = Some k \<longrightarrow> 0 \<notin> set k)"

definition typed :: "'d heap \<Rightarrow> bool" where
  "typed h \<longleftrightarrow> (\<forall>a n. nodes h a = Some n \<longrightarrow> node_typed n)"

section \<open>What the check accepts\<close>

definition key_good :: "byte list option \<Rightarrow> bool" where
  "key_good k \<longleftrightarrow> (\<forall>s. k = Some s \<longrightarrow> str_ok s)"

definition valid_item :: "'d heap \<Rightarrow> JsonTag \<Rightarrow> tree \<Rightarrow> bool" where
  "valid_item h T t \<longleftrightarrow> (key_at h (addr t) \<noteq> None) = (T = JSON_OBJECT) \<and> key_good (key_at h (addr t)) \<and>
     (\<exists>v. rep h t v \<and> json_wf v)"

lemma valid_items:
  assumes "T = JSON_ARRAY \<or> T = JSON_OBJECT"
  shows "(\<exists>v. rep h (Node a ts) v \<and> json_wf v) \<and> (\<exists>pl. content h a = Some (T, pl)) \<longleftrightarrow>
    box h T a (map addr ts) \<and> (\<forall>t \<in> set ts. valid_item h T t)"
proof (intro iffI; elim conjE exE)
  fix v pl assume r: "rep h (Node a ts) v" "json_wf v" and c: "content h a = Some (T, pl)"
  have "box h T a (map addr ts)"
    using rep_box [OF r(1)] c assms by (auto simp: box_def)
  moreover have "valid_item h T t" if t: "t \<in> set ts" for t
    using r c assms t by (cases v)
      (auto simp: box_def valid_item_def key_good_def dest!: list_all2_ex [OF _ t])
  ultimately show "box h T a (map addr ts) \<and> (\<forall>t \<in> set ts. valid_item h T t)" by blast
next
  assume b: "box h T a (map addr ts)" and v: "\<forall>t \<in> set ts. valid_item h T t"
  from v obtain f where f: "\<forall>t \<in> set ts. rep h t (f t) \<and> json_wf (f t)" unfolding valid_item_def by metis
  let ?v = "if T = JSON_ARRAY then JArray (map f ts) else JObject (map (\<lambda>t. (the (key_at h (addr t)), f t)) ts)"
  have "rep h (Node a ts) ?v" "json_wf ?v"
    using b v f assms by (auto simp: valid_item_def key_good_def list.rel_map list_all2_same)
  with b show "(\<exists>v. rep h (Node a ts) v \<and> json_wf v) \<and> (\<exists>pl. content h a = Some (T, pl))"
    by (auto simp: box_def)
qed

text \<open>Trees pass.\<close>

lemma final_Some [simp]: "final cs (Some c) \<noteq> None"
  by (simp add: final_def)

lemma check_children_accepts:
  assumes kids: "\<forall>t \<in> set ts. valid_item h T t \<and> addr t \<noteq> a \<and>
      (\<forall>n \<ge> 2 * weight t. json_check_in n (addr t) h = Ret None)"
    and s: "seg h a None (map addr us) (first (map addr ts) None)" "seg h a final_us (map addr ts) None"
    and all: "distinct (map addr (us @ ts))" "final_us = final (map addr us) None"
    and n: "Suc (2 * (\<Sum>t\<leftarrow>ts. weight t)) \<le> n"
  shows "check_children n a T (first (map addr (us @ ts)) None) (first (map addr ts) None) final_us h =
    Ret (Inr (final (map addr ts) final_us))"
  using assms
proof (induction ts arbitrary: us final_us n)
  case Nil
  then show ?case by (cases n) auto
next
  case (Cons t ts)
  let ?head = "first (map addr (us @ t # ts)) None"
  obtain m where m: "n = Suc m" using Cons.prems(6) by (cases n) auto
  obtain c where c: "nodes h (addr t) = Some c" "parent c = Some a" "prev c = final_us" "nxt c = first (map addr ts) None"
    "seg h a (Some (addr t)) (map addr ts) None"
    using Cons.prems(3) by (auto split: option.splits)
  have "json_check_in m (addr t) h = Ret None" using Cons.prems(1,6) m by auto
  moreover have "check_children m a T ?head (first (map addr ts) None) (Some (addr t)) h =
      Ret (Inr (final (map addr ts) (Some (addr t))))"
  proof -
    have kids: "\<forall>t \<in> set ts. valid_item h T t \<and> addr t \<noteq> a \<and> (\<forall>n \<ge> 2 * weight t. json_check_in n (addr t) h = Ret None)"
      using Cons.prems(1) by (metis list.set_intros(2))
    have s: "seg h a None (map addr (us @ [t])) (first (map addr ts) None)" using Cons.prems(2,5) c by simp
    have d: "distinct (map addr ((us @ [t]) @ ts))" using Cons.prems(4) by simp
    have f: "Suc (2 * (\<Sum>t\<leftarrow>ts. weight t)) \<le> m" using Cons.prems(6) m weight_pos [of t] by simp
    have l: "Some (addr t) = final (map addr (us @ [t])) None" by simp
    from Cons.IH [OF kids s c(5) d l f] show ?thesis by simp
  qed
  moreover have "nxt c \<noteq> Some (addr t)" "nxt c \<noteq> ?head"
    using Cons.prems(4) c(4) by (cases ts; cases us; auto)+
  moreover have "(if nxt c \<noteq> None then bindO (load (nxt c) h) (\<lambda>nn. Ret (prev nn = Some (addr t))) else Ret True) = Ret True"
    using c(4,5) by (cases ts) (auto split: option.splits)
  ultimately show ?case
    using Cons.prems(1) c by (auto simp: m valid_item_def key_at_def)
qed

lemma json_check_accepts:
  "rep h t v \<Longrightarrow> json_wf v \<Longrightarrow> key_good (key_at h (addr t)) \<Longrightarrow> 2 * weight t \<le> n \<Longrightarrow>
    json_check_in n (addr t) h = Ret None"
proof (induction t arbitrary: v n)
  case (Node a ts)
  obtain m where m: "n = Suc m" using Node.prems(4) by (cases n) auto
  obtain A where A: "nodes h a = Some A" using rep_node [OF Node.prems(1)] by auto
  have k: "(case key A of None \<Rightarrow> Ret True | Some k \<Rightarrow> utf8_validate (k @ [0])) = Ret True"
    using Node.prems(3) A by (auto simp: key_good_def key_at_def str_ok_def split: option.splits)
  show ?case
  proof (cases "tag A = JSON_ARRAY \<or> tag A = JSON_OBJECT")
    case True
    have "content h a = Some (tag A, payload A)" using A by (simp add: content_def)
    with valid_items [OF True, of h a ts] Node.prems(1,2)
    have b: "box h (tag A) a (map addr ts)" and items: "\<forall>t \<in> set ts. valid_item h (tag A) t" by blast+
    have ch: "children (payload A) = Ret (first (map addr ts) None, final (map addr ts) None)"
      using b A by (auto simp: box_def content_def)
    have kids: "\<forall>t \<in> set ts. valid_item h (tag A) t \<and> addr t \<noteq> a \<and> (\<forall>n \<ge> 2 * weight t. json_check_in n (addr t) h = Ret None)"
    proof
      fix t assume t: "t \<in> set ts"
      with items have it: "valid_item h (tag A) t" by simp
      then obtain w where "rep h t w" "json_wf w" "key_good (key_at h (addr t))" by (auto simp: valid_item_def)
      with Node.IH [OF t] it rep_root_once [OF Node.prems(1) t]
      show "valid_item h (tag A) t \<and> addr t \<noteq> a \<and> (\<forall>n \<ge> 2 * weight t. json_check_in n (addr t) h = Ret None)" by auto
    qed
    have s: "seg h a None (map addr ts) None" by (rule rep_seg [OF Node.prems(1)])
    have "check_children m a (tag A) (first (map addr ts) None) (first (map addr ts) None) None h =
        Ret (Inr (final (map addr ts) None))"
      using check_children_accepts [OF kids, of "[]" None m] s seg_distinct [OF s] Node.prems(4) m by simp
    moreover have "ts \<noteq> [] \<Longrightarrow> \<exists>c. nodes h (hd (map addr ts)) = Some c \<and> prev c = None"
      using s by (cases ts) (auto split: option.splits)
    ultimately show ?thesis
      using A k ch True by (cases ts) (auto simp: m)
  next
    case False
    then show ?thesis using Node.prems(1,2) A k
      by (cases v) (auto simp: m content_def box_def str_ok_def)
  qed
qed

text \<open>What passes is a tree.\<close>

lemma json_check_sound:
  assumes "typed h"
  shows "json_check_in n a h = Ret None \<Longrightarrow>
      \<exists>t v. addr t = a \<and> rep h t v \<and> json_wf v \<and> key_good (key_at h a)"
    and "check_children n a T head child pre h = Ret (Inr fin) \<Longrightarrow> T = JSON_ARRAY \<or> T = JSON_OBJECT \<Longrightarrow>
      \<forall>c m. child = Some c \<longrightarrow> nodes h c = Some m \<longrightarrow> prev m = pre \<Longrightarrow>
      \<exists>ts. first (map addr ts) None = child \<and> seg h a pre (map addr ts) None \<and> fin = final (map addr ts) pre \<and>
        (\<forall>t \<in> set ts. valid_item h T t)"
proof (induction n arbitrary: a T head child pre fin)
  case 0
  { case 1 then show ?case by simp next case 2 then show ?case by simp }
next
  case (Suc n)
  { case 1
    then obtain A where A: "nodes h a = Some A" by (auto simp: load_def bindO_Ret_iff split: option.splits)
    with assms have ty: "node_typed A" by (simp add: typed_def)
    have k: "key_good (key_at h a)"
    proof (cases "key A")
      case (Some s)
      with 1 A have "utf8_validate (s @ [0]) = Ret True" by (auto simp: bindO_Ret_iff split: if_splits)
      with Some ty A show ?thesis by (auto simp: key_good_def key_at_def str_ok_def node_typed_def)
    qed (simp add: key_good_def key_at_def A)
    let ?tree = "\<lambda>ts. \<exists>v. rep h (Node a ts) v \<and> json_wf v"
    have "\<exists>ts. ?tree ts"
    proof (cases "tag A = JSON_ARRAY \<or> tag A = JSON_OBJECT")
      case False
      then consider "tag A = JSON_NULL" "payload A = Zero" | b where "tag A = JSON_BOOL" "payload A = BoolVal b"
        | x where "tag A = JSON_NUMBER" "payload A = NumberVal x"
        | s where "tag A = JSON_STRING" "payload A = StringVal s" "\<forall>str. s = Some str \<longrightarrow> 0 \<notin> set str"
        using ty by (cases "tag A") (auto simp: node_typed_def payload_ok_def)
      then have "?tree []"
      proof cases
        case 1
        with A show ?thesis by (intro exI [of _ JNull]) (simp add: content_def)
      next
        case (2 b)
        with A show ?thesis by (intro exI [of _ "JBool b"]) (simp add: content_def)
      next
        case (3 x)
        with A show ?thesis by (intro exI [of _ "JNumber x"]) (simp add: content_def)
      next
        case (4 s)
        with "1.prems" A obtain str where "s = Some str" "utf8_validate (str @ [0]) = Ret True"
          by (auto simp: bindO_Ret_iff split: if_splits option.splits)
        with 4 A show ?thesis by (intro exI [of _ "JString str"]) (simp add: content_def str_ok_def)
      qed
      then show ?thesis by blast
    next
      case T: True
      obtain head tail where ch: "children (payload A) = Ret (head, tail)"
        using ty T by (auto simp: node_typed_def payload_ok_def)
      show ?thesis
      proof (cases "head = None \<or> tail = None")
        case True
        with 1 A T ch have "head = None \<and> tail = None" by (auto simp: bindO_Ret_iff split: if_splits)
        with A ch have "box h (tag A) a (map addr [])" by (simp add: box_def content_def)
        with valid_items [OF T, of h a "[]"] show ?thesis by auto
      next
        case False
        have r: "check_children n a (tag A) head head None h = Ret (Inr tail)"
        proof (cases "check_children n a (tag A) head head None h")
          case (Ret x)
          with False 1 A T ch show ?thesis by (cases x) (auto simp: bindO_Ret_iff split: if_splits)
        qed (use False 1 A T ch in \<open>auto simp: bindO_Ret_iff split: if_splits\<close>)
        from False 1 A T ch obtain B where B: "load head h = Ret B" "prev B = None"
          by (auto simp: bindO_Ret_iff split: if_splits)
        then have "\<forall>c m. head = Some c \<longrightarrow> nodes h c = Some m \<longrightarrow> prev m = None" by auto
        from Suc.IH(2) [OF r T this] obtain ts where ts: "first (map addr ts) None = head" "seg h a None (map addr ts) None"
          "tail = final (map addr ts) None" "\<forall>t \<in> set ts. valid_item h (tag A) t" by auto
        with A ch have "box h (tag A) a (map addr ts)" by (simp add: box_def content_def)
        with valid_items [OF T, of h a ts] ts(4) show ?thesis by blast
      qed
    qed
    then obtain ts v where "rep h (Node a ts) v" "json_wf v" by blast
    with k show ?case by (intro exI [of _ "Node a ts"] exI [of _ v]) simp
  next
    case 2
    show ?case
    proof (cases child)
      case None
      with "2.prems" show ?thesis by (intro exI [of _ "[]"]) auto
    next
      case (Some c)
      with "2.prems"(1) obtain C where C: "nodes h c = Some C" "nxt C \<noteq> head" "parent C = Some a"
        "(T = JSON_ARRAY \<longrightarrow> key C = None) \<and> (T = JSON_OBJECT \<longrightarrow> key C \<noteq> None)"
        "json_check_in n c h = Ret None" "check_children n a T head (nxt C) (Some c) h = Ret (Inr fin)"
        and bk: "\<forall>d D. nxt C = Some d \<longrightarrow> nodes h d = Some D \<longrightarrow> prev D = Some c"
        by (auto simp: load_def bindO_Ret_iff split: if_splits option.splits)
      from Suc.IH(1) [OF C(5)] obtain t v
        where t: "addr t = c" "rep h t v" "json_wf v" "key_good (key_at h c)" by blast
      from Suc.IH(2) [OF C(6) "2.prems"(2) bk] obtain ts where ts: "first (map addr ts) None = nxt C"
        "seg h a (Some c) (map addr ts) None" "fin = final (map addr ts) (Some c)" "\<forall>t \<in> set ts. valid_item h T t" by blast
      have "valid_item h T t" using t C(1,4) "2.prems"(2) by (auto simp: valid_item_def key_at_def)
      with t(1) ts Some C(1,3) "2.prems"(3) show ?thesis by (intro exI [of _ "t # ts"]) auto
    qed }
qed

section \<open>The invariant of the interface\<close>

definition container :: "JsonTag \<Rightarrow> bool" where
  "container T \<longleftrightarrow> T = JSON_ARRAY \<or> T = JSON_OBJECT"

text \<open>Nodes hold what their tags say, and a parent that has not been freed is an array or object.\<close>

definition heap_ok :: "'d heap \<Rightarrow> bool" where
  "heap_ok h \<longleftrightarrow> typed h \<and> below h \<and>
     (\<forall>a n p. nodes h a = Some n \<longrightarrow> parent n = Some p \<longrightarrow>
        p < fresh h \<and> (\<forall>m. nodes h p = Some m \<longrightarrow> container (tag m)))"

definition parent_ok :: "'d heap \<Rightarrow> ptr \<Rightarrow> bool" where
  "parent_ok h q \<longleftrightarrow> (\<forall>p. q = Some p \<longrightarrow> p < fresh h \<and> (\<forall>m. nodes h p = Some m \<longrightarrow> container (tag m)))"

lemma heap_ok_node: "heap_ok h \<Longrightarrow> nodes h a = Some n \<Longrightarrow> node_typed n \<and> parent_ok h (parent n)"
  by (simp add: heap_ok_def typed_def parent_ok_def)

lemma heap_ok_store:
  assumes "heap_ok h" "nodes h a = Some n" "node_typed n'" "tag n' = tag n" "parent_ok h (parent n')"
  shows "heap_ok (h\<lparr>nodes := (nodes h)(a \<mapsto> n')\<rparr>)"
  using assms by (auto simp: heap_ok_def typed_def below_def parent_ok_def)

lemma modify_Ret_iff:
  "modify p f h = Ret h' \<longleftrightarrow> (\<exists>a n. p = Some a \<and> nodes h a = Some n \<and> h' = h\<lparr>nodes := (nodes h)(a \<mapsto> f n)\<rparr>)"
  by (auto simp: modify_def split: option.splits)

lemma load_Ret_iff: "load p h = Ret n \<longleftrightarrow> (\<exists>a. p = Some a \<and> nodes h a = Some n)"
  by (auto simp: load_def split: option.splits)

text \<open>What later steps know of a heap after earlier ones: no node goes, none changes its tag.\<close>

definition same_tags :: "'d heap \<Rightarrow> 'd heap \<Rightarrow> bool" where
  "same_tags h h' \<longleftrightarrow> fresh h' = fresh h \<and> (\<forall>a. map_option tag (nodes h' a) = map_option tag (nodes h a))"

lemma same_tags_refl [simp]: "same_tags h h"
  by (simp add: same_tags_def)

lemma same_tags_trans: "same_tags h h' \<Longrightarrow> same_tags h' h'' \<Longrightarrow> same_tags h h''"
  by (simp add: same_tags_def)

lemma same_tags_parent: "same_tags h h' \<Longrightarrow> parent_ok h q \<Longrightarrow> parent_ok h' q"
  unfolding same_tags_def parent_ok_def by (metis (no_types, lifting) map_option_eq_Some)

definition keeps_ok :: "'d heap \<Rightarrow> 'd heap outcome \<Rightarrow> bool" where
  "keeps_ok h m \<longleftrightarrow> (\<forall>h'. m = Ret h' \<longrightarrow> heap_ok h' \<and> same_tags h h')"

lemma keeps_okD: "keeps_ok h m \<Longrightarrow> m = Ret h' \<Longrightarrow> heap_ok h'"
  by (simp add: keeps_ok_def)

lemma keeps_ok_Ret: "heap_ok h \<Longrightarrow> keeps_ok h (Ret h)"
  by (simp add: keeps_ok_def)

lemma keeps_ok_bindO:
  "keeps_ok h m \<Longrightarrow> (\<And>h'. m = Ret h' \<Longrightarrow> heap_ok h' \<Longrightarrow> same_tags h h' \<Longrightarrow> keeps_ok h' (f h')) \<Longrightarrow> keeps_ok h (bindO m f)"
  by (auto simp: keeps_ok_def bindO_Ret_iff) (meson same_tags_trans)+

lemma keeps_ok_read: "(\<And>x. m = Ret x \<Longrightarrow> keeps_ok h (f x)) \<Longrightarrow> keeps_ok h (bindO m f)"
  by (auto simp: keeps_ok_def bindO_Ret_iff)

lemma keeps_ok_if: "(b \<Longrightarrow> keeps_ok h x) \<Longrightarrow> (\<not> b \<Longrightarrow> keeps_ok h y) \<Longrightarrow> keeps_ok h (if b then x else y)"
  by simp

lemma keeps_ok_modify:
  assumes "heap_ok h" "\<And>n. node_typed n \<Longrightarrow> parent_ok h (parent n) \<Longrightarrow> node_typed (f n) \<and> tag (f n) = tag n \<and> parent_ok h (parent (f n))"
  shows "keeps_ok h (modify p f h)"
proof -
  have "heap_ok (h\<lparr>nodes := (nodes h)(a \<mapsto> f n)\<rparr>)" if "nodes h a = Some n" for a n
    using heap_ok_node [OF assms(1) that] assms by (intro heap_ok_store [OF assms(1) that]) auto
  moreover have "tag (f n) = tag n" if "nodes h a = Some n" for a n
    using heap_ok_node [OF assms(1) that] assms(2) by auto
  ultimately show ?thesis by (auto simp: keeps_ok_def modify_Ret_iff same_tags_def)
qed

lemma node_typed_links [simp]:
  "node_typed (n\<lparr>parent := q\<rparr>) = node_typed n" "node_typed (n\<lparr>prev := q\<rparr>) = node_typed n"
  "node_typed (n\<lparr>nxt := q\<rparr>) = node_typed n"
  by (simp_all add: node_typed_def)

lemma node_typed_key: "node_typed n \<Longrightarrow> (\<And>s. k = Some s \<Longrightarrow> 0 \<notin> set s) \<Longrightarrow> node_typed (n\<lparr>key := k\<rparr>)"
  by (simp add: node_typed_def)

lemma node_typed_children: "node_typed n \<Longrightarrow> container (tag n) \<Longrightarrow> node_typed (n\<lparr>payload := Children p q\<rparr>)"
  by (auto simp: node_typed_def container_def payload_ok_def)

lemma keeps_ok_ends:
  assumes "heap_ok h" "parent_ok h par"
  shows "keeps_ok h (set_head par q h)" "keeps_ok h (set_tail par q h)"
proof -
  have "keeps_ok h (modify par (payload_update (\<lambda>_. Children x y)) h)" for x y
  proof (cases "par")
    case (Some p)
    have "heap_ok (h\<lparr>nodes := (nodes h)(p \<mapsto> n\<lparr>payload := Children x y\<rparr>)\<rparr>)" if n: "nodes h p = Some n" for n
      using assms n Some heap_ok_node [OF assms(1) n]
      by (intro heap_ok_store [OF assms(1) n] node_typed_children) (auto simp: parent_ok_def)
    with Some show ?thesis by (auto simp: keeps_ok_def modify_Ret_iff same_tags_def)
  qed (simp add: keeps_ok_def modify_def)
  then show "keeps_ok h (set_head par q h)" "keeps_ok h (set_tail par q h)"
    by (auto simp: set_head_def set_tail_def intro!: keeps_ok_read)
qed

lemma parent_ok_None [simp]: "parent_ok h None"
  by (simp add: parent_ok_def)

lemmas keeps_ok_steps = keeps_ok_bindO keeps_ok_if keeps_ok_modify keeps_ok_ends keeps_ok_Ret

lemma append_node_ok:
  assumes "heap_ok h" "parent_ok h par"
  shows "keeps_ok h (append_node par child h)"
  unfolding append_node_def case_prod_beta
  by (rule keeps_ok_bindO [OF keeps_ok_modify], (use assms in auto)[2], rule keeps_ok_read)
    (intro keeps_ok_steps; (auto; fail)?; meson same_tags_parent assms(2))

lemma prepend_node_ok:
  assumes "heap_ok h" "parent_ok h par"
  shows "keeps_ok h (prepend_node par child h)"
  unfolding prepend_node_def case_prod_beta
  by (rule keeps_ok_bindO [OF keeps_ok_modify], (use assms in auto)[2], rule keeps_ok_read)
    (intro keeps_ok_steps; (auto; fail)?; meson same_tags_parent assms(2))

lemma remove_ok:
  assumes "heap_ok h"
  shows "keeps_ok h (json_remove_from_parent node h)"
  unfolding json_remove_from_parent_def
proof (rule keeps_ok_read)
  fix n assume "load node h = Ret n"
  then have "parent_ok h (parent n)" using heap_ok_node [OF assms] by (auto simp: load_Ret_iff)
  then show "keeps_ok h (if parent n \<noteq> None then
       bindO (if prev n \<noteq> None then modify (prev n) (nxt_update (\<lambda>_. nxt n)) h
              else set_head (parent n) (nxt n) h) (\<lambda>h.
       bindO (if nxt n \<noteq> None then modify (nxt n) (prev_update (\<lambda>_. prev n)) h
              else set_tail (parent n) (prev n) h)
         (modify node (\<lambda>n. n\<lparr>parent := None, prev := None, nxt := None, key := None\<rparr>)))
     else Ret h)"
    by (intro keeps_ok_steps) (auto intro: same_tags_parent assms node_typed_key)
qed

lemma can_attach_ok:
  "heap_ok h \<Longrightarrow> can_attach T par child h = Ret u \<Longrightarrow> container T \<Longrightarrow> parent_ok h par"
  by (auto simp: can_attach_def bindO_Ret_iff load_Ret_iff parent_ok_def heap_ok_def below_def)

lemma attach_ok:
  assumes "heap_ok h"
  shows "keeps_ok h (json_append_element p q h)" "keeps_ok h (json_prepend_element p q h)"
    "0 \<notin> set k \<Longrightarrow> keeps_ok h (json_append_member p k q h)"
    "0 \<notin> set k \<Longrightarrow> keeps_ok h (json_prepend_member p k q h)"
proof -
  note c = can_attach_ok [OF assms]
  have m: "keeps_ok h (bindO (modify q (key_update (\<lambda>_. Some k)) h) f)"
    if "0 \<notin> set k" "parent_ok h p" "\<And>h'. heap_ok h' \<Longrightarrow> parent_ok h' p \<Longrightarrow> keeps_ok h' (f h')" for f
    by (rule keeps_ok_bindO [OF keeps_ok_modify [OF assms]])
      (use that in \<open>auto intro: same_tags_parent node_typed_key\<close>)
  show "keeps_ok h (json_append_element p q h)" "keeps_ok h (json_prepend_element p q h)"
    unfolding json_append_element_def json_prepend_element_def
    by (rule keeps_ok_read; use c in \<open>auto intro: append_node_ok prepend_node_ok assms simp: container_def\<close>)+
  show "keeps_ok h (json_append_member p k q h)" "keeps_ok h (json_prepend_member p k q h)" if "0 \<notin> set k"
    unfolding json_append_member_def json_prepend_member_def append_member_def
    by (rule keeps_ok_read, rule m [OF that]; use c in \<open>auto intro: append_node_ok prepend_node_ok simp: container_def\<close>)+
qed

lemma free_ok: "heap_ok h \<Longrightarrow> free_node a h = Ret h' \<Longrightarrow> heap_ok h'"
  by (auto simp: free_node_def heap_ok_def typed_def below_def split: option.splits if_splits)

lemma delete_ok:
  "heap_ok h \<Longrightarrow> json_delete_in n node h = Ret h' \<Longrightarrow> heap_ok h'"
  "heap_ok h \<Longrightarrow> delete_children n node h = Ret h' \<Longrightarrow> heap_ok h'"
proof (induction n node h and n node h arbitrary: h' and h' rule: json_delete_in_delete_children.induct)
  case (2 n node h)
  show ?case
  proof (cases node)
    case (Some a)
    with "2.prems"(2) obtain h1 nd h2 where s: "json_remove_from_parent node h = Ret h1" "load node h1 = Ret nd"
      "(if tag nd = JSON_STRING then bindO (string_val (payload nd)) (\<lambda>_. Ret h1)
        else if tag nd = JSON_ARRAY \<or> tag nd = JSON_OBJECT then
          bindO (children (payload nd)) (\<lambda>(head, _). delete_children n head h1)
        else Ret h1) = Ret h2" "free_node a h2 = Ret h'"
      by (auto simp: bindO_Ret_iff)
    have "heap_ok h1" using remove_ok [OF "2.prems"(1)] s(1) by (auto simp: keeps_ok_def)
    with s(3) "2.IH" [OF Some s(1,2)] have "heap_ok h2" by (auto simp: bindO_Ret_iff split: if_splits)
    with free_ok s(4) show ?thesis by blast
  qed (use 2 in auto)
next
  case (4 n child h)
  show ?case
  proof (cases "child = None")
    case False
    with "4.prems"(2) obtain c h1 where "load child h = Ret c" "json_delete_in n child h = Ret h1"
      "delete_children n (nxt c) h1 = Ret h'" by (auto simp: bindO_Ret_iff)
    with "4.IH" False "4.prems"(1) show ?thesis by blast
  qed (use "4.prems" in simp)
qed simp_all

lemma make_ok:
  assumes "heap_ok h" "payload_ok T pl"
  shows "heap_ok (h\<lparr>nodes := (nodes h)(fresh h \<mapsto>
      \<lparr>parent = None, prev = None, nxt = None, key = None, tag = T, payload = pl\<rparr>), fresh := Suc (fresh h)\<rparr>)"
    and "heap_ok (h\<lparr>fresh := Suc (fresh h), nodes := (nodes h)(fresh h \<mapsto>
      \<lparr>parent = None, prev = None, nxt = None, key = None, tag = T, payload = pl\<rparr>)\<rparr>)"
proof -
  show "heap_ok (h\<lparr>nodes := (nodes h)(fresh h \<mapsto>
      \<lparr>parent = None, prev = None, nxt = None, key = None, tag = T, payload = pl\<rparr>), fresh := Suc (fresh h)\<rparr>)"
    (is "heap_ok ?g")
    unfolding heap_ok_def
  proof (intro conjI allI impI)
    show "typed ?g" "below ?g" using assms by (auto simp: heap_ok_def typed_def below_def node_typed_def less_Suc_eq)
    fix a n p assume "nodes ?g a = Some n" "parent n = Some p"
    then have "nodes h a = Some n" by (auto split: if_splits)
    with \<open>parent n = Some p\<close> assms(1) have p: "p < fresh h" "\<And>m. nodes h p = Some m \<Longrightarrow> container (tag m)"
      by (auto simp: heap_ok_def)
    then show "p < fresh ?g" by simp
    fix m assume "nodes ?g p = Some m"
    with p show "container (tag m)" by simp
  qed
  then show "heap_ok (h\<lparr>fresh := Suc (fresh h), nodes := (nodes h)(fresh h \<mapsto>
      \<lparr>parent = None, prev = None, nxt = None, key = None, tag = T, payload = pl\<rparr>)\<rparr>)"
    by (rule back_subst [of heap_ok]) simp
qed

text \<open>The heaps a program can reach through the interface, whatever it does with the pointers.\<close>

inductive dom_reachable :: "'d heap \<Rightarrow> bool" where
  start: "dom_reachable empty_heap"
| mknull: "dom_reachable h \<Longrightarrow> json_mknull h = Ret (a, h') \<Longrightarrow> dom_reachable h'"
| mkbool: "dom_reachable h \<Longrightarrow> json_mkbool b h = Ret (a, h') \<Longrightarrow> dom_reachable h'"
| mkstring: "dom_reachable h \<Longrightarrow> 0 \<notin> set s \<Longrightarrow> json_mkstring (Some s) h = Ret (a, h') \<Longrightarrow> dom_reachable h'"
| mknumber: "dom_reachable h \<Longrightarrow> json_mknumber x h = Ret (a, h') \<Longrightarrow> dom_reachable h'"
| mkarray: "dom_reachable h \<Longrightarrow> json_mkarray h = Ret (a, h') \<Longrightarrow> dom_reachable h'"
| mkobject: "dom_reachable h \<Longrightarrow> json_mkobject h = Ret (a, h') \<Longrightarrow> dom_reachable h'"
| append_el: "dom_reachable h \<Longrightarrow> json_append_element p q h = Ret h' \<Longrightarrow> dom_reachable h'"
| prepend_el: "dom_reachable h \<Longrightarrow> json_prepend_element p q h = Ret h' \<Longrightarrow> dom_reachable h'"
| append_mem: "dom_reachable h \<Longrightarrow> 0 \<notin> set k \<Longrightarrow> json_append_member p k q h = Ret h' \<Longrightarrow> dom_reachable h'"
| prepend_mem: "dom_reachable h \<Longrightarrow> 0 \<notin> set k \<Longrightarrow> json_prepend_member p k q h = Ret h' \<Longrightarrow> dom_reachable h'"
| remove: "dom_reachable h \<Longrightarrow> json_remove_from_parent p h = Ret h' \<Longrightarrow> dom_reachable h'"
| delete: "dom_reachable h \<Longrightarrow> json_delete p h = Ret h' \<Longrightarrow> dom_reachable h'"

lemma dom_reachable_ok: "dom_reachable h \<Longrightarrow> heap_ok h"
proof (induction rule: dom_reachable.induct)
  case start
  show ?case by (simp add: heap_ok_def typed_def below_def empty_heap_def)
next
  case (mknull h a h')
  then show ?case using make_ok [of h JSON_NULL Zero] by (auto simp: json_mknull_def mknode_def payload_ok_def)
next
  case (mkbool h b a h')
  then show ?case using make_ok [of h JSON_BOOL "BoolVal b"]
    by (auto simp: json_mkbool_def mknode_def payload_ok_def)
next
  case (mkstring h s a h')
  then show ?case using make_ok [of h JSON_STRING "StringVal (Some s)"]
    by (auto simp: json_mkstring_def json_strdup_def mkstring_def mknode_def payload_ok_def)
next
  case (mknumber h x a h')
  then show ?case using make_ok [of h JSON_NUMBER "NumberVal x"]
    by (auto simp: json_mknumber_def mknode_def payload_ok_def)
next
  case (mkarray h a h')
  then show ?case using make_ok [of h JSON_ARRAY Zero] by (auto simp: json_mkarray_def mknode_def payload_ok_def)
next
  case (mkobject h a h')
  then show ?case using make_ok [of h JSON_OBJECT Zero] by (auto simp: json_mkobject_def mknode_def payload_ok_def)
next
  case (delete h p h')
  then show ?case using delete_ok(1) by (auto simp: json_delete_def)
qed (blast intro: keeps_okD attach_ok remove_ok)+

section \<open>Cycles\<close>

text \<open>Two arrays that are each other's only child.\<close>

definition cyclic :: "'d heap \<Rightarrow> nat \<Rightarrow> nat \<Rightarrow> bool" where
  "cyclic h a b \<longleftrightarrow> a \<noteq> b \<and> (\<forall>(x, y) \<in> {(a, b), (b, a)}. \<exists>n. nodes h x = Some n \<and> tag n = JSON_ARRAY \<and> key n = None \<and>
     payload n = Children (Some y) (Some y) \<and> parent n = Some y \<and> prev n = None \<and> nxt n = None)"

lemma cyclic_check: "cyclic h a b \<Longrightarrow> json_check_in n a h = Fault No_fuel"
proof (induction n arbitrary: a b rule: less_induct)
  case (less n)
  have sw: "cyclic h b a" using less.prems by (auto simp: cyclic_def)
  obtain A B where A: "nodes h a = Some A" "tag A = JSON_ARRAY" "key A = None" "payload A = Children (Some b) (Some b)"
    and B: "nodes h b = Some B" "key B = None" "parent B = Some a" "prev B = None" "nxt B = None" and ab: "a \<noteq> b"
    using less.prems by (auto simp: cyclic_def)
  show ?case
  proof (cases n)
    case (Suc m)
    show ?thesis
    proof (cases m)
      case (Suc k)
      with \<open>n = Suc m\<close> less.IH [OF _ sw, of k] A B ab show ?thesis by simp
    qed (use A B \<open>n = Suc m\<close> in simp)
  qed simp
qed

end
