(* ===== verification/JsonDomProps.thy ===== *)
theory JsonDomProps
  imports JsonCheck
begin

text \<open>
  The properties of the document tree of src/json.c: its operations against the value a tree of
  nodes holds, what the interface keeps of any heap, and what \<open>json_check\<close> decides.
\<close>

text \<open>Two nodes made on the empty heap, at 0 and 1.\<close>

definition pair_heap :: "JsonTag \<Rightarrow> JsonTag \<Rightarrow> 'd heap" where
  "pair_heap T T' = snd (mknode T' (snd (mknode T empty_heap)))"

lemmas witness_simps = pair_heap_def mknode_def empty_heap_def box_def content_def detached_def apart_def below_def

lemma reachable_pair: "dom_reachable (pair_heap JSON_ARRAY JSON_OBJECT)"
proof -
  have mk: "json_mkarray h = Ret (fresh h, snd (mknode JSON_ARRAY h))"
    "json_mkobject g = Ret (fresh g, snd (mknode JSON_OBJECT g))" for h g :: "'a heap"
    by (simp_all add: json_mkarray_def json_mkobject_def mknode_def)
  show ?thesis unfolding pair_heap_def
    by (rule dom_reachable.mkobject [OF dom_reachable.mkarray [OF dom_reachable.start mk(1)] mk(2)])
qed

text \<open>The array at 0 with the object at 1 as its element.\<close>

lemma nested_pair:
  "\<exists>h :: 'd heap. json_append_element (Some 0) (Some 1) (pair_heap JSON_ARRAY JSON_OBJECT) = Ret h \<and>
    rep h (Node 0 [Node 1 []]) (JArray [JObject []]) \<and> below h"
proof -
  let ?g = "pair_heap JSON_ARRAY JSON_OBJECT :: 'd heap"
  have "contains ?g JSON_ARRAY 0 [] []" "rep ?g (Node 1 []) (JObject [])" "detached ?g 1" "apart (Node 1 []) 0 []"
    by (simp_all add: contains_def items_of_def witness_simps)
  with append_element.put_child_value [of ?g 0 "[]" "[]" "Node 1 []" "JObject []"]
  obtain h where h: "json_append_element (Some 0) (Some 1) ?g = Ret h"
    "rep h (Node 0 [Node 1 []]) (JArray [JObject []])" by (auto simp: put_def box_value_def simp del: rep.simps)
  moreover have "below h"
    using dom_reachable_ok [OF dom_reachable.append_el [OF reachable_pair h(1)]] by (simp add: heap_ok_def)
  ultimately show ?thesis by blast
qed

section \<open>Properties\<close>

text \<open>
  C11. Whatever a program does with the interface, a node holds what its tag says, strings hold no
  NUL, addresses in use have been given out, and a parent that is still there is an array or object.
\<close>

theorem dom_reachable_typed:
  assumes "dom_reachable h" "nodes h a = Some n"
  shows "node_typed n \<and> a < fresh h \<and> parent_ok h (parent n)"
  using dom_reachable_ok [OF assms(1)] heap_ok_node assms(2) by (auto simp: heap_ok_def below_def)

theorem dom_reachable_typed_witness:
  "\<exists>n. nodes (pair_heap JSON_ARRAY JSON_OBJECT :: nat heap) 1 = Some n \<and> node_typed n \<and> 1 < fresh (pair_heap JSON_ARRAY JSON_OBJECT :: nat heap)"
proof -
  have "dom_reachable (pair_heap JSON_ARRAY JSON_OBJECT :: nat heap)"
    by (rule reachable_pair)
  moreover obtain n where "nodes (pair_heap JSON_ARRAY JSON_OBJECT :: nat heap) 1 = Some n"
    by (simp add: witness_simps)
  ultimately show ?thesis using dom_reachable_typed by blast
qed

text \<open>
  C12. \<open>json_check\<close> accepts a node exactly when it is the root of a tree that holds a value with
  its strings in UTF-8, and its own key is in UTF-8.
\<close>

theorem json_check_iff:
  assumes "dom_reachable h"
  shows "json_check a h = Ret None \<longleftrightarrow> (\<exists>t v. addr t = a \<and> rep h t v \<and> json_wf v \<and> key_good (key_at h a))"
proof
  assume "json_check a h = Ret None"
  with json_check_sound(1) [of h] dom_reachable_ok [OF assms]
  show "\<exists>t v. addr t = a \<and> rep h t v \<and> json_wf v \<and> key_good (key_at h a)"
    by (auto simp: json_check_def heap_ok_def)
next
  assume "\<exists>t v. addr t = a \<and> rep h t v \<and> json_wf v \<and> key_good (key_at h a)"
  then obtain t v where t: "addr t = a" "rep h t v" "json_wf v" "key_good (key_at h (addr t))" by blast
  moreover have "weight t \<le> fresh h" using rep_weight [OF t(2)] dom_reachable_ok [OF assms] by (simp add: heap_ok_def)
  ultimately show "json_check a h = Ret None"
    using json_check_accepts [OF t(2-4), of "walk_fuel h"] by (simp add: json_check_def walk_fuel_def)
qed

theorem json_check_iff_witness:
  "json_check 1 (pair_heap JSON_ARRAY JSON_OBJECT :: nat heap) = Ret None"
proof -
  have "dom_reachable (pair_heap JSON_ARRAY JSON_OBJECT :: nat heap)"
    by (rule reachable_pair)
  moreover have "rep (pair_heap JSON_ARRAY JSON_OBJECT :: nat heap) (Node 1 []) (JObject [])"
    "key_good (key_at (pair_heap JSON_ARRAY JSON_OBJECT :: nat heap) 1)"
    by (simp_all add: witness_simps key_good_def key_at_def)
  ultimately show ?thesis using json_check_iff [of "pair_heap JSON_ARRAY JSON_OBJECT" 1]
    by (metis json_wf.simps(3) empty_iff list.set(1) tree.sel(1))
qed

text \<open>
  C13. Appending and prepending a detached tree to an array refine insertion at the end and at the
  front of the list of its values.
\<close>

theorem array_insertion:
  assumes "rep h (Node a ts) (JArray vs)" "rep h t v" "detached h (addr t)" "apart t a ts"
  shows "(\<exists>h'. json_append_element (Some a) (Some (addr t)) h = Ret h' \<and> rep h' (Node a (ts @ [t])) (JArray (vs @ [v]))) \<and>
    (\<exists>h'. json_prepend_element (Some a) (Some (addr t)) h = Ret h' \<and> rep h' (Node a (t # ts)) (JArray (v # vs)))"
  using append_element.put_child_value [OF assms(1) [unfolded rep_array] assms(2-4)]
    prepend_element.put_child_value [OF assms(1) [unfolded rep_array] assms(2-4)]
  by (simp add: put_def box_value_def comp_def del: rep.simps)

theorem array_insertion_witness:
  "(\<exists>h'. json_append_element (Some 0) (Some 1) (pair_heap JSON_ARRAY JSON_NULL :: nat heap) = Ret h' \<and>
      rep h' (Node 0 [Node 1 []]) (JArray [JNull])) \<and>
    (\<exists>h'. json_prepend_element (Some 0) (Some 1) (pair_heap JSON_ARRAY JSON_NULL :: nat heap) = Ret h' \<and>
      rep h' (Node 0 [Node 1 []]) (JArray [JNull]))"
  using array_insertion [of "pair_heap JSON_ARRAY JSON_NULL :: nat heap" 0 "[]" "[]" "Node 1 []" JNull]
  by (simp add: witness_simps del: rep.simps) (simp add: box_def content_def)

text \<open>The same for the members of an object, with a copy of the key.\<close>

theorem object_insertion:
  assumes "rep h (Node a ts) (JObject ms)" "rep h t v" "detached h (addr t)" "apart t a ts"
  shows "(\<exists>h'. json_append_member (Some a) k (Some (addr t)) h = Ret h' \<and> rep h' (Node a (ts @ [t])) (JObject (ms @ [(k, v)]))) \<and>
    (\<exists>h'. json_prepend_member (Some a) k (Some (addr t)) h = Ret h' \<and> rep h' (Node a (t # ts)) (JObject ((k, v) # ms)))"
  using append_member.put_child_value [OF assms(1) [unfolded rep_object] assms(2-4), of k]
    prepend_member.put_child_value [OF assms(1) [unfolded rep_object] assms(2-4), of k]
  by (simp add: put_def box_value_def comp_def map_prod_def case_prod_beta id_def del: rep.simps)

theorem object_insertion_witness:
  "(\<exists>h'. json_append_member (Some 0) [0x6B] (Some 1) (pair_heap JSON_OBJECT JSON_NULL :: nat heap) = Ret h' \<and>
      rep h' (Node 0 [Node 1 []]) (JObject [([0x6B], JNull)])) \<and>
    (\<exists>h'. json_prepend_member (Some 0) [0x6B] (Some 1) (pair_heap JSON_OBJECT JSON_NULL :: nat heap) = Ret h' \<and>
      rep h' (Node 0 [Node 1 []]) (JObject [([0x6B], JNull)]))"
  using object_insertion [of "pair_heap JSON_OBJECT JSON_NULL :: nat heap" 0 "[]" "[]" "Node 1 []" JNull "[0x6B]"]
  by (simp add: witness_simps del: rep.simps) (simp add: box_def content_def)

text \<open>Removing a member that has been appended gives the object and the tree back.\<close>

theorem append_remove_roundtrip:
  assumes "rep h (Node a ts) (JObject ms)" "rep h t v" "detached h (addr t)" "apart t a ts"
  shows "\<exists>h'. bindO (json_append_member (Some a) k (Some (addr t)) h) (json_remove_from_parent (Some (addr t))) = Ret h' \<and>
    rep h' (Node a ts) (JObject ms) \<and> rep h' t v \<and> detached h' (addr t)"
  using append_member.put_remove [OF assms(1) [unfolded rep_object] assms(2-4), of k] by (simp only: rep_object)

theorem append_remove_roundtrip_witness:
  "\<exists>h'. bindO (json_append_member (Some 0) [0x6B] (Some 1) (pair_heap JSON_OBJECT JSON_NULL :: nat heap))
      (json_remove_from_parent (Some 1)) = Ret h' \<and> rep h' (Node 0 []) (JObject []) \<and> rep h' (Node 1 []) JNull \<and> detached h' 1"
  using append_remove_roundtrip [of "pair_heap JSON_OBJECT JSON_NULL :: nat heap" 0 "[]" "[]" "Node 1 []" JNull "[0x6B]"]
  by (simp add: witness_simps del: rep.simps) (simp add: box_def content_def)

text \<open>
  C28. Deleting an element of an array frees the nodes of its tree and no others, and leaves the
  array with the other elements in their order.
\<close>

theorem json_delete_element:
  assumes "rep h (Node a (us @ t # ts)) (JArray (vs @ v # vs'))" "length us = length vs" "below h"
  shows "\<exists>h'. json_delete (Some (addr t)) h = Ret h' \<and> rep h' (Node a (us @ ts)) (JArray (vs @ vs')) \<and>
    (\<forall>x. nodes h' x = None \<longleftrightarrow> nodes h x = None \<or> x \<in> set (addrs t))"
proof -
  from rep_kids [OF assms(1), of t] obtain w where w: "rep h t w" by auto
  then obtain n where n: "nodes h (addr t) = Some n" using rep_node by blast
  from contains_remove [of h JSON_ARRAY a us t ts "map (Pair None) vs" None v "map (Pair None) vs'" n] assms(1,2) n
  obtain h1 where h1: "json_remove_from_parent (Some (addr t)) h = Ret h1"
    "rep h1 (Node a (us @ ts)) (JArray (vs @ vs'))" "rep h1 t v" "detached h1 (addr t)"
    "relinked h h1 a ({a, addr t} \<union> set (map addr (us @ ts)))"
    unfolding rep_array by auto
  have "json_delete (Some (addr t)) h = Ret (wipe (set (addrs t)) h1)"
    unfolding json_delete_def delete_removed [OF h1(1) detached_unowned [OF h1(4)]]
    using rep_weight [OF w assms(3)] by (intro json_delete_in_rep [OF h1(3) detached_unowned [OF h1(4)]]) (simp add: walk_fuel_def)
  moreover have "x \<notin> set (addrs t)" if "x \<in> set (addrs (Node a (us @ ts)))" for x
    using that rep_distinct [OF assms(1)] by auto
  then have "rep (wipe (set (addrs t)) h1) (Node a (us @ ts)) (JArray (vs @ vs'))"
    using h1(2) by (subst rep_frame [of _ _ h1]) (auto simp del: addrs.simps rep.simps)
  moreover note relinked_nodes [OF h1(5)]
  ultimately show ?thesis by (intro exI [of _ "wipe (set (addrs t)) h1"]) auto
qed

theorem json_delete_element_witness:
  "\<exists>h h'. json_append_element (Some 0) (Some 1) (pair_heap JSON_ARRAY JSON_OBJECT :: nat heap) = Ret h \<and>
    json_delete (Some 1) h = Ret h' \<and> rep h' (Node 0 []) (JArray []) \<and> nodes h' 1 = None"
proof -
  obtain h :: "nat heap" where h: "json_append_element (Some 0) (Some 1) (pair_heap JSON_ARRAY JSON_OBJECT) = Ret h"
    "rep h (Node 0 ([] @ Node 1 [] # [])) (JArray ([] @ JObject [] # []))" "below h"
    using nested_pair [where 'd = nat] by (auto simp del: rep.simps)
  from json_delete_element [OF h(2) _ h(3)] h(1) show ?thesis by (fastforce simp del: rep.simps)
qed

text \<open>\<open>json_find_member\<close> returns the first member with the key, \<open>json_find_element\<close> the element at the index.\<close>

theorem json_find_correct:
  assumes "below h"
  shows "(rep h (Node a ts) (JObject ms) \<longrightarrow>
      json_find_member (Some a) name h = Ret (map_of (zip (map fst ms) (map addr ts)) name)) \<and>
    (rep h (Node a ts) (JArray vs) \<and> length ts \<le> 2 ^ 32 \<longrightarrow>
      json_find_element (Some a) i h = Ret (if unat i < length ts then Some (addr (ts ! unat i)) else None))"
  using json_find_member_rep [OF _ assms] json_find_element_rep [OF _ assms] by blast

theorem json_find_correct_witness:
  "\<exists>h. json_append_element (Some 0) (Some 1) (pair_heap JSON_ARRAY JSON_OBJECT :: nat heap) = Ret h \<and>
    json_find_element (Some 0) 0 h = Ret (Some 1) \<and> json_find_element (Some 0) 1 h = Ret None \<and>
    json_find_member (Some 1) [0x6B] h = Ret None"
proof -
  obtain h :: "nat heap" where h: "json_append_element (Some 0) (Some 1) (pair_heap JSON_ARRAY JSON_OBJECT) = Ret h"
    "rep h (Node 0 [Node 1 []]) (JArray [JObject []])" "below h"
    using nested_pair [where 'd = nat] by (auto simp del: rep.simps)
  from h(2) have o: "rep h (Node 1 []) (JObject [])" by simp
  from json_find_correct [OF h(3)] h(2)
  have "json_find_element (Some 0) i h = Ret (if unat i < 1 then Some (addr ([Node 1 []] ! unat i)) else None)" for i
    by fastforce
  moreover from json_find_correct [OF h(3)] o have "json_find_member (Some 1) [0x6B] h = Ret None" by fastforce
  ultimately show ?thesis using h(1) by (intro exI [of _ h]) simp
qed





text \<open>
  The assertions do not stop a program from making a cycle: of two empty arrays, the first
  takes the second as an element and the second then takes the first. On the result \<open>json_check\<close>,
  which looks for cycles, never returns.
\<close>

theorem append_cycle:
  assumes "rep h (Node a []) (JArray [])" "rep h (Node b []) (JArray [])" "detached h a" "detached h b" "a \<noteq> b"
  shows "\<exists>h'. bindO (json_append_element (Some a) (Some b) h) (json_append_element (Some b) (Some a)) = Ret h' \<and>
    (\<forall>n. json_check_in n a h' = Fault No_fuel)"
proof -
  obtain A B where "nodes h a = Some A" "tag A = JSON_ARRAY" "children (payload A) = Ret (None, None)" "parent A = None" "key A = None"
    "nodes h b = Some B" "tag B = JSON_ARRAY" "children (payload B) = Ret (None, None)" "parent B = None" "key B = None"
    using assms by (auto simp: box_def detached_def dest!: contentD)
  with assms(5) have "\<exists>h'. bindO (json_append_element (Some a) (Some b) h) (json_append_element (Some b) (Some a)) = Ret h' \<and> cyclic h' a b"
    by (auto simp: json_append_element_def can_attach_def append_node_def kids_def set_head_def set_tail_def cyclic_def)
  with cyclic_check show ?thesis by blast
qed

theorem append_cycle_witness:
  "\<exists>h'. bindO (json_append_element (Some 0) (Some 1) (pair_heap JSON_ARRAY JSON_ARRAY :: nat heap))
      (json_append_element (Some 1) (Some 0)) = Ret h' \<and> (\<forall>n. json_check_in n 0 h' = Fault No_fuel)"
  by (rule append_cycle) (simp_all add: witness_simps)

end
