(* ===== verification/ChildMemory.thy ===== *)
theory ChildMemory
  imports Prelude
begin

text \<open>
  The traced child's memory as src/sandbox.cpp reads and writes it: \<open>peekData\<close>, \<open>pokeData\<close>,
  \<open>copyData\<close>, \<open>copyString\<close>, \<open>writeData\<close>, \<open>writeScratch\<close>, \<open>resetScratch\<close> and the search for the
  scratch buffer in \<open>handleExecEvent\<close>. The memory of each process is a partial map from addresses
  to bytes; \<open>ptrace\<close> moves a word of eight bytes and fails when one of them is not mapped.
  The supervisor's buffers are byte lists of their allocated size.
\<close>

section \<open>Words as bytes\<close>

text \<open>The bytes of a word as they lie in memory, lowest first (x86).\<close>

fun to_le :: "nat \<Rightarrow> u64 \<Rightarrow> byte list" where
  "to_le 0 w = []"
| "to_le (Suc n) w = ucast w # to_le n (drop_bit 8 w)"

fun of_le :: "byte list \<Rightarrow> u64" where
  "of_le [] = 0"
| "of_le (b # bs) = ucast b OR push_bit 8 (of_le bs)"

lemma to_le_length [simp]: "length (to_le n w) = n"
  by (induction n arbitrary: w) auto

lemma of_to_le: "of_le (to_le n w) = take_bit (8 * n) w"
proof (induction n arbitrary: w)
  case (Suc n)
  show ?case
  proof (rule bit_word_eqI)
    fix i assume "i < LENGTH(64)"
    then show "bit (of_le (to_le (Suc n) w)) i = bit (take_bit (8 * Suc n) w) i"
      using Suc [of "drop_bit 8 w"]
      by (cases "i < 8") (auto simp: bit_simps)
  qed
qed simp

lemma of_to_le_word [simp]: "of_le (to_le 8 w) = w"
  using of_to_le [of 8 w] by (simp add: take_bit_word_eq_self)

lemma bit_of_le: "bit (of_le bs) i \<Longrightarrow> i < 8 * length bs"
proof (induction bs arbitrary: i)
  case (Cons b bs)
  show ?case
  proof (cases "i < 8")
    case False
    with Cons.prems have "bit (of_le bs) (i - 8)"
      by (auto simp: bit_simps dest: bit_imp_le_length)
    with Cons.IH show ?thesis by fastforce
  qed simp
qed simp

lemma to_of_le [simp]: "length bs \<le> 8 \<Longrightarrow> to_le (length bs) (of_le bs) = bs"
proof (induction bs)
  case (Cons b bs)
  have "ucast (ucast b OR push_bit 8 (of_le bs)) = b"
    by (rule bit_word_eqI) (auto simp: bit_simps)
  moreover have "drop_bit 8 (ucast b OR push_bit 8 (of_le bs)) = of_le bs"
  proof (rule bit_word_eqI)
    fix i assume "i < LENGTH(64)"
    then show "bit (drop_bit 8 (ucast b OR push_bit 8 (of_le bs))) i = bit (of_le bs) i"
      using bit_of_le [of bs i] Cons.prems by (auto simp: bit_simps dest: bit_imp_le_length)
  qed
  ultimately show ?case using Cons by simp
qed simp

lemma to_of_le_8: "length bs = 8 \<Longrightarrow> to_le 8 (of_le bs) = bs"
  using to_of_le [of bs] by simp

interpretation le_word: prefix_codec "to_le 8"
  "\<lambda>s. if length s < 8 then None else Some (of_le (take 8 s), drop 8 s)" "\<lambda>_. True"
proof
  show "to_le 8 x \<noteq> []" for x by (simp add: numeral_eq_Suc)
qed simp

section \<open>The state\<close>

type_synonym pid = "32 word"

text \<open>
  What \<open>SandboxPrivate\<close> keeps that these operations use, the children's memory and the
  supervisor's \<open>errno\<close>, which a \<open>ptrace\<close> call that fails sets.
\<close>

definition EIO :: u32 where
  "EIO = 5"

record sandbox =
  mem :: "pid \<Rightarrow> u64 \<Rightarrow> byte option"
  errno :: u32
  main_pid :: pid
  entered_main :: bool
  scratchAddr :: u64
  nextScratchSegment :: u64

text \<open>The bytes at an address, when all are mapped, and storing bytes at an address.\<close>

definition mem_bytes :: "(u64 \<Rightarrow> byte option) \<Rightarrow> u64 \<Rightarrow> nat \<Rightarrow> byte list option" where
  "mem_bytes m a n = those (map (\<lambda>i. m (a + of_nat i)) [0..<n])"

definition mem_write :: "(u64 \<Rightarrow> byte option) \<Rightarrow> u64 \<Rightarrow> byte list \<Rightarrow> u64 \<Rightarrow> byte option" where
  "mem_write m a bs = (\<lambda>x. if unat (x - a) < length bs then Some (bs ! unat (x - a)) else m x)"

section \<open>Reading and writing words\<close>

text \<open>\<open>ptrace(PTRACE_PEEKDATA)\<close> clears \<open>errno\<close> when it succeeds; the assertion is on \<open>errno\<close>.\<close>

definition peekData :: "sandbox \<Rightarrow> pid \<Rightarrow> u64 \<Rightarrow> (u64 \<times> sandbox) outcome" where
  "peekData s p addr =
     (case mem_bytes (mem s p) addr 8 of
        None \<Rightarrow> Fault Assert_failed
      | Some bs \<Rightarrow> Ret (of_le bs, s\<lparr>errno := 0\<rparr>))"

text \<open>The result is that of \<open>ptrace\<close> as a \<open>bool\<close>: zero, on success, is false.\<close>

definition pokeData :: "sandbox \<Rightarrow> pid \<Rightarrow> u64 \<Rightarrow> u64 \<Rightarrow> bool \<times> sandbox" where
  "pokeData s p addr word =
     (case mem_bytes (mem s p) addr 8 of
        None \<Rightarrow> (True, s\<lparr>errno := EIO\<rparr>)
      | Some _ \<Rightarrow> (False, s\<lparr>mem := (mem s)(p := mem_write (mem s p) addr (to_le 8 word))\<rparr>))"

section \<open>Copying out of the child\<close>

text \<open>Storing bytes at an offset of a buffer of the supervisor.\<close>

definition store_at :: "byte list \<Rightarrow> nat \<Rightarrow> byte list \<Rightarrow> byte list outcome" where
  "store_at buf i bs =
     (if i + length bs \<le> length buf then Ret (take i buf @ bs @ drop (i + length bs) buf)
      else Fault Write_OOB)"

text \<open>\<open>for (i = 0; i < length; i += sizeof (Word))\<close>, a whole word stored in each round.\<close>

function copy_words ::
  "sandbox \<Rightarrow> pid \<Rightarrow> u64 \<Rightarrow> nat \<Rightarrow> nat \<Rightarrow> byte list \<Rightarrow> (byte list \<times> sandbox) outcome" where
  "copy_words s p addr i len buf =
     (if i < len then
        bindO (peekData s p (addr + of_nat i)) (\<lambda>(w, s).
        bindO (store_at buf i (to_le 8 w)) (\<lambda>buf.
        copy_words s p addr (i + 8) len buf))
      else Ret (buf, s))"
  by pat_completeness auto
termination by (relation "measure (\<lambda>(s, p, addr, i, len, buf). len - i)") auto

declare copy_words.simps [simp del]

definition copyData ::
  "sandbox \<Rightarrow> pid \<Rightarrow> u64 \<Rightarrow> nat \<Rightarrow> byte list \<Rightarrow> (bool \<times> byte list \<times> sandbox) outcome" where
  "copyData s p addr len buf =
     bindO (copy_words s p addr 0 len buf) (\<lambda>(buf, s). Ret (errno s = 0, buf, s))"

text \<open>The bytes the inner loop stores: up to the first NUL, that included.\<close>

fun upto_nul :: "byte list \<Rightarrow> byte list" where
  "upto_nul [] = []"
| "upto_nul (b # bs) = b # (if b = 0 then [] else upto_nul bs)"

text \<open>The first loop of \<open>copyString\<close>: its result holds \<open>endString\<close> and \<open>i\<close>.\<close>

function copy_string_words ::
  "sandbox \<Rightarrow> pid \<Rightarrow> u64 \<Rightarrow> nat \<Rightarrow> nat \<Rightarrow> byte list \<Rightarrow> (bool \<times> nat \<times> byte list \<times> sandbox) outcome" where
  "copy_string_words s p addr i maxLength buf =
     (if maxLength - i > 8 then
        bindO (peekData s p (addr + of_nat i)) (\<lambda>(d, s).
        let bs = upto_nul (to_le 8 d) in
        bindO (store_at buf i bs) (\<lambda>buf.
        if 0 \<in> set bs then Ret (True, i + 8, buf, s)
        else copy_string_words s p addr (i + 8) maxLength buf))
      else Ret (False, i, buf, s))"
  by pat_completeness auto
termination by (relation "measure (\<lambda>(s, p, addr, i, maxLength, buf). maxLength - i)") auto

declare copy_string_words.simps [simp del]

definition copyString ::
  "sandbox \<Rightarrow> pid \<Rightarrow> u64 \<Rightarrow> nat \<Rightarrow> byte list \<Rightarrow> (bool \<times> byte list \<times> sandbox) outcome" where
  "copyString s p addr maxLength buf =
     bindO (copy_string_words s p addr 0 maxLength buf) (\<lambda>(endString, i, buf, s).
     if i \<noteq> maxLength \<and> \<not> endString then
       bindO (peekData s p (addr + of_nat i)) (\<lambda>(d, s).
       bindO (store_at buf i (take (maxLength - i) (to_le 8 d))) (\<lambda>buf.
       Ret (errno s = 0, buf, s)))
     else Ret (errno s = 0, buf, s))"

text \<open>\<open>std::string (buf.data())\<close>: the bytes up to a NUL, which has to be in the buffer.\<close>

definition string_of_buf :: "byte list \<Rightarrow> byte list outcome" where
  "string_of_buf buf = (if 0 \<in> set buf then Ret (c_str buf) else Fault Read_OOB)"

section \<open>Writing into the child\<close>

text \<open>\<open>buf[i .. i+n)\<close> of the data handed in.\<close>

definition read_at :: "byte list \<Rightarrow> nat \<Rightarrow> nat \<Rightarrow> byte list outcome" where
  "read_at buf i n = (if i + n \<le> length buf then Ret (take n (drop i buf)) else Fault Read_OOB)"

function write_words ::
  "sandbox \<Rightarrow> pid \<Rightarrow> u64 \<Rightarrow> nat \<Rightarrow> nat \<Rightarrow> byte list \<Rightarrow> (nat \<times> sandbox) outcome" where
  "write_words s p addr i len buf =
     (if len - i > 8 then
        bindO (read_at buf i 8) (\<lambda>d.
        write_words (snd (pokeData s p (addr + of_nat i) (of_le d))) p addr (i + 8) len buf)
      else Ret (i, s))"
  by pat_completeness auto
termination by (relation "measure (\<lambda>(s, p, addr, i, len, buf). len - i)") auto

declare write_words.simps [simp del]

definition writeData :: "sandbox \<Rightarrow> pid \<Rightarrow> u64 \<Rightarrow> nat \<Rightarrow> byte list \<Rightarrow> (bool \<times> sandbox) outcome" where
  "writeData s p addr len buf =
     bindO (write_words s p addr 0 len buf) (\<lambda>(i, s).
     if i \<noteq> len then
       bindO (peekData s p (addr + of_nat i)) (\<lambda>(d, s).
       bindO (read_at buf i (len - i)) (\<lambda>bs.
       let s = snd (pokeData s p (addr + of_nat i) (of_le (bs @ drop (len - i) (to_le 8 d))))
       in Ret (errno s = 0, s)))
     else Ret (errno s = 0, s))"

section \<open>The scratch buffer\<close>

definition resetScratch :: "sandbox \<Rightarrow> sandbox" where
  "resetScratch s = s\<lparr>nextScratchSegment := scratchAddr s\<rparr>"

definition writeScratch :: "sandbox \<Rightarrow> nat \<Rightarrow> byte list \<Rightarrow> (u64 \<times> sandbox) outcome" where
  "writeScratch s len buf =
     (let curAddr = nextScratchSegment s in
      bindO (writeData s (main_pid s) curAddr len buf) (\<lambda>(_, s).
      let nextAddr = nextScratchSegment s + of_nat len;
          nextAddr = (if nextAddr mod 8 \<noteq> 0 then nextAddr + (8 - nextAddr mod 8) else nextAddr)
      in Ret (curAddr, s\<lparr>nextScratchSegment := nextAddr\<rparr>)))"

text \<open>The loop over the environment strings; the result is \<open>scratchAddr\<close>.\<close>

definition needle :: "byte list" where
  "needle = ascii ''CODIUS_SCRATCH_BUFFER=''"

fun scan_environ :: "nat \<Rightarrow> sandbox \<Rightarrow> pid \<Rightarrow> u64 \<Rightarrow> u64 \<Rightarrow> sandbox outcome" where
  "scan_environ 0 s p environAddr strAddr = Fault No_fuel"
| "scan_environ (Suc n) s p environAddr strAddr =
     (if strAddr = 0 then Ret s
      else bindO (copyString s p strAddr 1024 (replicate 1024 0)) (\<lambda>(_, buf, s).
        let environAddr = environAddr + 8 in
        if take (length needle) buf = needle
        then Ret (s\<lparr>scratchAddr := strAddr + of_nat (length needle)\<rparr>)
        else bindO (peekData s p environAddr) (\<lambda>(strAddr, s).
          scan_environ n s p environAddr strAddr)))"

text \<open>
  \<open>argc\<close> is an \<open>int\<close>, of four bytes; \<open>slot\<close> is the size of the object \<open>copyData\<close> may fill,
  \<open>rsp\<close> the stack pointer at the \<open>execve\<close> stop.
\<close>

definition handleExecEvent_in :: "nat \<Rightarrow> nat \<Rightarrow> u64 \<Rightarrow> sandbox \<Rightarrow> pid \<Rightarrow> sandbox outcome" where
  "handleExecEvent_in slot n rsp s p =
     (if entered_main s then Ret s
      else
        let s = s\<lparr>entered_main := True\<rparr>; stackAddr = rsp in
        bindO (copyData s p stackAddr 4 (replicate slot 0)) (\<lambda>(_, buf, s).
        let argc = ucast (of_le (take 4 buf)) :: 32 word;
            environAddr = stackAddr + 8 * scast (argc + 2) in
        bindO (peekData s p environAddr) (\<lambda>(strAddr, s).
        bindO (scan_environ n s p environAddr strAddr) (\<lambda>s.
        bindO (assertO (scratchAddr s \<noteq> 0)) (\<lambda>_. Ret s)))))"

definition handleExecEvent :: "nat \<Rightarrow> u64 \<Rightarrow> sandbox \<Rightarrow> pid \<Rightarrow> sandbox outcome" where
  "handleExecEvent = handleExecEvent_in 4"

end
