(* ===== verification/CodiusUtil.thy ===== *)
theory CodiusUtil
  imports JsonDomProps ChildMemory
begin

text \<open>
  The messages of src/codius-util.c between a sandboxed program and its supervisor: a header of
  24 bytes (\<open>codius_rpc_header_t\<close>, packed, of three \<open>unsigned long\<close>s), then a JSON text. The JSON
  nodes are those of the heap of \<open>JsonDom\<close>, so that who owns a node is visible. \<open>read\<close> and
  \<open>write\<close> are the kernel's, and are parameters, as is the number conversion of the C library and
  what uninitialised memory holds.
\<close>

section \<open>Requests and results\<close>

definition CODIUS_MAGIC_BYTES :: u64 where
  "CODIUS_MAGIC_BYTES = 0xC0D105FE"

definition CODIUS_MAX_RESPONSE_SIZE :: u64 where
  "CODIUS_MAX_RESPONSE_SIZE = 268435456"

text \<open>\<open>codius_request_t\<close> with the strings it owns, null or the bytes in front of the terminator.\<close>

record codius_request =
  api_name :: "byte list option"
  method_name :: "byte list option"
  req_data :: ptr
  req_id :: u64
  req_fd :: u32

record codius_result =
  success :: u32
  res_data :: ptr
  res_id :: u64

record codius_rpc_header =
  magic_bytes :: u64
  callback_id :: u64
  rpc_size :: u64

definition header_bytes :: "codius_rpc_header \<Rightarrow> byte list" where
  "header_bytes hdr = to_le 8 (magic_bytes hdr) @ to_le 8 (callback_id hdr) @ to_le 8 (rpc_size hdr)"

definition header_of :: "byte list \<Rightarrow> codius_rpc_header" where
  "header_of bs = \<lparr>magic_bytes = of_le (take 8 bs), callback_id = of_le (take 8 (drop 8 bs)),
     rpc_size = of_le (take 8 (drop 16 bs))\<rparr>"

text \<open>
  The environment: \<open>read\<close> gives up to the number of bytes asked for, or fails; \<open>write\<close> says
  whether it did not fail; \<open>junk n\<close> is what \<open>n\<close> bytes hold that have not been initialised;
  \<open>stored_utf8\<close> is what the engine's \<open>WriteUtf8\<close> stores for a string given by its UTF-8 bytes.
\<close>

record ('d, 'w) env =
  sys_read :: "u32 \<Rightarrow> nat \<Rightarrow> 'w \<Rightarrow> byte list option \<times> 'w"
  sys_write :: "u32 \<Rightarrow> byte list \<Rightarrow> 'w \<Rightarrow> bool \<times> 'w"
  junk :: "nat \<Rightarrow> byte list"
  strtod_of :: "cursor \<Rightarrow> 'd"
  format_of :: "'d \<Rightarrow> byte list"
  stored_utf8 :: "byte list \<Rightarrow> byte list"

record ('d, 'w) ipc =
  dom :: "'d heap"
  outside :: 'w
  next_request_id :: u32

text \<open>Bytes read into a buffer of a size: the rest stays uninitialised.\<close>

definition read_into :: "('d, 'w) env \<Rightarrow> u32 \<Rightarrow> nat \<Rightarrow> ('d, 'w) ipc \<Rightarrow> byte list option \<times> ('d, 'w) ipc" where
  "read_into E fd n s =
     (let (r, w) = sys_read E fd n (outside s); s = s\<lparr>outside := w\<rparr> in
      case r of
        None \<Rightarrow> (None, s)
      | Some bs \<Rightarrow> (Some (take n bs @ drop (length bs) (take n (junk E n))), s))"

definition write_out :: "('d, 'w) env \<Rightarrow> u32 \<Rightarrow> byte list \<Rightarrow> ('d, 'w) ipc \<Rightarrow> bool \<times> ('d, 'w) ipc" where
  "write_out E fd bs s = (let (ok, w) = sys_write E fd bs (outside s) in (ok, s\<lparr>outside := w\<rparr>))"

text \<open>The header, then the text up to its terminator unless the first \<open>write\<close> failed: 0 or -1.\<close>

definition write_message :: "('d, 'w) env \<Rightarrow> u32 \<Rightarrow> u64 \<Rightarrow> cursor \<Rightarrow> ('d, 'w) ipc \<Rightarrow> u32 \<times> ('d, 'w) ipc" where
  "write_message E fd callback buf s =
     (let hdr = \<lparr>magic_bytes = CODIUS_MAGIC_BYTES, callback_id = callback, rpc_size = of_nat (length (c_str buf))\<rparr>;
          (ok, s) = write_out E fd (header_bytes hdr) s in
      if \<not> ok then (-1, s)
      else let (ok, s) = write_out E fd (take (unat (rpc_size hdr)) buf) s in (if ok then 0 else -1, s))"

text \<open>The header of a message, or null when \<open>read\<close> fails or the magic number is another one.\<close>

definition read_header :: "('d, 'w) env \<Rightarrow> u32 \<Rightarrow> ('d, 'w) ipc \<Rightarrow> (codius_rpc_header option \<times> ('d, 'w) ipc) outcome" where
  "read_header E fd s =
     (let (r, s) = read_into E fd 24 s in
      case r of
        None \<Rightarrow> Ret (None, s)
      | Some bs \<Rightarrow>
          let hdr = header_of bs in
          if magic_bytes hdr \<noteq> CODIUS_MAGIC_BYTES then Ret (None, s)
          else if CODIUS_MAX_RESPONSE_SIZE < rpc_size hdr then Fault Abort_called
          else Ret (Some hdr, s))"

section \<open>Requests\<close>

definition on_dom :: "('d heap \<Rightarrow> ('a \<times> 'd heap) outcome) \<Rightarrow> ('d, 'w) ipc \<Rightarrow> ('a \<times> ('d, 'w) ipc) outcome" where
  "on_dom f s = bindO (f (dom s)) (\<lambda>(r, h). Ret (r, s\<lparr>dom := h\<rparr>))"

definition codius_request_new ::
  "byte list option \<Rightarrow> byte list option \<Rightarrow> ('d, 'w) ipc \<Rightarrow> (codius_request \<times> ('d, 'w) ipc) outcome" where
  "codius_request_new api method s =
     bindO (json_strdup api) (\<lambda>a. bindO (json_strdup method) (\<lambda>m.
     Ret (\<lparr>api_name = Some a, method_name = Some m, req_data = None, req_id = scast (next_request_id s), req_fd = 0\<rparr>,
       s\<lparr>next_request_id := next_request_id s + 1\<rparr>)))"

definition codius_request_to_string ::
  "('d, 'w) env \<Rightarrow> codius_request \<Rightarrow> 'd heap \<Rightarrow> (cursor \<times> 'd heap) outcome" where
  "codius_request_to_string E request h =
     bindO (assertO (api_name request \<noteq> None \<and> method_name request \<noteq> None)) (\<lambda>_.
     bindO (json_mkobject h) (\<lambda>(req, h).
     bindO (json_mkstring (api_name request) h) (\<lambda>(api, h).
     bindO (json_append_member (Some req) (ascii ''api'') (Some api) h) (\<lambda>h.
     bindO (json_mkstring (method_name request) h) (\<lambda>(method, h).
     bindO (json_append_member (Some req) (ascii ''method'') (Some method) h) (\<lambda>h.
     bindO (if req_data request \<noteq> None then json_append_member (Some req) (ascii ''arguments'') (req_data request) h
            else bindO (json_mknull h) (\<lambda>(null, h).
              json_append_member (Some req) (ascii ''arguments'') (Some null) h)) (\<lambda>h.
     bindO (json_encode_node (format_of E) (Some req) h) (\<lambda>buf.
     bindO (json_delete (Some req) h) (\<lambda>h.
     Ret (buf, h))))))))))"

definition codius_write_request ::
  "('d, 'w) env \<Rightarrow> u32 \<Rightarrow> codius_request \<Rightarrow> ('d, 'w) ipc \<Rightarrow> (u32 \<times> ('d, 'w) ipc) outcome" where
  "codius_write_request E fd request s =
     bindO (on_dom (codius_request_to_string E request) s) (\<lambda>(buf, s).
     Ret (write_message E fd (req_id request) buf s))"

text \<open>\<open>strdup (child->string_)\<close> of a node that may be missing.\<close>

definition copy_string_of :: "ptr \<Rightarrow> 'd heap \<Rightarrow> byte list outcome" where
  "copy_string_of child h = bindO (load child h) (\<lambda>n. bindO (string_val (payload n)) json_strdup)"

definition codius_request_from_string ::
  "('d, 'w) env \<Rightarrow> cursor \<Rightarrow> ('d, 'w) ipc \<Rightarrow> (codius_request \<times> ('d, 'w) ipc) outcome" where
  "codius_request_from_string E buf s =
     bindO (on_dom (json_decode_node (strtod_of E) buf) s) (\<lambda>(req, s).
     bindO (json_find_member req (ascii ''api'') (dom s)) (\<lambda>child.
     bindO (copy_string_of child (dom s)) (\<lambda>api.
     bindO (json_find_member req (ascii ''method'') (dom s)) (\<lambda>child.
     bindO (copy_string_of child (dom s)) (\<lambda>method.
     bindO (json_find_member req (ascii ''arguments'') (dom s)) (\<lambda>child.
     bindO (codius_request_new (Some api) (Some method) s) (\<lambda>(ret, s).
     bindO (load child (dom s)) (\<lambda>n.
     let ret = (if tag n \<noteq> JSON_NULL then ret\<lparr>req_data := child\<rparr> else ret) in
     bindO (json_delete req (dom s)) (\<lambda>h.
     Ret (ret, s\<lparr>dom := h\<rparr>))))))))))"

definition codius_read_request ::
  "('d, 'w) env \<Rightarrow> u32 \<Rightarrow> ('d, 'w) ipc \<Rightarrow> (codius_request option \<times> ('d, 'w) ipc) outcome" where
  "codius_read_request E fd s =
     bindO (read_header E fd s) (\<lambda>(header, s). case header of
       None \<Rightarrow> Ret (None, s)
     | Some hdr \<Rightarrow>
         let (r, s) = read_into E fd (unat (rpc_size hdr)) s in
         case r of
           None \<Rightarrow> Ret (None, s)
         | Some buf \<Rightarrow>
             bindO (codius_request_from_string E (buf @ [0]) s) (\<lambda>(request, s).
             Ret (Some (request\<lparr>req_id := callback_id hdr, req_fd := fd\<rparr>), s)))"

section \<open>Results\<close>

definition codius_result_new :: codius_result where
  "codius_result_new = \<lparr>success = 0, res_data = None, res_id = 0\<rparr>"

definition codius_result_free :: "codius_result option \<Rightarrow> 'd heap \<Rightarrow> 'd heap outcome" where
  "codius_result_free result h = (case result of None \<Rightarrow> Ret h | Some r \<Rightarrow> json_delete (res_data r) h)"

definition codius_result_to_string :: "('d, 'w) env \<Rightarrow> codius_result \<Rightarrow> 'd heap \<Rightarrow> cursor outcome" where
  "codius_result_to_string E result h =
     (if res_data result \<noteq> None then json_encode_node (format_of E) (res_data result) h else Ret [0])"

definition codius_write_result ::
  "('d, 'w) env \<Rightarrow> u32 \<Rightarrow> codius_result \<Rightarrow> ('d, 'w) ipc \<Rightarrow> (u32 \<times> ('d, 'w) ipc) outcome" where
  "codius_write_result E fd result s =
     bindO (codius_result_to_string E result (dom s)) (\<lambda>buf. Ret (write_message E fd (res_id result) buf s))"

definition codius_result_from_string ::
  "('d, 'w) env \<Rightarrow> cursor \<Rightarrow> ('d, 'w) ipc \<Rightarrow> (codius_result \<times> ('d, 'w) ipc) outcome" where
  "codius_result_from_string E buf s =
     bindO (on_dom (json_decode_node (strtod_of E) buf) s) (\<lambda>(d, s).
     Ret (codius_result_new\<lparr>res_data := d\<rparr>, s))"

text \<open>Other than for a request, the buffer has no room for a terminator, and gets none.\<close>

definition codius_read_result ::
  "('d, 'w) env \<Rightarrow> u32 \<Rightarrow> ('d, 'w) ipc \<Rightarrow> (codius_result option \<times> ('d, 'w) ipc) outcome" where
  "codius_read_result E fd s =
     bindO (read_header E fd s) (\<lambda>(header, s). case header of
       None \<Rightarrow> Ret (None, s)
     | Some hdr \<Rightarrow>
         let (r, s) = read_into E fd (unat (rpc_size hdr)) s in
         case r of
           None \<Rightarrow> Ret (None, s)
         | Some buf \<Rightarrow>
             bindO (codius_result_from_string E buf s) (\<lambda>(result, s).
             Ret (Some (result\<lparr>res_id := callback_id hdr\<rparr>), s)))"

text \<open>The result of the write is not looked at.\<close>

definition codius_sync_call ::
  "('d, 'w) env \<Rightarrow> codius_request \<Rightarrow> ('d, 'w) ipc \<Rightarrow> (codius_result option \<times> ('d, 'w) ipc) outcome" where
  "codius_sync_call E request s =
     bindO (codius_write_request E 3 request s) (\<lambda>(_, s). codius_read_result E 3 s)"

definition codius_send_reply ::
  "('d, 'w) env \<Rightarrow> codius_request \<Rightarrow> codius_result \<Rightarrow> ('d, 'w) ipc \<Rightarrow> (u32 \<times> ('d, 'w) ipc) outcome" where
  "codius_send_reply E request result s = codius_write_result E (req_fd request) (result\<lparr>res_id := req_id request\<rparr>) s"

section \<open>The supervisor's side\<close>

text \<open>
  \<open>handle_ipc_read\<close> of src/sandbox.cpp reads a request from a channel and hands it to
  \<open>NodeSandbox::handleIPC\<close> of src/sandbox-node-module.cpp, which converts its arguments for
  the script with \<open>fromJsonNode\<close>: what it passes to \<open>JSON.parse\<close> is recorded.
\<close>

datatype ipc_event = Exit_failure | On_ipc "byte list" "byte list" cursor codius_request

definition fromJsonNode :: "('d, 'w) env \<Rightarrow> ptr \<Rightarrow> 'd heap \<Rightarrow> cursor outcome" where
  "fromJsonNode E node h = json_encode_node (format_of E) node h"

definition handleIPC :: "('d, 'w) env \<Rightarrow> codius_request \<Rightarrow> ('d, 'w) ipc \<Rightarrow> ipc_event outcome" where
  "handleIPC E request s =
     bindO (fromJsonNode E (req_data request) (dom s)) (\<lambda>text.
     bindO (json_strdup (api_name request)) (\<lambda>api.
     bindO (json_strdup (method_name request)) (\<lambda>method.
     Ret (On_ipc api method text request))))"

definition handle_ipc_read :: "('d, 'w) env \<Rightarrow> u32 \<Rightarrow> ('d, 'w) ipc \<Rightarrow> (ipc_event \<times> ('d, 'w) ipc) outcome" where
  "handle_ipc_read E ipc_parent s =
     bindO (codius_read_request E ipc_parent s) (\<lambda>(request, s). case request of
       None \<Rightarrow> Ret (Exit_failure, s)
     | Some r \<Rightarrow> bindO (handleIPC E r s) (\<lambda>e. Ret (e, s)))"

text \<open>
  \<open>toJsonNode\<close> on the UTF-8 bytes of what \<open>JSON.stringify\<close> gives: the vector has as many bytes.
\<close>

definition toJsonNode :: "('d, 'w) env \<Rightarrow> byte list \<Rightarrow> 'd heap \<Rightarrow> (ptr \<times> 'd heap) outcome" where
  "toJsonNode E text h =
     bindO (store_at (replicate (length text) 0) 0 (stored_utf8 E text)) (\<lambda>buf. json_decode_node (strtod_of E) buf h)"

text \<open>
  \<open>node_finish_ipc\<close>: the script's answer is not an object (\<open>None\<close>), or its \<open>success\<close> and the
  text of its \<open>result\<close>. The request's own memory is freed with its strings.
\<close>

definition node_finish_ipc ::
  "('d, 'w) env \<Rightarrow> codius_request \<Rightarrow> (bool \<times> byte list) option \<Rightarrow> ('d, 'w) ipc \<Rightarrow> (u32 \<times> ('d, 'w) ipc) outcome" where
  "node_finish_ipc E request answer s =
     bindO (case answer of
         None \<Rightarrow> Ret (codius_result_new, s)
       | Some (ok, text) \<Rightarrow>
           bindO (on_dom (toJsonNode E text) s) (\<lambda>(ret, s).
           Ret (codius_result_new\<lparr>success := (if ok then 1 else 0), res_data := ret\<rparr>, s))) (\<lambda>(result, s).
     bindO (codius_send_reply E request result s) (\<lambda>(r, s).
     bindO (codius_result_free (Some result) (dom s)) (\<lambda>h. Ret (r, s\<lparr>dom := h\<rparr>))))"

end
