(* ===== verification/CodiusUtilFacts.thy ===== *)
theory CodiusUtilFacts
  imports CodiusUtil
begin

text \<open>
  What the messages of src/codius-util.c carry and what becomes of the nodes they are made of:
  the text of a request, a request read back on the other side of a pipe, and the answer.
\<close>

section \<open>The header\<close>

lemma header_length [simp]: "length (header_bytes hdr) = 24"
  by (simp add: header_bytes_def)

lemma header_of_bytes [simp]: "header_of (header_bytes hdr) = hdr"
  by (cases hdr) (simp add: header_of_def header_bytes_def)

section \<open>A member is attached, the object encoded and deleted\<close>

lemma attach_encode_delete:
  assumes c: "contains h JSON_OBJECT a ts its" and d: "detached h a" and b: "below h"
    and t: "rep h t v" "detached h (addr t)" "apart t a ts"
  shows "\<exists>h1 h2. json_append_member (Some a) k (Some (addr t)) h = Ret h1 \<and>
    json_encode_node fmt (Some a) h1 = json_encode fmt (box_value JSON_OBJECT (its @ [(Some k, v)])) \<and>
    json_delete (Some a) h1 = Ret h2 \<and>
    nodes h2 = (\<lambda>x. if x \<in> set (addrs (Node a (ts @ [t]))) then None else nodes h x) \<and> below h2"
proof -
  from append_member.attaches [OF c t, of k] obtain h1 where h1:
    "json_append_member (Some a) k (Some (addr t)) h = Ret h1"
    "contains h1 JSON_OBJECT a (ts @ [t]) (its @ [(Some k, v)])"
    "relinked h h1 a ({a, addr t} \<union> set (map addr ts))" by (auto simp: put_def)
  note r = box_value_rep [OF h1(2)]
  have b1: "below h1" by (rule relinked_below [OF h1(3) b])
  have "json_delete (Some a) h1 = Ret (wipe (set (addrs (Node a (ts @ [t])))) h1)"
    using json_delete_rep [OF r b1] relinked_detached [OF h1(3) d] by (simp add: detached_unowned)
  moreover have "json_encode_node fmt (Some a) h1 = json_encode fmt (box_value JSON_OBJECT (its @ [(Some k, v)]))"
    using json_encode_node_rep [OF r b1] by simp
  moreover have "{a, addr t} \<union> set (map addr ts) \<subseteq> set (addrs (Node a (ts @ [t])))" by auto
  with h1(3) have "nodes h1 x = nodes h x" if "x \<notin> set (addrs (Node a (ts @ [t])))" for x
    using that unfolding relinked_def by (metis subsetD)
  then have "nodes (wipe (set (addrs (Node a (ts @ [t])))) h1) =
      (\<lambda>x. if x \<in> set (addrs (Node a (ts @ [t]))) then None else nodes h x)" by (simp add: fun_eq_iff del: addrs.simps)
  moreover have "below (wipe (set (addrs (Node a (ts @ [t])))) h1)" using b1 by (simp add: below_def)
  ultimately show ?thesis using h1(1) by blast
qed

section \<open>The text of a request\<close>

text \<open>What a request's \<open>data\<close> stands for, and the nodes it owns: none for a null pointer.\<close>

definition carries :: "ptr \<Rightarrow> 'd heap \<Rightarrow> 'd json \<Rightarrow> nat set \<Rightarrow> bool" where
  "carries p h v S \<longleftrightarrow>
     (case p of
        None \<Rightarrow> v = JNull \<and> S = {}
      | Some a \<Rightarrow> \<exists>t. a = addr t \<and> rep h t v \<and> detached h a \<and> S = set (addrs t))"

definition request_json :: "byte list \<Rightarrow> byte list \<Rightarrow> 'd json \<Rightarrow> 'd json" where
  "request_json api meth v =
     JObject [(ascii ''api'', JString api), (ascii ''method'', JString meth), (ascii ''arguments'', v)]"

lemma filling_member:
  assumes "filling h JSON_OBJECT a ts its h1" "built h1 v t h2"
  shows "\<exists>h3. json_append_member (Some a) k (Some (addr t)) h2 = Ret h3 \<and>
    filling h JSON_OBJECT a (ts @ [t]) (its @ [(Some k, v)]) h3"
  using append_member.attaches [of h2 a ts its t v k] by (intro filling_step [OF assms]) (simp add: put_def)

lemma mkstring_built:
  assumes "below h"
  shows "\<exists>t h'. json_mkstring (Some s) h = Ret (addr t, h') \<and> built h (JString s) t h'"
  using make_node_built [OF assms, of "JString s"] by (simp add: json_mkstring_def json_strdup_def)

lemma filling_below: "filling h T a ts its h' \<Longrightarrow> below h'"
  by (simp add: filling_def)

lemma request_opened:
  assumes b: "below h"
  shows "\<exists>h1 t1 h2 h3 t2 h4 h5. json_mkobject h = Ret (fresh h, h1) \<and>
    json_mkstring (Some api) h1 = Ret (addr t1, h2) \<and>
    json_append_member (Some (fresh h)) (ascii ''api'') (Some (addr t1)) h2 = Ret h3 \<and>
    json_mkstring (Some meth) h3 = Ret (addr t2, h4) \<and>
    json_append_member (Some (fresh h)) (ascii ''method'') (Some (addr t2)) h4 = Ret h5 \<and>
    filling h JSON_OBJECT (fresh h) [t1, t2]
      [(Some (ascii ''api''), JString api), (Some (ascii ''method''), JString meth)] h5"
proof -
  let ?h1 = "snd (mknode JSON_OBJECT h)"
  have f1: "filling h JSON_OBJECT (fresh h) [] [] ?h1" using filling_start [OF b] by simp
  obtain t1 h2 where t1: "json_mkstring (Some api) ?h1 = Ret (addr t1, h2)" "built ?h1 (JString api) t1 h2"
    using mkstring_built [OF filling_below [OF f1]] by blast
  from filling_member [OF f1 t1(2)] obtain h3 where
    h3: "json_append_member (Some (fresh h)) (ascii ''api'') (Some (addr t1)) h2 = Ret h3"
    and f3: "filling h JSON_OBJECT (fresh h) ([] @ [t1]) ([] @ [(Some (ascii ''api''), JString api)]) h3" by blast
  obtain t2 h4 where t2: "json_mkstring (Some meth) h3 = Ret (addr t2, h4)" "built h3 (JString meth) t2 h4"
    using mkstring_built [OF filling_below [OF f3]] by blast
  from filling_member [OF f3 t2(2)] obtain h5 where
    "json_append_member (Some (fresh h)) (ascii ''method'') (Some (addr t2)) h4 = Ret h5"
    "filling h JSON_OBJECT (fresh h) (([] @ [t1]) @ [t2])
      (([] @ [(Some (ascii ''api''), JString api)]) @ [(Some (ascii ''method''), JString meth)]) h5" by blast
  moreover have "json_mkobject h = Ret (fresh h, ?h1)" by (simp add: json_mkobject_def mknode_def)
  ultimately show ?thesis using t1(1) h3 t2(1) by (metis append_Cons append_Nil)
qed

lemma detached_frame: "detached h a \<Longrightarrow> nodes h' a = nodes h a \<Longrightarrow> detached h' a"
  by (simp add: detached_def)

text \<open>The argument is the third member, the caller's tree or a new null.\<close>

lemma argument_member:
  assumes f: "filling h JSON_OBJECT a ts its h5" and b: "below h" and c: "carries p h v S"
  shows "\<exists>h6 h7. (if p \<noteq> None then json_append_member (Some a) k p h5
       else bindO (json_mknull h5) (\<lambda>(null, h). json_append_member (Some a) k (Some null) h)) = Ret h6 \<and>
     json_encode_node fmt (Some a) h6 = json_encode fmt (box_value JSON_OBJECT (its @ [(Some k, v)])) \<and>
     json_delete (Some a) h6 = Ret h7 \<and> nodes h7 = (\<lambda>x. if x \<in> S then None else nodes h x) \<and> below h7"
proof -
  have new: "nodes h x = None \<and> x \<ge> fresh h" if "x \<in> set (addrs (Node a ts))" for x
    using f b that unfolding filling_def below_def by (metis atLeastLessThan_iff not_le subsetD)
  have old: "nodes h5 x = nodes h x" if "x \<notin> set (addrs (Node a ts))" for x
    using f that unfolding filling_def by blast
  note ff = f [unfolded filling_def]
  show ?thesis
  proof (cases p)
    case None
    with c have v: "v = JNull" "S = {}" by (simp_all add: carries_def)
    obtain t h6 where t: "json_mknull h5 = Ret (addr t, h6)" "built h5 JNull t h6"
      using make_node_built [OF filling_below [OF f], of JNull] by auto
    from filling_member [OF f t(2)] obtain h7 where h7: "json_append_member (Some a) k (Some (addr t)) h6 = Ret h7"
      "filling h JSON_OBJECT a (ts @ [t]) (its @ [(Some k, JNull)]) h7" by blast
    from filling_built [OF h7(2)] have "built h (box_value JSON_OBJECT (its @ [(Some k, JNull)])) (Node a (ts @ [t])) h7" .
    with built_delete [OF this b] json_encode_node_rep [of h7 "Node a (ts @ [t])" _ fmt] t(1) h7(1) show ?thesis
      by (auto simp: None v built_def simp del: addrs.simps rep.simps)
  next
    case (Some d)
    with c obtain t where t: "d = addr t" "rep h t v" "detached h d" "S = set (addrs t)" by (auto simp: carries_def)
    have out: "x \<notin> set (addrs t)" if "x \<in> set (addrs (Node a ts))" for x
      using new [OF that] rep_below [OF t(2) b] by auto
    then have eq: "nodes h5 x = nodes h x" if "x \<in> set (addrs t)" for x using old that by blast
    have r: "rep h5 t v" using t(2) eq by (simp add: rep_frame [of t h5 h])
    have d: "detached h5 (addr t)" using detached_frame [OF t(3)] eq [of "addr t"] t(1) by simp
    have ap: "apart t a ts" unfolding apart_def using out by blast
    from ff have "contains h5 JSON_OBJECT a ts its" "detached h5 a" "below h5" by blast+
    from attach_encode_delete [OF this r d ap, of k fmt] obtain h6 h7 where
      h6: "json_append_member (Some a) k (Some (addr t)) h5 = Ret h6"
      "json_encode_node fmt (Some a) h6 = json_encode fmt (box_value JSON_OBJECT (its @ [(Some k, v)]))"
      "json_delete (Some a) h6 = Ret h7"
      and h7: "nodes h7 = (\<lambda>x. if x \<in> set (addrs (Node a (ts @ [t]))) then None else nodes h5 x)" "below h7" by blast
    have "nodes h7 = (\<lambda>x. if x \<in> S then None else nodes h x)"
    proof
      fix x
      have "x \<in> set (addrs (Node a (ts @ [t]))) \<longleftrightarrow> x \<in> set (addrs (Node a ts)) \<or> x \<in> S" by (auto simp: t)
      then show "nodes h7 x = (if x \<in> S then None else nodes h x)"
        using new [of x] old [of x] by (simp add: h7 del: addrs.simps)
    qed
    with h6 h7(2) t(1) show ?thesis by (auto simp: Some)
  qed
qed

lemma request_to_string_encoded:
  assumes b: "below h" and r: "api_name request = Some api" "method_name request = Some meth"
    and c: "carries (req_data request) h v S"
    and e: "json_encode (format_of E) (request_json api meth v) = Ret buf"
  shows "\<exists>h'. codius_request_to_string E request h = Ret (buf, h') \<and>
    nodes h' = (\<lambda>x. if x \<in> S then None else nodes h x) \<and> below h'"
proof -
  from request_opened [OF b, of api meth] obtain h1 t1 h2 h3 t2 h4 h5 where
    o: "json_mkobject h = Ret (fresh h, h1)" "json_mkstring (Some api) h1 = Ret (addr t1, h2)"
      "json_append_member (Some (fresh h)) (ascii ''api'') (Some (addr t1)) h2 = Ret h3"
      "json_mkstring (Some meth) h3 = Ret (addr t2, h4)"
      "json_append_member (Some (fresh h)) (ascii ''method'') (Some (addr t2)) h4 = Ret h5"
    and f: "filling h JSON_OBJECT (fresh h) [t1, t2]
      [(Some (ascii ''api''), JString api), (Some (ascii ''method''), JString meth)] h5" by blast
  from argument_member [OF f b c, of "ascii ''arguments''" "format_of E"] e show ?thesis
    by (auto simp: codius_request_to_string_def r o request_json_def box_value_def)
qed

section \<open>A request read back\<close>

lemma kid_in_addrs: "t \<in> set ts \<Longrightarrow> addr t \<in> set (addrs (Node a ts))"
  using addr_in_addrs by fastforce

lemma zip_member:
  "list_all2 (\<lambda>t m. key_at h (addr t) = Some (fst m) \<and> rep h t (snd m)) ts ms \<Longrightarrow>
    (case map_of ms name of
       None \<Rightarrow> map_of (zip (map fst ms) (map addr ts)) name = None
     | Some w \<Rightarrow> \<exists>t \<in> set ts. map_of (zip (map fst ms) (map addr ts)) name = Some (addr t) \<and> rep h t w)"
  by (induction ts ms rule: list_all2_induct) (auto split: option.splits)

lemma find_member_node:
  assumes "rep h (Node a ts) (JObject ms)" "below h"
  shows "map_of ms name = None \<and> json_find_member (Some a) name h = Ret None \<or>
    (\<exists>w t. map_of ms name = Some w \<and> t \<in> set ts \<and> rep h t w \<and> json_find_member (Some a) name h = Ret (Some (addr t)))"
  using zip_member [of h ts ms name] json_find_member_rep [OF assms] assms(1) by (auto split: option.splits)

lemma copy_string_rep: "rep h t (JString s) \<Longrightarrow> copy_string_of (Some (addr t)) h = Ret s"
  by (cases t) (auto simp: copy_string_of_def json_strdup_def dest!: contentD)

lemma tag_rep: "rep h t w \<Longrightarrow> \<exists>n. nodes h (addr t) = Some n \<and> (tag n = JSON_NULL \<longleftrightarrow> w = JNull)"
  by (cases t; cases w) (auto simp: box_def dest!: contentD)

lemma load_None [simp]: "load None h = Fault Null_deref"
  by (simp add: load_def)

text \<open>
  The request has the strings of the message. Its \<open>data\<close> is null, or the address of a node that
  was freed with the message; the heap is as it was.
\<close>

lemma request_from_decoded:
  assumes b: "below (dom s)" and d: "json_decode (strtod_of E) buf = Ret (Some (JObject ms))"
    and m: "map_of ms (ascii ''api'') = Some (JString api)" "map_of ms (ascii ''method'') = Some (JString meth)"
      "map_of ms (ascii ''arguments'') = Some w"
  shows "\<exists>r s'. codius_request_from_string E buf s = Ret (r, s') \<and> api_name r = Some api \<and> method_name r = Some meth \<and>
    (req_data r = None \<longleftrightarrow> w = JNull) \<and> (\<forall>a. req_data r = Some a \<longrightarrow> nodes (dom s') a = None) \<and>
    nodes (dom s') = nodes (dom s) \<and> below (dom s') \<and> outside s' = outside s"
proof -
  obtain t h where t: "make_node (JObject ms) (dom s) = Ret (addr t, h)" "built (dom s) (JObject ms) t h"
    using make_node_built [OF b] by blast
  obtain a ts where a: "t = Node a ts" by (cases t)
  have r: "rep h (Node a ts) (JObject ms)" and bh: "below h" using t(2) by (simp_all add: built_def a)
  obtain t1 where t1: "rep h t1 (JString api)" "json_find_member (Some a) (ascii ''api'') h = Ret (Some (addr t1))"
    using find_member_node [OF r bh, of "ascii ''api''"] m(1) by auto
  obtain t2 where t2: "rep h t2 (JString meth)" "json_find_member (Some a) (ascii ''method'') h = Ret (Some (addr t2))"
    using find_member_node [OF r bh, of "ascii ''method''"] m(2) by auto
  obtain t3 where t3: "rep h t3 w" "json_find_member (Some a) (ascii ''arguments'') h = Ret (Some (addr t3))" "t3 \<in> set ts"
    using find_member_node [OF r bh, of "ascii ''arguments''"] m(3) by auto
  obtain n where n: "nodes h (addr t3) = Some n" "tag n = JSON_NULL \<longleftrightarrow> w = JNull" using tag_rep [OF t3(1)] by blast
  from built_delete [OF t(2) b] obtain h' where h': "json_delete (Some a) h = Ret h'" "nodes h' = nodes (dom s)" "below h'"
    by (auto simp: a)
  have "addr t3 \<in> set (addrs t)" using kid_in_addrs [OF t3(3)] by (simp add: a)
  then have "nodes (dom s) (addr t3) = None" by (rule built_new [OF t(2) b])
  with t(1) t1 t2 t3 n h' show ?thesis
    by (auto simp: codius_request_from_string_def on_dom_def json_decode_node_def d a copy_string_rep
        codius_request_new_def json_strdup_def Let_def simp del: rep.simps)
qed

text \<open>Whatever the message, a request that is made of it has no data that could be used.\<close>

lemma request_data_unusable:
  assumes b: "below (dom s)" and ret: "codius_request_from_string E buf s = Ret (r, s')"
  shows "load (req_data r) (dom s') \<in> {Fault Null_deref, Fault Dangling}"
proof -
  from ret obtain req s1 child where req: "on_dom (json_decode_node (strtod_of E) buf) s = Ret (req, s1)"
    and f: "json_find_member req (ascii ''arguments'') (dom s1) = Ret child" "child \<noteq> None"
    and data: "req_data r \<in> {None, child}" and del: "json_delete req (dom s1) = Ret (dom s')"
    by (auto simp: codius_request_from_string_def bindO_Ret_iff codius_request_new_def load_Ret_iff Let_def)
  from f obtain a n where a: "req = Some a" "nodes (dom s1) a = Some n" "tag n = JSON_OBJECT"
    by (auto simp: json_find_member_def bindO_Ret_iff load_Ret_iff split: if_splits)
  from req a(1) obtain v where "make_node v (dom s) = Ret (a, dom s1)"
    by (auto simp: on_dom_def json_decode_node_def bindO_Ret_iff split: option.splits)
  with make_node_built [OF b, of v] obtain t where t: "a = addr t" "built (dom s) v t (dom s1)" by auto
  from a(2,3) t obtain ms where "v = JObject ms"
    by (cases t; cases v) (auto simp: built_def box_def dest!: contentD)
  with t obtain ts where r: "t = Node a ts" "rep (dom s1) (Node a ts) (JObject ms)" "below (dom s1)"
    by (cases t) (auto simp: built_def)
  obtain t3 where t3: "child = Some (addr t3)" "t3 \<in> set ts"
    using find_member_node [OF r(2,3), of "ascii ''arguments''"] f a(1) by auto
  have "addr t3 \<in> set (addrs t)" using kid_in_addrs [OF t3(2)] by (simp add: r(1))
  then have "nodes (dom s) (addr t3) = None" by (rule built_new [OF t(2) b])
  moreover have "nodes (dom s') = nodes (dom s)" using built_delete [OF t(2) b] del a(1) t(1) by auto
  ultimately show ?thesis using data t3(1) by (auto simp: load_def)
qed

lemma read_node_load: "load p h = Fault e \<Longrightarrow> 0 < n \<Longrightarrow> read_node n p h = Fault e"
  by (cases n) simp_all

lemma encode_unusable: "load p h = Fault e \<Longrightarrow> json_encode_node fmt p h = Fault e"
  by (simp add: json_encode_node_def read_node_load walk_fuel_def)

section \<open>Messages through a pipe\<close>

text \<open>
  What is relied on of a pipe between two descriptors whose contents are \<open>q\<close>: a write that fits
  into its capacity is carried out whole, and a read of bytes that are there returns them.
\<close>

definition pipe :: "nat \<Rightarrow> ('d, 'w) env \<Rightarrow> u32 \<Rightarrow> u32 \<Rightarrow> ('w \<Rightarrow> byte list) \<Rightarrow> bool" where
  "pipe K E to from q \<longleftrightarrow>
     (\<forall>bs w. length (q w) + length bs \<le> K \<longrightarrow>
       (\<exists>w'. sys_write E to bs w = (True, w') \<and> q w' = q w @ bs)) \<and>
     (\<forall>n w. n \<le> length (q w) \<longrightarrow>
       (\<exists>w'. sys_read E from n w = (Some (take n (q w)), w') \<and> q w' = drop n (q w)))"

lemma pipe_write:
  assumes "pipe K E to from q" "length (q (outside s)) + length bs \<le> K"
  shows "\<exists>w. write_out E to bs s = (True, s\<lparr>outside := w\<rparr>) \<and> q w = q (outside s) @ bs"
  using assms by (fastforce simp: pipe_def write_out_def)

lemma pipe_read:
  assumes "pipe K E to from q" "q (outside s) = bs @ cs"
  shows "\<exists>w. read_into E from (length bs) s = (Some bs, s\<lparr>outside := w\<rparr>) \<and> q w = cs"
proof -
  from assms obtain w where "sys_read E from (length bs) (outside s) = (Some bs, w)" "q w = cs"
    unfolding pipe_def by (metis append_eq_conv_conj le_add1 length_append)
  then show ?thesis by (intro exI [of _ w]) (simp add: read_into_def)
qed

definition message :: "u64 \<Rightarrow> byte list \<Rightarrow> byte list" where
  "message callback bs =
     header_bytes \<lparr>magic_bytes = CODIUS_MAGIC_BYTES, callback_id = callback, rpc_size = of_nat (length bs)\<rparr> @ bs"

lemma small_size: "n \<le> 268435456 \<Longrightarrow> unat (of_nat n :: u64) = n"
  by (simp add: unat_of_nat take_bit_nat_eq_self)

lemma write_message_pipe:
  assumes p: "pipe K E to from q" and b: "length (q (outside s)) + 24 + length bs \<le> K" "length bs \<le> 268435456" "0 \<notin> set bs"
  shows "\<exists>w. write_message E to callback (bs @ [0]) s = (0, s\<lparr>outside := w\<rparr>) \<and> q w = q (outside s) @ message callback bs"
proof -
  let ?hdr = "\<lparr>magic_bytes = CODIUS_MAGIC_BYTES, callback_id = callback, rpc_size = of_nat (length bs)\<rparr>"
  obtain w where w: "write_out E to (header_bytes ?hdr) s = (True, s\<lparr>outside := w\<rparr>)" "q w = q (outside s) @ header_bytes ?hdr"
    using pipe_write [OF p, of s "header_bytes ?hdr"] b(1) by auto
  obtain w' where w': "write_out E to bs (s\<lparr>outside := w\<rparr>) = (True, s\<lparr>outside := w'\<rparr>)" "q w' = q w @ bs"
    using pipe_write [OF p, of "s\<lparr>outside := w\<rparr>" bs] b(1) w(2) by auto
  have "c_str (bs @ [0]) = bs" using c_str_append [OF b(3), of "[]"] by simp
  with w w' b(2) show ?thesis by (intro exI [of _ w']) (simp add: write_message_def message_def small_size)
qed

lemma read_header_pipe:
  assumes p: "pipe K E to from q" and b: "q (outside s) = message callback bs" "length bs \<le> 268435456"
  shows "\<exists>w. read_header E from s =
      Ret (Some \<lparr>magic_bytes = CODIUS_MAGIC_BYTES, callback_id = callback, rpc_size = of_nat (length bs)\<rparr>, s\<lparr>outside := w\<rparr>) \<and>
    q w = bs"
proof -
  let ?hdr = "\<lparr>magic_bytes = CODIUS_MAGIC_BYTES, callback_id = callback, rpc_size = of_nat (length bs)\<rparr>"
  obtain w where w: "read_into E from 24 s = (Some (header_bytes ?hdr), s\<lparr>outside := w\<rparr>)" "q w = bs"
    using pipe_read [OF p, of s "header_bytes ?hdr" bs] b(1) by (auto simp: message_def)
  have "\<not> CODIUS_MAX_RESPONSE_SIZE < of_nat (length bs)"
    using b(2) by (simp add: CODIUS_MAX_RESPONSE_SIZE_def word_less_nat_alt small_size)
  with w show ?thesis by (intro exI [of _ w]) (simp add: read_header_def)
qed

lemma pipe_read_all:
  assumes "pipe K E to from q" "q (outside s) = bs"
  shows "\<exists>w. read_into E from (length bs) s = (Some bs, s\<lparr>outside := w\<rparr>) \<and> q w = []"
  using pipe_read [OF assms(1), of s bs "[]"] assms(2) by simp

lemma read_request_pipe:
  assumes p: "pipe K E to from q" and b: "q (outside s) = message callback bs" "length bs \<le> 268435456" "below (dom s)"
    and d: "json_decode (strtod_of E) (bs @ [0]) = Ret (Some (request_json api meth w))"
  shows "\<exists>r s'. codius_read_request E from s = Ret (Some r, s') \<and>
    api_name r = Some api \<and> method_name r = Some meth \<and> req_id r = callback \<and> req_fd r = from \<and>
    load (req_data r) (dom s') = Fault (if w = JNull then Null_deref else Dangling) \<and>
    q (outside s') = [] \<and> nodes (dom s') = nodes (dom s)"
proof -
  let ?hdr = "\<lparr>magic_bytes = CODIUS_MAGIC_BYTES, callback_id = callback, rpc_size = of_nat (length bs)\<rparr>"
  obtain w1 where h: "read_header E from s = Ret (Some ?hdr, s\<lparr>outside := w1\<rparr>)" "q w1 = bs"
    using read_header_pipe [OF p b(1,2)] by blast
  obtain w2 where t: "read_into E from (length bs) (s\<lparr>outside := w1\<rparr>) = (Some bs, s\<lparr>outside := w2\<rparr>)" "q w2 = []"
    using pipe_read_all [OF p, of "s\<lparr>outside := w1\<rparr>" bs] h(2) by auto
  obtain r s' where r: "codius_request_from_string E (bs @ [0]) (s\<lparr>outside := w2\<rparr>) = Ret (r, s')"
    "api_name r = Some api" "method_name r = Some meth" "req_data r = None \<longleftrightarrow> w = JNull"
    "\<forall>a. req_data r = Some a \<longrightarrow> nodes (dom s') a = None" "nodes (dom s') = nodes (dom s)" "outside s' = w2"
    using request_from_decoded [of "s\<lparr>outside := w2\<rparr>" E "bs @ [0]" _ api meth w] b(3) d
    by (auto simp: request_json_def ascii_def)
  then show ?thesis using h t b(2)
    by (auto simp: codius_read_request_def small_size load_def split: option.splits)
qed

lemma reread_request [simp]:
  "reread fmt sd (request_json api meth v) = request_json api meth (reread fmt sd v)"
  by (simp add: request_json_def)

lemma write_request_pipe:
  assumes p: "pipe K E to from q" and f: "fmt_ok (format_of E)"
    and r: "below (dom s)" "api_name r = Some api" "method_name r = Some meth" "carries (req_data r) (dom s) v S"
    and wf: "json_wf (request_json api meth v)"
    and len: "q (outside s) = []" "length (encode (format_of E) (request_json api meth v)) + 24 \<le> K" "K \<le> 268435456"
  shows "\<exists>s'. codius_write_request E to r s = Ret (0, s') \<and>
    nodes (dom s') = (\<lambda>x. if x \<in> S then None else nodes (dom s) x) \<and> below (dom s') \<and>
    q (outside s') = message (req_id r) (encode (format_of E) (request_json api meth v))"
proof -
  let ?b = "encode (format_of E) (request_json api meth v)"
  from request_to_string_encoded [OF r(1,2,3,4) json_encode_Ret [OF f wf]] obtain h where
    h: "codius_request_to_string E r (dom s) = Ret (?b @ [0], h)"
    "nodes h = (\<lambda>x. if x \<in> S then None else nodes (dom s) x)" "below h" by blast
  have "0 \<notin> set ?b" using str_ok_encode [OF f wf] by (simp add: str_ok_def)
  then obtain w where "write_message E to (req_id r) (?b @ [0]) (s\<lparr>dom := h\<rparr>) = (0, s\<lparr>dom := h, outside := w\<rparr>)"
    "q w = message (req_id r) ?b"
    using write_message_pipe [OF p, of "s\<lparr>dom := h\<rparr>" ?b] len by fastforce
  with h show ?thesis
    by (intro exI [of _ "s\<lparr>dom := h, outside := w\<rparr>"]) (simp add: codius_write_request_def on_dom_def)
qed

lemma request_arrives:
  assumes p: "pipe K E to from q" and f: "fmt_ok (format_of E)" "strtod_local (strtod_of E)"
    and s: "q (outside s) = message callback (encode (format_of E) (request_json api meth v))" "below (dom s)"
    and wf: "json_wf (request_json api meth v)" "plain (request_json api meth v)"
    and len: "length (encode (format_of E) (request_json api meth v)) \<le> 268435456"
  shows "\<exists>r s'. codius_read_request E from s = Ret (Some r, s') \<and>
    api_name r = Some api \<and> method_name r = Some meth \<and> req_id r = callback \<and> req_fd r = from \<and>
    load (req_data r) (dom s') =
      Fault (if reread (format_of E) (strtod_of E) v = JNull then Null_deref else Dangling) \<and>
    q (outside s') = [] \<and> nodes (dom s') = nodes (dom s)"
  using json_roundtrip [OF f wf] json_encode_Ret [OF f(1) wf(1)]
  by (intro read_request_pipe [OF p s(1) len s(2)]) simp

section \<open>Answers\<close>

lemma unterminated_text:
  assumes "strtod_local sd" "0 \<notin> set bs"
  shows "json_decode sd bs \<noteq> Ret (Some v)"
  using decode_is_text [OF assms(1)] assms(2) by fastforce

lemma result_from_unterminated:
  assumes "strtod_local (strtod_of E)" "0 \<notin> set bs" "codius_result_from_string E bs s = Ret (r, s')"
  shows "r = codius_result_new"
proof -
  from assms(3) obtain u a where u: "json_decode (strtod_of E) bs = Ret u" "r = codius_result_new\<lparr>res_data := a\<rparr>"
    and a: "u = None \<Longrightarrow> a = None"
    by (auto simp: codius_result_from_string_def on_dom_def json_decode_node_def bindO_Ret_iff split: option.splits)
  from unterminated_text [OF assms(1,2)] u(1) have "u = None" by (cases u) auto
  with a u(2) show ?thesis by (simp add: codius_result_new_def)
qed

lemma read_result_pipe:
  assumes p: "pipe K E to from q" and sd: "strtod_local (strtod_of E)"
    and b: "q (outside s) = message callback bs" "length bs \<le> 268435456" "0 \<notin> set bs"
    and ret: "codius_read_result E from s = Ret (res, s')"
  shows "res = Some (codius_result_new\<lparr>res_id := callback\<rparr>)"
proof -
  let ?hdr = "\<lparr>magic_bytes = CODIUS_MAGIC_BYTES, callback_id = callback, rpc_size = of_nat (length bs)\<rparr>"
  obtain w1 where h: "read_header E from s = Ret (Some ?hdr, s\<lparr>outside := w1\<rparr>)" "q w1 = bs"
    using read_header_pipe [OF p b(1,2)] by blast
  obtain w2 where "read_into E from (length bs) (s\<lparr>outside := w1\<rparr>) = (Some bs, s\<lparr>outside := w2\<rparr>)"
    using pipe_read_all [OF p, of "s\<lparr>outside := w1\<rparr>" bs] h(2) by auto
  with ret h(1) b(2) obtain r where r: "codius_result_from_string E bs (s\<lparr>outside := w2\<rparr>) = Ret (r, s')"
    "res = Some (r\<lparr>res_id := callback\<rparr>)"
    by (auto simp: codius_read_result_def small_size bindO_Ret_iff)
  with result_from_unterminated [OF sd b(3) r(1)] show ?thesis by simp
qed

section \<open>A pipe of bytes\<close>

definition queue_env :: "(byte list, byte list) env" where
  "queue_env = \<lparr>sys_read = \<lambda>_ n w. (Some (take n w), drop n w), sys_write = \<lambda>_ bs w. (True, w @ bs),
     junk = \<lambda>n. replicate n 0, strtod_of = number_bytes, format_of = short_bytes, stored_utf8 = \<lambda>text. text\<rparr>"

lemma queue_pipe: "pipe K queue_env 4 5 id"
  by (simp add: pipe_def queue_env_def)

lemma queue_env_ok [simp]: "fmt_ok (format_of queue_env)" "strtod_local (strtod_of queue_env)"
  by (simp_all add: queue_env_def short_bytes_ok number_bytes_local)

text \<open>A request for the method \<open>b\<close> of the API \<open>a\<close>, whose argument is the array at 0.\<close>

definition sample_request :: codius_request where
  "sample_request = \<lparr>api_name = Some [0x61], method_name = Some [0x62], req_data = Some 0, req_id = 7, req_fd = 0\<rparr>"

definition sample_state :: "(byte list, byte list) ipc" where
  "sample_state = \<lparr>dom = pair_heap JSON_ARRAY JSON_OBJECT, outside = [], next_request_id = 0\<rparr>"

definition sample_result :: codius_result where
  "sample_result = \<lparr>success = 1, res_data = Some 0, res_id = 7\<rparr>"

lemma sample_wf: "json_wf (request_json [0x61] [0x62] (JArray []))" "plain (request_json [0x61] [0x62] (JArray []))"
  by (auto simp: request_json_def ascii_def intro!: str_ok_ascii)

lemma sample_text: "length (encode (format_of queue_env) (request_json [0x61] [0x62] (JArray []))) \<le> 1000"
  by code_simp

lemma sample_carries: "carries (req_data sample_request) (dom sample_state) (JArray []) {0}"
  by (auto simp: carries_def sample_request_def sample_state_def witness_simps intro!: exI [of _ "Node 0 []"])

lemma sample_below: "below (dom sample_state)"
  by (simp add: sample_state_def witness_simps)

section \<open>Properties\<close>

text \<open>
  The text of a request is the encoding of an object with the API, the method and the
  arguments; what is temporary is freed, and with it the caller's own argument nodes, which the
  request still points to.
\<close>

theorem codius_request_to_string_correct:
  assumes "fmt_ok (format_of E)" "below h" "api_name r = Some api" "method_name r = Some meth"
    "carries (req_data r) h v S" "json_wf (request_json api meth v)"
  shows "\<exists>h'. codius_request_to_string E r h = Ret (encode (format_of E) (request_json api meth v) @ [0], h') \<and>
    nodes h' = (\<lambda>x. if x \<in> S then None else nodes h x)"
  using request_to_string_encoded [OF assms(2-5) json_encode_Ret [OF assms(1,6)]] by blast

theorem codius_request_to_string_correct_witness:
  "\<exists>h'. codius_request_to_string queue_env sample_request (dom sample_state) =
      Ret (encode (format_of queue_env) (request_json [0x61] [0x62] (JArray [])) @ [0], h') \<and>
    nodes h' = (\<lambda>x. if x \<in> {0} then None else nodes (dom sample_state) x)"
  by (rule codius_request_to_string_correct [OF _ sample_below _ _ sample_carries sample_wf(1)])
    (simp_all add: sample_request_def)

text \<open>
  C14. A request written to a pipe is read on the other side with its API, method and number, and
  with nothing left over; the reader's heap is as it was. Its arguments are lost: the pointer is
  null when they were null, and dangling otherwise.
\<close>

theorem request_roundtrip:
  assumes p: "pipe K E to from q" "q (outside s) = []" and f: "fmt_ok (format_of E)" "strtod_local (strtod_of E)"
    and r: "api_name r = Some api" "method_name r = Some meth" "carries (req_data r) (dom s) v S"
    and wf: "json_wf (request_json api meth v)" "plain (request_json api meth v)"
    and len: "length (encode (format_of E) (request_json api meth v)) + 24 \<le> K" "K \<le> 268435456"
    and b: "below (dom s)" "below (dom s')"
  shows "\<exists>s1 r' s2. codius_write_request E to r s = Ret (0, s1) \<and>
    codius_read_request E from (s'\<lparr>outside := outside s1\<rparr>) = Ret (Some r', s2) \<and>
    api_name r' = Some api \<and> method_name r' = Some meth \<and> req_id r' = req_id r \<and> req_fd r' = from \<and>
    load (req_data r') (dom s2) =
      Fault (if reread (format_of E) (strtod_of E) v = JNull then Null_deref else Dangling) \<and>
    q (outside s2) = [] \<and> nodes (dom s2) = nodes (dom s')"
proof -
  from write_request_pipe [OF p(1) f(1) b(1) r wf(1) p(2) len] obtain s1 where
    s1: "codius_write_request E to r s = Ret (0, s1)"
    "q (outside s1) = message (req_id r) (encode (format_of E) (request_json api meth v))" by blast
  with request_arrives [OF p(1) f _ _ wf, of "s'\<lparr>outside := outside s1\<rparr>"] b(2) len show ?thesis by auto
qed

theorem request_roundtrip_witness:
  "\<exists>s1 r' s2. codius_write_request queue_env 4 sample_request sample_state = Ret (0, s1) \<and>
    codius_read_request queue_env 5 (sample_state\<lparr>outside := outside s1\<rparr>) = Ret (Some r', s2) \<and>
    api_name r' = Some [0x61] \<and> method_name r' = Some [0x62] \<and> req_id r' = 7 \<and> req_fd r' = 5 \<and>
    load (req_data r') (dom s2) = Fault Dangling \<and> outside s2 = []"
proof -
  have "reread (format_of queue_env) (strtod_of queue_env) (JArray []) \<noteq> JNull" by simp
  with request_roundtrip [OF queue_pipe [of 2000] _ _ _ _ _ sample_carries sample_wf _ _ sample_below sample_below] sample_text
  show ?thesis by (auto simp: sample_request_def sample_state_def)
qed



text \<open>
  A result does not reach the sandboxed program: written to a pipe without an error, it is
  read back, if reading it returns at all, as an empty result with the right number. The text is
  read without a terminator, and the success flag is not part of the message.
\<close>

theorem result_data_lost:
  assumes p: "pipe K E to from q" "q (outside s) = []" and f: "fmt_ok (format_of E)" "strtod_local (strtod_of E)"
    and r: "res_data r = Some (addr t)" "rep (dom s) t v" "below (dom s)" "json_wf v"
    and len: "length (encode (format_of E) v) + 24 \<le> K" "K \<le> 268435456"
  shows "\<exists>s1. codius_write_result E to r s = Ret (0, s1) \<and>
    (case codius_read_result E from (s'\<lparr>outside := outside s1\<rparr>) of
       Ret (res, _) \<Rightarrow> res = Some \<lparr>success = 0, res_data = None, res_id = res_id r\<rparr> | Fault _ \<Rightarrow> True)"
proof -
  let ?b = "encode (format_of E) v"
  have "codius_result_to_string E r (dom s) = Ret (?b @ [0])"
    by (simp add: codius_result_to_string_def r(1) json_encode_node_rep [OF r(2,3)] json_encode_Ret [OF f(1) r(4)])
  moreover have nul: "0 \<notin> set ?b" using str_ok_encode [OF f(1) r(4)] by (simp add: str_ok_def)
  then obtain w where w: "write_message E to (res_id r) (?b @ [0]) s = (0, s\<lparr>outside := w\<rparr>)" "q w = message (res_id r) ?b"
    using write_message_pipe [OF p(1), of s ?b] p(2) len by fastforce
  ultimately have "codius_write_result E to r s = Ret (0, s\<lparr>outside := w\<rparr>)" by (simp add: codius_write_result_def)
  with read_result_pipe [OF p(1) f(2), of "s'\<lparr>outside := w\<rparr>" "res_id r" ?b] w(2) nul len show ?thesis
    by (intro exI [of _ "s\<lparr>outside := w\<rparr>"]) (auto simp: codius_result_new_def split: outcome.splits)
qed

theorem result_data_lost_witness:
  "\<exists>s1. codius_write_result queue_env 4 sample_result sample_state = Ret (0, s1) \<and>
    (case codius_read_result queue_env 5 (sample_state\<lparr>outside := outside s1\<rparr>) of
       Ret (res, _) \<Rightarrow> res = Some \<lparr>success = 0, res_data = None, res_id = res_id sample_result\<rparr> | Fault _ \<Rightarrow> True)"
proof -
  have "res_data sample_result = Some (addr (Node 0 []))" "id (outside sample_state) = []"
    by (simp_all add: sample_result_def sample_state_def)
  moreover have "rep (dom sample_state) (Node 0 []) (JArray [])" by (simp add: sample_state_def witness_simps)
  moreover have "length (encode (format_of queue_env) (JArray [])) + 24 \<le> 2000" by simp
  ultimately show ?thesis
    using result_data_lost [OF queue_pipe [of 2000], of sample_state sample_result "Node 0 []" "JArray []" sample_state]
      sample_below by simp
qed

text \<open>
  The script's answer is never sent: the vector its text is stored into has no room for a
  terminator, so that storing one is an overrun, and a text without one is not decoded. If
  \<open>node_finish_ipc\<close> returns at all, it has sent an empty message, as for a script without an answer.
\<close>

theorem script_answer_lost:
  assumes w: "stored_utf8 E answer = answer \<or> stored_utf8 E answer = answer @ [0]"
    and sd: "strtod_local (strtod_of E)" and nul: "0 \<notin> set answer"
  shows "case node_finish_ipc E request (Some (ok, answer)) s of
      Ret r \<Rightarrow> r = write_message E (req_fd request) (req_id request) [0] s \<and> node_finish_ipc E request None s = Ret r
    | Fault _ \<Rightarrow> True"
proof (cases "toJsonNode E answer (dom s)")
    case (Ret x)
    then have "stored_utf8 E answer = answer" using w
      by (auto simp: toJsonNode_def store_at_def)
    with Ret have "json_decode_node (strtod_of E) answer (dom s) = Ret x"
      by (auto simp: toJsonNode_def store_at_def)
    then have "x = (None, dom s)"
      using unterminated_text [OF sd nul] by (auto simp: json_decode_node_def bindO_Ret_iff split: option.splits)
    with Ret show ?thesis
      by (simp add: node_finish_ipc_def on_dom_def codius_send_reply_def codius_write_result_def
          codius_result_to_string_def codius_result_free_def codius_result_new_def json_delete_def walk_fuel_def
          split: prod.split)
qed (simp add: node_finish_ipc_def on_dom_def)

theorem script_answer_lost_witness:
  "case node_finish_ipc queue_env sample_request (Some (True, [0x78])) sample_state of
      Ret r \<Rightarrow> r = write_message queue_env (req_fd sample_request) (req_id sample_request) [0] sample_state \<and> node_finish_ipc queue_env sample_request None sample_state = Ret r
    | Fault _ \<Rightarrow> True"
proof (rule script_answer_lost)
  show "stored_utf8 queue_env [0x78] = [0x78] \<or> stored_utf8 queue_env [0x78] = [0x78] @ [0]" by (simp add: queue_env_def)
qed simp_all

end
