(* ===== verification/Vfs.thy ===== *)
theory Vfs
  imports ChildMemory "HOL-Library.List_Lexorder"
begin

text \<open>
  The virtual file system layer of src/vfs.cpp and include/vfs.h: the interface \<open>Filesystem\<close> of
  include/filesystem.h as a record of its virtual functions, the objects of class \<open>File\<close> in a
  store (they are shared, and closed when the last reference goes), the mount table, the working
  directory, and one definition per system call. What a file system does to the world outside
  is a parameter; its functions may change \<open>errno\<close>, and may store outside a buffer.
\<close>

section \<open>System calls and errors\<close>

text \<open>\<open>Sandbox::SyscallCall\<close>, with six arguments.\<close>

record SyscallCall =
  sys_id :: u64
  args :: "u64 list"
  returnVal :: u64
  call_pid :: pid

definition arg :: "SyscallCall \<Rightarrow> nat \<Rightarrow> u64" where
  "arg c i = args c ! i"

text \<open>An argument passed as an \<open>int\<close>.\<close>

definition arg32 :: "SyscallCall \<Rightarrow> nat \<Rightarrow> u32" where
  "arg32 c i = ucast (arg c i)"

definition ENOENT :: u32 where
  "ENOENT = 2"

definition EBADF :: u32 where
  "EBADF = 9"

text \<open>A negated \<open>int\<close> stored in the 64-bit return value.\<close>

definition neg :: "u32 \<Rightarrow> u64" where
  "neg e = scast (- e)"

section \<open>File systems\<close>

text \<open>
  A function of a file system gets \<open>errno\<close> and the world and returns them with its result. A
  buffer argument is passed by its contents, of its full size, and returned as it is afterwards.
\<close>

type_synonym 'w os = "u32 \<times> 'w"

record 'w filesystem =
  fs_open :: "byte list \<Rightarrow> u32 \<Rightarrow> u32 \<Rightarrow> 'w os \<Rightarrow> (u32 \<times> 'w os) outcome"
  fs_read :: "u32 \<Rightarrow> byte list \<Rightarrow> 'w os \<Rightarrow> ((u64 \<times> byte list) \<times> 'w os) outcome"
  fs_close :: "u32 \<Rightarrow> 'w os \<Rightarrow> (u32 \<times> 'w os) outcome"
  fs_fstat :: "u32 \<Rightarrow> byte list \<Rightarrow> 'w os \<Rightarrow> ((u32 \<times> byte list) \<times> 'w os) outcome"
  fs_getdents :: "u32 \<Rightarrow> byte list \<Rightarrow> u32 \<Rightarrow> 'w os \<Rightarrow> ((u32 \<times> byte list) \<times> 'w os) outcome"
  fs_lseek :: "u32 \<Rightarrow> u64 \<Rightarrow> u32 \<Rightarrow> 'w os \<Rightarrow> (u64 \<times> 'w os) outcome"
  fs_write :: "u32 \<Rightarrow> byte list \<Rightarrow> 'w os \<Rightarrow> (u64 \<times> 'w os) outcome"
  fs_access :: "byte list \<Rightarrow> u32 \<Rightarrow> 'w os \<Rightarrow> (u32 \<times> 'w os) outcome"
  fs_stat :: "byte list \<Rightarrow> byte list \<Rightarrow> 'w os \<Rightarrow> ((u32 \<times> byte list) \<times> 'w os) outcome"
  fs_lstat :: "byte list \<Rightarrow> byte list \<Rightarrow> 'w os \<Rightarrow> ((u32 \<times> byte list) \<times> 'w os) outcome"
  fs_readlink :: "byte list \<Rightarrow> byte list \<Rightarrow> 'w os \<Rightarrow> ((u64 \<times> byte list) \<times> 'w os) outcome"

section \<open>The state\<close>

record 'w File =
  m_localFD :: u32
  m_virtualFD :: u32
  m_path :: "byte list"
  m_fs :: "'w filesystem"

text \<open>A \<open>File::Ptr\<close>: null, or the number of a \<open>File\<close> in the order they were made.\<close>

type_synonym file_ptr = "nat option"

text \<open>
  \<open>openFiles\<close> and \<open>mounts\<close> are the maps \<open>m_openFiles\<close> and \<open>m_mountpoints\<close>, the latter in the
  order of its keys; \<open>nextFD\<close> is \<open>File::s_nextFD\<close>. \<open>stat_junk\<close> is what the uninitialised
  \<open>struct stat\<close> of a call holds, of 144 bytes.
\<close>

record 'w vfs =
  sbox :: sandbox
  world :: 'w
  files :: "'w File list"
  openFiles :: "u32 \<Rightarrow> file_ptr option"
  cwd :: file_ptr
  mounts :: "(byte list \<times> 'w filesystem option) list"
  nextFD :: u32
  stat_junk :: "byte list"

definition firstVirtualFD :: u32 where
  "firstVirtualFD = 4096"

definition isVirtualFD :: "u32 \<Rightarrow> bool" where
  "isVirtualFD fd \<longleftrightarrow> firstVirtualFD \<le>s fd"

definition whitelist :: "byte list list" where
  "whitelist = map ascii
    [''/lib64/tls/x86_64/libc.so.6'', ''/lib64/tls/x86_64/libdl.so.2'', ''/lib64/tls/x86_64/librt.so.1'',
     ''/lib64/tls/x86_64/libpthread.so.0'', ''/lib64/tls/libc.so.6'', ''/lib64/tls/libdl.so.2'',
     ''/lib64/tls/librt.so.1'', ''/lib64/tls/libstdc++.so.6'', ''/lib64/tls/libm.so.6'',
     ''/lib64/tls/libgcc_s.so.1'', ''/lib64/tls/libpthread.so.0'', ''/lib64/x86_64/libc.so.6'',
     ''/lib64/x86_64/libdl.so.2'', ''/lib64/x86_64/librt.so.1'', ''/lib64/libc.so.6'',
     ''/lib64/libdl.so.2'', ''/lib64/librt.so.1'', ''/lib64/libgcc_s.so.1'', ''/lib64/libpthread.so.0'',
     ''/lib64/libstdc++.so.6'', ''/lib64/libm.so.6'', ''/etc/ld.so.cache'', ''/etc/ld.so.preload'',
     ''/proc/self/exe'']"

definition isWhitelisted :: "byte list \<Rightarrow> bool" where
  "isWhitelisted str \<longleftrightarrow> list_ex (\<lambda>w. str = w) whitelist"

text \<open>A new VFS of a sandbox; the descriptor counter is static and starts at its first value.\<close>

definition mk_vfs :: "sandbox \<Rightarrow> 'w \<Rightarrow> byte list \<Rightarrow> 'w vfs" where
  "mk_vfs b w junk = \<lparr>sbox = b, world = w, files = [], openFiles = \<lambda>_. None, cwd = None, mounts = [],
     nextFD = firstVirtualFD, stat_junk = junk\<rparr>"

section \<open>Calling out\<close>

definition in_world :: "('w os \<Rightarrow> ('r \<times> 'w os) outcome) \<Rightarrow> 'w vfs \<Rightarrow> ('r \<times> 'w vfs) outcome" where
  "in_world f s = bindO (f (errno (sbox s), world s)) (\<lambda>(r, e, w).
     Ret (r, s\<lparr>sbox := (sbox s)\<lparr>errno := e\<rparr>, world := w\<rparr>))"

definition write_child :: "SyscallCall \<Rightarrow> u64 \<Rightarrow> nat \<Rightarrow> byte list \<Rightarrow> 'w vfs \<Rightarrow> 'w vfs outcome" where
  "write_child c addr n buf s = bindO (writeData (sbox s) (call_pid c) addr n buf) (\<lambda>(_, b). Ret (s\<lparr>sbox := b\<rparr>))"

text \<open>\<open>std::vector<char> buf (n)\<close>: zeroes, or an exception when \<open>n\<close> exceeds \<open>max_size ()\<close>.\<close>

definition char_vector :: "u64 \<Rightarrow> byte list outcome" where
  "char_vector n = (if unat n < 2 ^ 63 then Ret (replicate (unat n) 0) else Fault Cxx_exception)"

definition getFilename :: "pid \<Rightarrow> u64 \<Rightarrow> 'w vfs \<Rightarrow> (byte list \<times> 'w vfs) outcome" where
  "getFilename p addr s =
     bindO (copyString (sbox s) p addr 1024 (replicate 1024 0)) (\<lambda>(_, buf, b).
     bindO (string_of_buf buf) (\<lambda>str. Ret (str, s\<lparr>sbox := b\<rparr>)))"

section \<open>Files\<close>

definition file_close :: "nat \<Rightarrow> 'w vfs \<Rightarrow> (u32 \<times> 'w vfs) outcome" where
  "file_close a s =
     (let f = files s ! a in
      if 0 <s m_localFD f then
        bindO (in_world (fs_close (m_fs f) (m_localFD f)) s) (\<lambda>(ret, s).
        Ret (ret, s\<lparr>files := (files s)[a := f\<lparr>m_localFD := -1\<rparr>]\<rparr>))
      else Ret (- EBADF, s))"

definition file_read :: "nat \<Rightarrow> byte list \<Rightarrow> 'w vfs \<Rightarrow> ((u64 \<times> byte list) \<times> 'w vfs) outcome" where
  "file_read a buf s = (let f = files s ! a in in_world (fs_read (m_fs f) (m_localFD f) buf) s)"

definition file_fstat :: "nat \<Rightarrow> byte list \<Rightarrow> 'w vfs \<Rightarrow> ((u32 \<times> byte list) \<times> 'w vfs) outcome" where
  "file_fstat a buf s = (let f = files s ! a in in_world (fs_fstat (m_fs f) (m_localFD f) buf) s)"

definition file_getdents :: "nat \<Rightarrow> byte list \<Rightarrow> u32 \<Rightarrow> 'w vfs \<Rightarrow> ((u32 \<times> byte list) \<times> 'w vfs) outcome" where
  "file_getdents a buf count s = (let f = files s ! a in in_world (fs_getdents (m_fs f) (m_localFD f) buf count) s)"

definition file_lseek :: "nat \<Rightarrow> u64 \<Rightarrow> u32 \<Rightarrow> 'w vfs \<Rightarrow> (u64 \<times> 'w vfs) outcome" where
  "file_lseek a offset whence s = (let f = files s ! a in in_world (fs_lseek (m_fs f) (m_localFD f) offset whence) s)"

definition file_write :: "nat \<Rightarrow> byte list \<Rightarrow> 'w vfs \<Rightarrow> (u64 \<times> 'w vfs) outcome" where
  "file_write a buf s = (let f = files s ! a in in_world (fs_write (m_fs f) (m_localFD f) buf) s)"

text \<open>\<open>new File (...)\<close>; the counter wraps at the width of \<open>int\<close>.\<close>

definition new_file :: "u32 \<Rightarrow> byte list \<Rightarrow> 'w filesystem \<Rightarrow> 'w vfs \<Rightarrow> nat \<times> 'w vfs" where
  "new_file fd path fs s =
     (length (files s),
      s\<lparr>files := files s @ [\<lparr>m_localFD = fd, m_virtualFD = nextFD s, m_path = path, m_fs = fs\<rparr>],
        nextFD := nextFD s + 1\<rparr>)"

text \<open>A reference to a file goes: \<open>File::~File\<close> closes it when it was the last.\<close>

definition referenced :: "'w vfs \<Rightarrow> nat \<Rightarrow> bool" where
  "referenced s a \<longleftrightarrow> openFiles s (m_virtualFD (files s ! a)) = Some (Some a) \<or> cwd s = Some a"

definition drop_ref :: "file_ptr \<Rightarrow> 'w vfs \<Rightarrow> 'w vfs outcome" where
  "drop_ref p s =
     (case p of None \<Rightarrow> Ret s
      | Some a \<Rightarrow> if referenced s a then Ret s else bindO (file_close a s) (\<lambda>(_, s). Ret s))"

text \<open>\<open>std::map::insert\<close> keeps an entry that is there.\<close>

definition makeFile :: "u32 \<Rightarrow> byte list \<Rightarrow> 'w filesystem \<Rightarrow> 'w vfs \<Rightarrow> nat \<times> 'w vfs" where
  "makeFile fd path fs s =
     (let (a, s) = new_file fd path fs s; v = m_virtualFD (files s ! a) in
      (a, if openFiles s v = None then s\<lparr>openFiles := (openFiles s)(v \<mapsto> Some a)\<rparr> else s))"

text \<open>\<open>m_openFiles.at (fd)\<close> throws when there is no such descriptor.\<close>

definition getFile :: "'w vfs \<Rightarrow> u32 \<Rightarrow> file_ptr outcome" where
  "getFile s fd =
     bindO (assertO (isVirtualFD fd)) (\<lambda>_.
     case openFiles s fd of None \<Rightarrow> Fault Cxx_exception | Some p \<Rightarrow> Ret p)"

section \<open>Mounts and paths\<close>

fun map_insert :: "'k :: linorder \<Rightarrow> 'v \<Rightarrow> ('k \<times> 'v) list \<Rightarrow> ('k \<times> 'v) list" where
  "map_insert k v [] = [(k, v)]"
| "map_insert k v ((k', v') # ms) =
     (if k' < k then (k', v') # map_insert k v ms
      else if k' = k then (k', v') # ms
      else (k, v) # (k', v') # ms)"

definition mountFilesystem :: "byte list \<Rightarrow> 'w filesystem option \<Rightarrow> 'w vfs \<Rightarrow> 'w vfs" where
  "mountFilesystem path fs s = s\<lparr>mounts := map_insert path fs (mounts s)\<rparr>"

text \<open>\<open>substr (i->first.size () - 1)\<close> throws for the empty key, whose size minus one wraps.\<close>

fun find_mount :: "byte list \<Rightarrow> (byte list \<times> 'f option) list \<Rightarrow> (byte list \<times> 'f option) outcome" where
  "find_mount searchPath [] = Ret ([], None)"
| "find_mount searchPath ((key, fs) # ms) =
     (if take (length key) searchPath = key then
        if key = [] then Fault Cxx_exception else Ret (drop (length key - 1) searchPath, fs)
      else find_mount searchPath ms)"

text \<open>The path of the file a pointer refers to; a null pointer is dereferenced.\<close>

definition path_of :: "'w vfs \<Rightarrow> file_ptr \<Rightarrow> byte list outcome" where
  "path_of s p = (case p of None \<Rightarrow> Fault Null_deref | Some a \<Rightarrow> Ret (m_path (files s ! a)))"

text \<open>The first character of a string; that of the empty string is NUL.\<close>

definition first_char :: "byte list \<Rightarrow> byte" where
  "first_char str = (case str of [] \<Rightarrow> 0 | c # _ \<Rightarrow> c)"

definition getFilesystem :: "'w vfs \<Rightarrow> byte list \<Rightarrow> (byte list \<times> 'w filesystem option) outcome" where
  "getFilesystem s path =
     bindO (if first_char path = 0x2E then bindO (path_of s (cwd s)) (\<lambda>d. Ret (d @ path)) else Ret path)
       (\<lambda>searchPath. find_mount searchPath (mounts s))"

definition getCWD :: "'w vfs \<Rightarrow> byte list outcome" where
  "getCWD s = bindO (assertO (cwd s \<noteq> None)) (\<lambda>_. path_of s (cwd s))"

text \<open>Of \<open>trimmedFname[fname.length () - 1]\<close> with the empty name the index is out of bounds.\<close>

definition O_DIRECTORY :: u32 where
  "O_DIRECTORY = 0x10000"

definition setCWD :: "byte list \<Rightarrow> 'w vfs \<Rightarrow> (u32 \<times> 'w vfs) outcome" where
  "setCWD fname s =
     (if fname = [] then Fault Read_OOB
      else
        let trimmedFname = (if last fname = 0x2F then butlast fname else fname) in
        bindO (getFilesystem s trimmedFname) (\<lambda>(path, fs).
        case fs of
          None \<Rightarrow> Ret (- ENOENT, s)
        | Some f \<Rightarrow>
            bindO (in_world (fs_open f path O_DIRECTORY 0) s) (\<lambda>(fd, s).
            let (a, s) = new_file fd trimmedFname f s; old = cwd s in
            bindO (drop_ref old (s\<lparr>cwd := Some a\<rparr>)) (\<lambda>s. Ret (0, s)))))"

section \<open>System calls\<close>

type_synonym 'w handler = "SyscallCall \<Rightarrow> 'w vfs \<Rightarrow> (SyscallCall \<times> 'w vfs) outcome"

abbreviation done_with :: "SyscallCall \<Rightarrow> u64 \<Rightarrow> 'w vfs \<Rightarrow> (SyscallCall \<times> 'w vfs) outcome" where
  "done_with c r s \<equiv> Ret (c\<lparr>returnVal := r\<rparr>, s)"

definition openFile :: "SyscallCall \<Rightarrow> byte list \<Rightarrow> u32 \<Rightarrow> u32 \<Rightarrow> 'w vfs \<Rightarrow> (SyscallCall \<times> 'w vfs) outcome" where
  "openFile c fname flags mode s =
     (if \<not> isWhitelisted fname then
        let c = c\<lparr>sys_id := -1\<rparr> in
        bindO (getFilesystem s fname) (\<lambda>(path, fs).
        case fs of
          None \<Rightarrow> done_with c (neg ENOENT) s
        | Some f \<Rightarrow>
            bindO (in_world (fs_open f path flags mode) s) (\<lambda>(fd, s).
            if fd \<noteq> 0 then
              let (a, s) = makeFile fd fname f s; v = m_virtualFD (files s ! a) in
              bindO (drop_ref (Some a) s) (\<lambda>s. done_with c (scast v) s)
            else done_with c (neg (errno (sbox s))) s))
      else Ret (c, s))"

definition do_open :: "'w handler" where
  "do_open c s = bindO (getFilename (call_pid c) (arg c 0) s) (\<lambda>(fname, s).
     openFile c fname (arg32 c 1) (arg32 c 2) s)"

text \<open>\<open>AT_FDCWD\<close> is -100, compared as an unsigned long.\<close>

definition AT_FDCWD :: u64 where
  "AT_FDCWD = -100"

definition do_openat :: "'w handler" where
  "do_openat c s = bindO (getFilename (call_pid c) (arg c 1) s) (\<lambda>(fname, s).
     bindO (if first_char fname \<noteq> 0x2F then
              bindO (if arg c 0 = AT_FDCWD then path_of s (cwd s)
                     else if isVirtualFD (arg32 c 0) then bindO (getFile s (arg32 c 0)) (path_of s)
                     else Ret []) (\<lambda>fdPath. Ret (fdPath @ fname))
            else Ret fname) (\<lambda>fname.
     openFile c fname (arg32 c 2) (arg32 c 3) s))"

definition do_access :: "'w handler" where
  "do_access c s = bindO (getFilename (call_pid c) (arg c 0) s) (\<lambda>(fname, s).
     if \<not> isWhitelisted fname then
       let c = c\<lparr>sys_id := -1\<rparr> in
       bindO (getFilesystem s fname) (\<lambda>(path, fs).
       case fs of
         None \<Rightarrow> done_with c (neg ENOENT) s
       | Some f \<Rightarrow> bindO (in_world (fs_access f path (arg32 c 1)) s) (\<lambda>(r, s). done_with c (scast r) s))
     else Ret (c, s))"

definition do_readlink :: "'w handler" where
  "do_readlink c s = bindO (getFilename (call_pid c) (arg c 0) s) (\<lambda>(fname, s).
     if \<not> isWhitelisted fname then
       let c = c\<lparr>sys_id := -1\<rparr> in
       bindO (getFilesystem s fname) (\<lambda>(path, fs).
       case fs of
         None \<Rightarrow> done_with c (neg ENOENT) s
       | Some f \<Rightarrow>
           bindO (char_vector (arg c 2)) (\<lambda>buf.
           bindO (in_world (fs_readlink f path buf) s) (\<lambda>((n, buf), s).
           bindO (write_child c (arg c 1) (min (length buf) (unat n)) buf s) (\<lambda>s. done_with c n s))))
     else Ret (c, s))"

text \<open>\<open>do_stat\<close> and \<open>do_lstat\<close> hand the file system the child's path, not the path below the mount.\<close>

definition stat_path ::
  "('w filesystem \<Rightarrow> byte list \<Rightarrow> byte list \<Rightarrow> 'w os \<Rightarrow> ((u32 \<times> byte list) \<times> 'w os) outcome) \<Rightarrow> 'w handler" where
  "stat_path op c s = bindO (getFilename (call_pid c) (arg c 0) s) (\<lambda>(fname, s).
     if \<not> isWhitelisted fname then
       let c = c\<lparr>sys_id := -1\<rparr> in
       bindO (getFilesystem s fname) (\<lambda>(path, fs).
       case fs of
         None \<Rightarrow> done_with c (neg ENOENT) s
       | Some f \<Rightarrow>
           bindO (in_world (op f fname (stat_junk s)) s) (\<lambda>((r, sbuf), s).
           if r = 0 then bindO (write_child c (arg c 1) 144 sbuf s) (\<lambda>s. done_with c (scast r) s)
           else done_with c (scast r) s))
     else Ret (c, s))"

definition do_stat :: "'w handler" where
  "do_stat = stat_path fs_stat"

definition do_lstat :: "'w handler" where
  "do_lstat = stat_path fs_lstat"

definition do_close :: "'w handler" where
  "do_close c s =
     (if isVirtualFD (arg32 c 0) then
        let c = c\<lparr>sys_id := -1\<rparr> in
        bindO (getFile s (arg32 c 0)) (\<lambda>p.
        case p of
          None \<Rightarrow> done_with c (neg EBADF) s
        | Some a \<Rightarrow>
            bindO (file_close a s) (\<lambda>(r, s).
            let s = s\<lparr>openFiles := (openFiles s)(m_virtualFD (files s ! a) := None)\<rparr> in
            bindO (drop_ref (Some a) s) (\<lambda>s. done_with c (scast r) s)))
      else Ret (c, s))"

definition do_read :: "'w handler" where
  "do_read c s =
     (if isVirtualFD (arg32 c 0) then
        let c = c\<lparr>sys_id := -1\<rparr> in
        bindO (getFile s (arg32 c 0)) (\<lambda>p.
        bindO (char_vector (arg c 2)) (\<lambda>buf.
        case p of
          None \<Rightarrow> done_with c (neg EBADF) s
        | Some a \<Rightarrow>
            bindO (file_read a buf s) (\<lambda>((readCount, buf), s).
            if 0 \<le>s readCount then
              bindO (write_child c (arg c 1) (unat readCount) buf s) (\<lambda>s. done_with c readCount s)
            else done_with c (neg (errno (sbox s))) s)))
      else Ret (c, s))"

definition do_fstat :: "'w handler" where
  "do_fstat c s =
     (if isVirtualFD (arg32 c 0) then
        bindO (getFile s (arg32 c 0)) (\<lambda>p.
        let c = c\<lparr>sys_id := -1\<rparr> in
        case p of
          None \<Rightarrow> done_with c (neg EBADF) s
        | Some a \<Rightarrow>
            bindO (file_fstat a (stat_junk s) s) (\<lambda>((r, sbuf), s).
            if r = 0 then bindO (write_child c (arg c 1) 144 sbuf s) (\<lambda>s. done_with c (scast r) s)
            else done_with c (scast r) s))
      else Ret (c, s))"

definition do_write :: "'w handler" where
  "do_write c s =
     (if isVirtualFD (arg32 c 0) then
        bindO (getFile s (arg32 c 0)) (\<lambda>p.
        let c = c\<lparr>sys_id := -1\<rparr> in
        case p of
          None \<Rightarrow> Ret (c, s)
        | Some a \<Rightarrow>
            bindO (char_vector (arg c 2)) (\<lambda>buf.
            bindO (copyData (sbox s) (call_pid c) (arg c 1) (length buf) buf) (\<lambda>(_, buf, b).
            bindO (file_write a buf (s\<lparr>sbox := b\<rparr>)) (\<lambda>(r, s). done_with c r s))))
      else Ret (c, s))"

definition do_getdents :: "'w handler" where
  "do_getdents c s =
     (if isVirtualFD (arg32 c 0) then
        bindO (getFile s (arg32 c 0)) (\<lambda>p.
        let c = c\<lparr>sys_id := -1\<rparr> in
        case p of
          None \<Rightarrow> done_with c (neg EBADF) s
        | Some a \<Rightarrow>
            bindO (char_vector (arg c 2)) (\<lambda>buf.
            bindO (file_getdents a buf (of_nat (length buf)) s) (\<lambda>((r, buf), s).
            if 0 <s r then bindO (write_child c (arg c 1) (unat (scast r :: u64)) buf s) (\<lambda>s. done_with c (scast r) s)
            else done_with c (scast r) s)))
      else Ret (c, s))"

definition do_lseek :: "'w handler" where
  "do_lseek c s =
     (if isVirtualFD (arg32 c 0) then
        let c = c\<lparr>sys_id := -1\<rparr> in
        bindO (getFile s (arg32 c 0)) (\<lambda>p.
        case p of
          None \<Rightarrow> done_with c (neg EBADF) s
        | Some a \<Rightarrow> bindO (file_lseek a (arg c 1) (arg32 c 2) s) (\<lambda>(r, s). done_with c r s))
      else Ret (c, s))"

definition do_fchdir :: "'w handler" where
  "do_fchdir c s =
     bindO (getFile s (arg32 c 0)) (\<lambda>p.
     case p of
       None \<Rightarrow> done_with c (neg EBADF) s
     | Some a \<Rightarrow> bindO (drop_ref (cwd s) (s\<lparr>cwd := Some a\<rparr>)) (\<lambda>s. done_with c 0 s))"

definition do_chdir :: "'w handler" where
  "do_chdir c s = bindO (getFilename (call_pid c) (arg c 0) s) (\<lambda>(fname, s).
     bindO (setCWD fname s) (\<lambda>(r, s). done_with c (scast r) s))"

definition do_getcwd :: "'w handler" where
  "do_getcwd c s = bindO (getCWD s) (\<lambda>d.
     bindO (write_child c (arg c 0) (min (unat (arg c 1)) (length d)) (d @ [0]) s) (\<lambda>s.
     done_with c (of_nat (length d)) s))"

text \<open>The numbers of the system calls are those of x86-64. \<open>do_fchdir\<close> is not in the switch.\<close>

definition handleSyscall :: "'w handler" where
  "handleSyscall c s =
     (if sys_id c = 2 then do_open c s
      else if sys_id c = 3 then do_close c s
      else if sys_id c = 0 then do_read c s
      else if sys_id c = 5 then do_fstat c s
      else if sys_id c = 78 then do_getdents c s
      else if sys_id c = 257 then do_openat c s
      else if sys_id c = 8 then do_lseek c s
      else if sys_id c = 1 then do_write c s
      else if sys_id c = 21 then do_access c s
      else if sys_id c = 80 then do_chdir c s
      else if sys_id c = 4 then do_stat c s
      else if sys_id c = 6 then do_lstat c s
      else if sys_id c = 79 then do_getcwd c s
      else if sys_id c = 89 then do_readlink c s
      else Ret (c, s))"

end
