(* ===== verification/Dirent.thy ===== *)
theory Dirent
  imports ChildMemory
begin

text \<open>
  The builder of directory listings of src/dirent-builder.cpp: a listing is a byte buffer of
  \<open>linux_dirent\<close> records, each padded to a multiple of eight bytes and its length kept in a
  16-bit field. The record length is computed by a loop on \<open>unsigned short\<close>s, which may not end.
\<close>

section \<open>The builder\<close>

datatype DirentType = Unknown | FIFO | Character | Directory | Block | Regular | Link | Socket

fun type_code :: "DirentType \<Rightarrow> byte" where
  "type_code Unknown = 0"
| "type_code FIFO = 1"
| "type_code Character = 2"
| "type_code Directory = 4"
| "type_code Block = 6"
| "type_code Regular = 8"
| "type_code Link = 10"
| "type_code Socket = 12"

record DirentBuilder =
  m_buf :: "byte list"
  m_idx :: u32
  m_inode :: u32

definition mk_builder :: "u32 \<Rightarrow> DirentBuilder" where
  "mk_builder startIdx = \<lparr>m_buf = [], m_idx = startIdx, m_inode = 256\<rparr>"

text \<open>\<open>while (reclen < min_reclen) reclen += 8;\<close> on 16 bits: \<open>None\<close> when it does not end.\<close>

partial_function (option) grow_reclen :: "u16 \<Rightarrow> u16 \<Rightarrow> u16 option" where
  "grow_reclen min_reclen reclen =
     (if reclen < min_reclen then grow_reclen min_reclen (reclen + 8) else Some reclen)"

text \<open>The sizes of \<open>d_ino\<close>, \<open>d_off\<close> and \<open>d_reclen\<close> are 8, 8 and 2; the name starts at offset 18.\<close>

definition min_reclen_of :: "byte list \<Rightarrow> u16" where
  "min_reclen_of name = of_nat (8 + 8 + 2 + length name + 2)"

definition append_dirent :: "byte list \<Rightarrow> DirentType \<Rightarrow> DirentBuilder \<Rightarrow> DirentBuilder outcome" where
  "append_dirent name type b =
     (let min_reclen = min_reclen_of name in
      case grow_reclen min_reclen 24 of
        None \<Rightarrow> Fault Diverges
      | Some reclen \<Rightarrow>
          let start = length (m_buf b);
              buf = m_buf b @ replicate (unat reclen) 0 in
          bindO (store_at buf start (to_le 8 (scast (m_inode b)))) (\<lambda>buf.
          bindO (store_at buf (start + 8) (to_le 8 (scast (m_idx b)))) (\<lambda>buf.
          bindO (store_at buf (start + 16) (to_le 2 (ucast reclen))) (\<lambda>buf.
          bindO (store_at buf (start + 18) name) (\<lambda>buf.
          bindO (store_at buf (start + unat min_reclen - 2) [0]) (\<lambda>buf.
          bindO (store_at buf (start + unat reclen - 1) [type_code type]) (\<lambda>buf.
          Ret (b\<lparr>m_buf := buf, m_inode := m_inode b + 1, m_idx := m_idx b + 1\<rparr>))))))))"

fun append_all :: "(byte list \<times> DirentType) list \<Rightarrow> DirentBuilder \<Rightarrow> DirentBuilder outcome" where
  "append_all [] b = Ret b"
| "append_all ((name, type) # es) b = bindO (append_dirent name type b) (append_all es)"

section \<open>The record length\<close>

lemma unat_u16: "n < 65536 \<Longrightarrow> unat (of_nat n :: u16) = n"
  by (simp add: unat_of_nat take_bit_nat_eq_self)

lemma unat_u16_mod: "unat (of_nat n :: u16) = n mod 65536"
  by (simp add: unat_of_nat take_bit_eq_mod)

lemma unat_min_reclen: "unat (min_reclen_of name) = (length name + 20) mod 65536"
proof -
  have "8 + 8 + 2 + length name + 2 = length name + 20" by simp
  then show ?thesis unfolding min_reclen_of_def by (simp only: unat_u16_mod)
qed

lemma grow_reclen_end: "\<not> r < m \<Longrightarrow> grow_reclen m r = Some r"
  by (subst grow_reclen.simps) simp

lemma grow_reclen_step: "r < m \<Longrightarrow> grow_reclen m r = grow_reclen m (r + 8)"
  by (subst grow_reclen.simps) simp

definition padded :: "nat \<Rightarrow> nat" where
  "padded m = max 24 (8 * ((m + 7) div 8))"

lemma grow_reclen_result:
  assumes "unat m \<le> 65528" "8 * k \<le> padded (unat m)" "3 \<le> k"
  shows "grow_reclen m (of_nat (8 * k)) = Some (of_nat (padded (unat m)))"
  using assms(2,3)
proof (induction "padded (unat m) - 8 * k" arbitrary: k rule: less_induct)
  case less
  define q where "q = (unat m + 7) div 8"
  have q: "unat m \<le> 8 * q" "8 * q < unat m + 8" by (auto simp: q_def)
  have p: "padded (unat m) = max 24 (8 * q)" by (simp add: padded_def q_def)
  with q assms(1) less.prems have small: "8 * k < 65536" "q \<le> 8191" by auto
  then have r: "unat (of_nat (8 * k) :: u16) = 8 * k"
    by (simp add: unat_of_nat take_bit_nat_eq_self del: of_nat_mult)
  show ?case
  proof (cases "8 * k < unat m")
    case True
    then have "k < q" using q by simp
    then have "8 * Suc k \<le> padded (unat m)" using p by simp
    with less.hyps [of "Suc k"] less.prems
    have "grow_reclen m (of_nat (8 * Suc k)) = Some (of_nat (padded (unat m)))" by auto
    moreover have "of_nat (8 * k) < m" using True r by (simp add: word_less_nat_alt del: of_nat_mult)
    moreover have "of_nat (8 * Suc k) = (of_nat (8 * k) + 8 :: u16)" by simp
    ultimately show ?thesis using grow_reclen_step by metis
  next
    case False
    then have "q \<le> k" using q by simp
    then have "8 * k = padded (unat m)" using p less.prems by (auto simp: max_def split: if_splits)
    moreover have "\<not> of_nat (8 * k) < m" using False r by (simp add: word_less_nat_alt del: of_nat_mult)
    ultimately show ?thesis using grow_reclen_end by metis
  qed
qed

text \<open>No multiple of eight reaches a length past 65528 in 16 bits: the loop goes round.\<close>

lemma grow_reclen_aligned:
  assumes "grow_reclen m r = Some y"
  shows "unat r mod 8 = 0 \<longrightarrow> \<not> y < m \<and> unat y mod 8 = 0"
proof (rule grow_reclen.raw_induct [where P = "\<lambda>m r y. unat r mod 8 = 0 \<longrightarrow> \<not> y < m \<and> unat y mod 8 = 0"])
  fix f :: "u16 \<Rightarrow> u16 \<Rightarrow> u16 option" and m r y :: u16
  assume IH: "\<And>m r y. f m r = Some y \<Longrightarrow> unat r mod 8 = 0 \<longrightarrow> \<not> y < m \<and> unat y mod 8 = 0"
    and step: "(if r < m then f m (r + 8) else Some r) = Some y"
  have "unat (r + 8) mod 8 = unat r mod 8"
    by (simp add: unat_word_ariths mod_mod_cancel)
  with IH [of m "r + 8" y] step show "unat r mod 8 = 0 \<longrightarrow> \<not> y < m \<and> unat y mod 8 = 0"
    by (cases "r < m") auto
qed (rule assms)

lemma grow_reclen_diverges:
  assumes "65528 < unat m"
  shows "grow_reclen m 24 = None"
proof (rule ccontr)
  assume "grow_reclen m 24 \<noteq> None"
  then obtain y where "grow_reclen m 24 = Some y" by auto
  from grow_reclen_aligned [OF this] have "unat m \<le> unat y" "unat y mod 8 = 0"
    by (simp_all add: word_less_nat_alt not_less)
  moreover have "unat y < 65536" using unsigned_less [of y, where ?'a = nat] by simp
  ultimately show False using assms by auto
qed

section \<open>What a record is\<close>

text \<open>The bytes of one record as \<open>getdents\<close> lays them out.\<close>

definition reclen_for :: "byte list \<Rightarrow> nat" where
  "reclen_for name = padded (length name + 20)"

definition dirent_bytes :: "u64 \<Rightarrow> u64 \<Rightarrow> byte list \<Rightarrow> byte \<Rightarrow> byte list" where
  "dirent_bytes ino off name ty =
     to_le 8 ino @ to_le 8 off @ to_le 2 (of_nat (reclen_for name)) @ name @
     replicate (reclen_for name - length name - 19) 0 @ [ty]"

text \<open>Reading one record off a listing, the way a caller of \<open>getdents\<close> walks it.\<close>

definition read_dirent :: "byte list \<Rightarrow> ((u64 \<times> u64 \<times> byte list \<times> byte) \<times> byte list) option" where
  "read_dirent s =
     (let n = unat (of_le (take 2 (drop 16 s))) in
      if length s < 19 \<or> n < 19 \<or> length s < n then None
      else Some ((of_le (take 8 s), of_le (take 8 (drop 8 s)), c_str (drop 18 (take n s)), s ! (n - 1)), drop n s))"

lemma reclen_for_bounds:
  "length name + 20 \<le> reclen_for name" "24 \<le> reclen_for name"
  "length name \<le> 65508 \<Longrightarrow> reclen_for name \<le> 65528"
  by (auto simp: reclen_for_def padded_def)

lemma dirent_bytes_length [simp]: "length (dirent_bytes ino off name ty) = reclen_for name"
  using reclen_for_bounds [of name] by (simp add: dirent_bytes_def)

lemma of_to_le_2: "n < 65536 \<Longrightarrow> of_le (to_le 2 (of_nat n)) = of_nat n"
  using of_to_le [of 2 "of_nat n"] by (simp add: take_bit_of_nat take_bit_nat_eq_self flip: of_nat_take_bit)

lemma read_dirent_bytes:
  assumes "length name \<le> 65508" "0 \<notin> set name"
  shows "read_dirent (dirent_bytes ino off name ty @ t) = Some ((ino, off, name, ty), t)"
proof -
  define n where "n = reclen_for name"
  note b = reclen_for_bounds [of name, folded n_def]
  from b(3) assms(1) have n: "n \<le> 65528" by simp
  obtain k where k: "n - (length name + 19) = Suc k" using b(1) by (cases "n - (length name + 19)") auto
  let ?r = "dirent_bytes ino off name ty"
  have r: "?r = to_le 8 ino @ to_le 8 off @ to_le 2 (of_nat n) @ name @ 0 # replicate k 0 @ [ty]"
    by (simp add: dirent_bytes_def n_def [symmetric] k)
  have l: "length ?r = n" by (simp add: n_def)
  have "unat (of_le (take 2 (drop 16 (?r @ t)))) = n"
    using of_to_le_2 [of n] n by (simp add: r unat_of_nat take_bit_nat_eq_self)
  moreover have "of_le (take 8 (?r @ t)) = ino" "of_le (take 8 (drop 8 (?r @ t))) = off" by (simp_all add: r)
  moreover have "c_str (drop 18 ?r) = name" using c_str_append [OF assms(2)] by (simp add: r)
  moreover have "(?r @ t) ! (n - 1) = ty"
  proof -
    have "last ?r = ty" by (simp add: r)
    moreover have "?r \<noteq> []" by (simp add: dirent_bytes_def)
    then have "last ?r = ?r ! (n - 1)" using l last_conv_nth [of ?r] by simp
    ultimately show ?thesis using l b(2) by (simp add: nth_append)
  qed
  ultimately show ?thesis using l b(2) by (simp add: read_dirent_def Let_def)
qed

interpretation dirent: prefix_codec "\<lambda>(ino, off, name, ty). dirent_bytes ino off name ty" read_dirent
  "\<lambda>(ino, off, name, ty). length name \<le> 65508 \<and> 0 \<notin> set name"
proof
  show "(case x of (ino, off, name, ty) \<Rightarrow> dirent_bytes ino off name ty) \<noteq> []" for x
    using reclen_for_bounds(2) by (auto simp: dirent_bytes_def split: prod.split)
qed (use read_dirent_bytes in auto)

section \<open>What append does\<close>

lemma store_at_fill:
  assumes "length P = i" "length xs \<le> m"
  shows "store_at (B @ P @ replicate m 0) (length B + i) xs = Ret (B @ (P @ xs) @ replicate (m - length xs) 0)"
  using assms by (simp add: store_at_def)

definition entry_bytes :: "DirentBuilder \<Rightarrow> byte list \<Rightarrow> DirentType \<Rightarrow> byte list" where
  "entry_bytes b name type = dirent_bytes (scast (m_inode b)) (scast (m_idx b)) name (type_code type)"

lemma append_dirent_Ret:
  assumes "length name \<le> 65508"
  shows "append_dirent name type b =
    Ret (b\<lparr>m_buf := m_buf b @ entry_bytes b name type, m_inode := m_inode b + 1, m_idx := m_idx b + 1\<rparr>)"
proof -
  define l where "l = length name"
  define n where "n = reclen_for name"
  note bs = reclen_for_bounds [of name, folded n_def l_def]
  from assms have l: "l \<le> 65508" by (simp add: l_def)
  with bs(3) have n: "n \<le> 65528" by simp
  have m: "unat (min_reclen_of name) = l + 20"
    using l by (simp add: unat_min_reclen l_def)
  have "padded (l + 20) = n" by (simp add: n_def reclen_for_def l_def)
  then have p: "padded (unat (min_reclen_of name)) = n" by (simp add: m)
  then have g: "grow_reclen (min_reclen_of name) 24 = Some (of_nat n)"
    using grow_reclen_result [of "min_reclen_of name" 3] m l bs(2) unfolding p by simp
  have u: "unat (of_nat n :: u16) = n" using n by (simp add: unat_u16)
  let ?B = "m_buf b" and ?ino = "to_le 8 (scast (m_inode b))" and ?off = "to_le 8 (scast (m_idx b))"
  let ?len = "to_le 2 (of_nat n)" and ?z = "\<lambda>k. replicate k (0 :: byte)"
  have 1: "store_at (?B @ ?z n) (length ?B) ?ino = Ret (?B @ ?ino @ ?z (n - 8))"
    using store_at_fill [of "[]" 0 ?ino n ?B] bs by simp
  have 2: "store_at (?B @ ?ino @ ?z (n - 8)) (length ?B + 8) ?off = Ret (?B @ (?ino @ ?off) @ ?z (n - 16))"
    using store_at_fill [of ?ino 8 ?off "n - 8" ?B] bs by simp
  have 3: "store_at (?B @ (?ino @ ?off) @ ?z (n - 16)) (length ?B + 16) ?len = Ret (?B @ (?ino @ ?off @ ?len) @ ?z (n - 18))"
    using store_at_fill [of "?ino @ ?off" 16 ?len "n - 16" ?B] bs by simp
  have 4: "store_at (?B @ (?ino @ ?off @ ?len) @ ?z (n - 18)) (length ?B + 18) name =
      Ret (?B @ (?ino @ ?off @ ?len @ name) @ ?z (n - 18 - l))"
    using store_at_fill [of "?ino @ ?off @ ?len" 18 name "n - 18" ?B] bs by (simp add: l_def)
  have 5: "store_at (?B @ (?ino @ ?off @ ?len @ name) @ ?z (n - 18 - l)) (length ?B + (l + 18)) [0] =
      Ret (?B @ (?ino @ ?off @ ?len @ name @ [0]) @ ?z (n - 19 - l))"
    using store_at_fill [of "?ino @ ?off @ ?len @ name" "l + 18" "[0]" "n - 18 - l" ?B] bs by (simp add: l_def)
  obtain k where k: "n - 19 - l = Suc k" using bs(1) by (cases "n - 19 - l") auto
  then have n': "n = l + 20 + k" by simp
  have 6: "store_at (?B @ (?ino @ ?off @ ?len @ name @ [0]) @ ?z (Suc k)) (length ?B + (l + 19 + k)) [type_code type] =
      Ret (?B @ dirent_bytes (scast (m_inode b)) (scast (m_idx b)) name (type_code type))"
  proof -
    let ?P = "?ino @ ?off @ ?len @ name @ [0] @ ?z k"
    have A: "?B @ (?ino @ ?off @ ?len @ name @ [0]) @ ?z (Suc k) = ?B @ ?P @ ?z 1"
      by (simp add: replicate_app_Cons_same)
    have B: "?P @ [type_code type] = dirent_bytes (scast (m_inode b)) (scast (m_idx b)) name (type_code type)"
      using n' by (simp add: dirent_bytes_def n_def [symmetric] l_def [symmetric] Suc_diff_le replicate_app_Cons_same)
    have "length ?P = l + 19 + k" by (simp add: l_def)
    from store_at_fill [OF this, of "[type_code type]" 1 ?B]
    have "store_at (?B @ ?P @ ?z 1) (length ?B + (l + 19 + k)) [type_code type] = Ret (?B @ ?P @ [type_code type])" by simp
    then show ?thesis unfolding A B .
  qed
  have "length ?B + unat (min_reclen_of name) - 2 = length ?B + (l + 18)" using m by simp
  moreover have "length ?B + unat (of_nat n :: u16) - 1 = length ?B + (l + 19 + k)" using u n' by simp
  moreover have "ucast (of_nat n :: u16) = (of_nat n :: u64)" using n
    by (simp add: unsigned_of_nat take_bit_nat_eq_self)
  ultimately show ?thesis
    unfolding append_dirent_def Let_def g entry_bytes_def using 1 2 3 4 5 6 u k by simp
qed

text \<open>A longer name: the length overflows, and the loop hangs or the record is too short for the name.\<close>

lemma append_dirent_diverges:
  assumes "65508 < length name" "length name \<le> 65515"
  shows "append_dirent name type b = Fault Diverges"
proof -
  have "unat (min_reclen_of name) = length name + 20"
    using assms by (simp add: unat_min_reclen)
  then show ?thesis using grow_reclen_diverges assms(1) by (simp add: append_dirent_def)
qed

lemma append_dirent_too_long:
  assumes "65508 < length name"
  shows "append_dirent name type b \<noteq> Ret b'"
proof (cases "unat (min_reclen_of name) \<le> 65528")
  case False
  then show ?thesis using grow_reclen_diverges by (simp add: append_dirent_def)
next
  case True
  define n where "n = padded (unat (min_reclen_of name))"
  from True have n: "n \<le> 65528" by (auto simp: n_def padded_def)
  from True assms have long: "65516 \<le> length name" unfolding unat_min_reclen by (cases "length name \<le> 65515") auto
  have g: "grow_reclen (min_reclen_of name) 24 = Some (of_nat n)"
    using grow_reclen_result [of "min_reclen_of name" 3] True by (simp add: n_def padded_def)
  have "unat (of_nat n :: u16) = n" using n by (simp add: unat_u16)
  with long n show ?thesis
    unfolding append_dirent_def Let_def g by (auto simp: store_at_def bindO_Ret_iff split: if_splits)
qed

text \<open>A listing is the concatenation of its records, numbered one after the other.\<close>

fun entries_from :: "u32 \<Rightarrow> u32 \<Rightarrow> (byte list \<times> DirentType) list \<Rightarrow> (u64 \<times> u64 \<times> byte list \<times> byte) list" where
  "entries_from ino idx [] = []"
| "entries_from ino idx ((name, type) # es) = (scast ino, scast idx, name, type_code type) # entries_from (ino + 1) (idx + 1) es"

fun read_all :: "nat \<Rightarrow> byte list \<Rightarrow> (u64 \<times> u64 \<times> byte list \<times> byte) list option" where
  "read_all 0 s = (if s = [] then Some [] else None)"
| "read_all (Suc n) s =
     (case read_dirent s of None \<Rightarrow> None | Some (e, t) \<Rightarrow> map_option ((#) e) (read_all n t))"

definition name_ok :: "byte list \<Rightarrow> bool" where
  "name_ok name \<longleftrightarrow> length name \<le> 65508 \<and> 0 \<notin> set name"

lemma append_all_listing:
  "list_all (\<lambda>(name, _). name_ok name) es \<Longrightarrow>
    \<exists>b'. append_all es b = Ret b' \<and> m_buf b' = m_buf b @
      concat (map (\<lambda>(ino, off, name, ty). dirent_bytes ino off name ty) (entries_from (m_inode b) (m_idx b) es))"
proof (induction es b rule: append_all.induct)
  case (2 name type es b)
  then have n: "length name \<le> 65508" by (simp add: name_ok_def)
  from 2 append_dirent_Ret [OF n, of type b] show ?case by (simp add: entry_bytes_def)
qed simp

lemma read_all_listing:
  "list_all (\<lambda>(name, _). name_ok name) es \<Longrightarrow>
    read_all (length es) (concat (map (\<lambda>(ino, off, name, ty). dirent_bytes ino off name ty) (entries_from ino idx es)))
      = Some (entries_from ino idx es)"
proof (induction es arbitrary: ino idx)
  case (Cons e es)
  obtain name type where e: "e = (name, type)" by (cases e)
  with Cons.prems dirent.dec_enc [of "(scast ino, scast idx, name, type_code type)"]
  show ?case by (simp add: Cons.IH name_ok_def)
qed simp

section \<open>Properties\<close>

text \<open>
  C35. \<open>append\<close> adds exactly one record to the listing when the name is at most 65508 bytes
  long, and never returns on a longer one: the 16-bit record length overflows, and the padding
  loop does not end or the name is stored past the end of the buffer.
\<close>

theorem append_dirent_total:
  "append_dirent name type b = Ret b' \<longleftrightarrow> length name \<le> 65508 \<and>
    b' = b\<lparr>m_buf := m_buf b @ entry_bytes b name type, m_inode := m_inode b + 1, m_idx := m_idx b + 1\<rparr>"
  using append_dirent_Ret [of name type b] append_dirent_too_long [of name type b b']
  by (cases "length name \<le> 65508") auto

text \<open>
  C34. What a reader of the listing sees: walking the buffer record by record by \<open>d_reclen\<close>
  gives back the names, their types, and consecutive inode numbers and offsets.
\<close>

theorem listing_roundtrip:
  assumes "list_all (\<lambda>(name, _). name_ok name) es"
  shows "\<exists>b. append_all es (mk_builder i) = Ret b \<and> read_all (length es) (m_buf b) = Some (entries_from 256 i es)"
  using append_all_listing [OF assms, of "mk_builder i"] read_all_listing [OF assms] by (auto simp: mk_builder_def)

theorem listing_roundtrip_witness:
  "\<exists>b. append_all [([0x61 :: byte], Regular), ([0x62, 0x63], Directory)] (mk_builder 1) = Ret b \<and>
    read_all (length [([0x61 :: byte], Regular), ([0x62, 0x63], Directory)]) (m_buf b)
      = Some (entries_from 256 1 [([0x61], Regular), ([0x62, 0x63], Directory)])"
  by (rule listing_roundtrip) (simp add: name_ok_def)

end
