(* ===== verification/Filesystems.thy ===== *)
theory Filesystems
  imports Vfs Dirent
begin

text \<open>
  The two implementations of the \<open>Filesystem\<close> interface: \<open>NativeFilesystem\<close> of
  src/native-filesystem.cpp on the system calls of the host, and \<open>CodiusNodeFilesystem\<close> of
  src/node-filesystem.cpp on a script. The host's calls, the script and the conversions of the
  JavaScript engine are parameters.
\<close>

section \<open>The native file system\<close>

text \<open>\<open>sys\<close> are the host's system calls, which have the signatures of the interface.\<close>

definition native_open :: "byte list \<Rightarrow> 'w filesystem \<Rightarrow> byte list \<Rightarrow> u32 \<Rightarrow> u32 \<Rightarrow> 'w os \<Rightarrow> (u32 \<times> 'w os) outcome" where
  "native_open m_root sys name flags mode = fs_open sys (m_root @ [0x2F] @ name) flags mode"

definition native_filesystem :: "byte list \<Rightarrow> 'w filesystem \<Rightarrow> 'w filesystem" where
  "native_filesystem m_root sys =
     \<lparr>fs_open = native_open m_root sys,
      fs_read = \<lambda>fd buf. fs_read sys fd buf,
      fs_close = \<lambda>fd. fs_close sys fd,
      fs_fstat = \<lambda>fd buf. fs_fstat sys fd buf,
      fs_getdents = \<lambda>fd dirs count. fs_getdents sys fd dirs count,
      fs_lseek = \<lambda>fd offset whence. fs_lseek sys fd offset whence,
      fs_write = \<lambda>fd buf. fs_write sys fd buf,
      fs_access = \<lambda>name mode. fs_access sys name mode,
      fs_stat = \<lambda>name buf. fs_stat sys name buf,
      fs_lstat = \<lambda>name buf. fs_lstat sys name buf,
      fs_readlink = \<lambda>name buf. fs_readlink sys name buf\<rparr>"

section \<open>The script\<close>

text \<open>
  Values of the engine are of type \<open>'v\<close>. What the code uses of them: whether one is an object,
  conversion to a 32-bit integer, the UTF-8 bytes of its string, a property, the elements of an
  array, what \<open>WriteUtf8\<close> stores in a buffer of some size (with and without a terminator), and
  how the script answers a call, given its name and arguments.
\<close>

datatype js_arg = JString "byte list" | JInt u32

record ('v, 'w) engine =
  is_object :: "'v \<Rightarrow> bool"
  to_int32 :: "'v \<Rightarrow> u32"
  utf8 :: "'v \<Rightarrow> byte list"
  property :: "'v \<Rightarrow> string \<Rightarrow> 'v"
  elements :: "'v \<Rightarrow> 'v list"
  write_utf8 :: "'v \<Rightarrow> nat \<Rightarrow> byte list"
  write_utf8_nul :: "'v \<Rightarrow> nat \<Rightarrow> byte list"
  undefined_value :: "'v"
  onVFS :: "string \<Rightarrow> js_arg list \<Rightarrow> u32 \<times> 'w \<Rightarrow> 'v \<times> u32 \<times> 'w"

text \<open>The state of the object: the script's, and the map \<open>m_offsets\<close>.\<close>

record 'w node_world =
  js_state :: 'w
  m_offsets :: "u32 \<Rightarrow> u32 option"

definition ENOSYS :: u32 where
  "ENOSYS = 38"

type_synonym 'w node_os = "'w node_world os"

definition doVFS :: "('v, 'w) engine \<Rightarrow> string \<Rightarrow> js_arg list \<Rightarrow> 'w node_os \<Rightarrow> (u32 \<times> 'v) \<times> 'w node_os" where
  "doVFS E name argv os =
     (let (result, e, w) = onVFS E name argv (fst os, js_state (snd os)); os = (e, (snd os)\<lparr>js_state := w\<rparr>) in
      if is_object E result
      then ((to_int32 E (property E result ''error''), property E result ''result''), os)
      else ((ENOSYS, undefined_value E), os))"

text \<open>\<open>m_offsets[fd]\<close> makes an entry of zero when there is none.\<close>

definition offset :: "u32 \<Rightarrow> 'w node_os \<Rightarrow> u32 \<times> 'w node_os" where
  "offset fd os =
     (case m_offsets (snd os) fd of
        Some off \<Rightarrow> (off, os)
      | None \<Rightarrow> (0, fst os, (snd os)\<lparr>m_offsets := (m_offsets (snd os))(fd \<mapsto> 0)\<rparr>))"

definition set_offset :: "u32 \<Rightarrow> u32 \<Rightarrow> 'w node_os \<Rightarrow> 'w node_os" where
  "set_offset fd off os = (fst os, (snd os)\<lparr>m_offsets := (m_offsets (snd os))(fd \<mapsto> off)\<rparr>)"

section \<open>The node file system\<close>

definition node_open :: "('v, 'w) engine \<Rightarrow> byte list \<Rightarrow> u32 \<Rightarrow> u32 \<Rightarrow> 'w node_os \<Rightarrow> (u32 \<times> 'w node_os) outcome" where
  "node_open E name flags mode os =
     (let ((errnum, result), os) = doVFS E ''open'' [JString name, JInt flags, JInt mode] os in
      if errnum \<noteq> 0 then Ret (- errnum, os)
      else
        let fd = to_int32 E result in
        Ret (fd, if m_offsets (snd os) fd = None then set_offset fd 0 os else os))"

definition node_read :: "('v, 'w) engine \<Rightarrow> u32 \<Rightarrow> byte list \<Rightarrow> 'w node_os \<Rightarrow> ((u64 \<times> byte list) \<times> 'w node_os) outcome" where
  "node_read E fd buf os =
     (let (off, os) = offset fd os;
          ((errnum, result), os) = doVFS E ''read'' [JInt fd, JInt (of_nat (length buf)), JInt off] os in
      if errnum \<noteq> 0 then Ret ((scast (- errnum), buf), os)
      else
        bindO (store_at buf 0 (write_utf8 E result (length buf))) (\<lambda>buf.
        let (off, os) = offset fd os; n = of_nat (length (utf8 E result)) :: u32 in
        Ret ((scast n, buf), set_offset fd (off + n) os)))"

definition node_close :: "('v, 'w) engine \<Rightarrow> u32 \<Rightarrow> 'w node_os \<Rightarrow> (u32 \<times> 'w node_os) outcome" where
  "node_close E fd os =
     (let os = (fst os, (snd os)\<lparr>m_offsets := (m_offsets (snd os))(fd := None)\<rparr>);
          ((errnum, _), os) = doVFS E ''close'' [JInt fd] os in
      Ret (- errnum, os))"

text \<open>
  The fields of \<open>struct stat\<close> that are set, at their offsets on x86-64 with their sizes; the
  others, and the padding, stay as they were.
\<close>

definition stat_fields :: "(string \<times> nat \<times> nat) list" where
  "stat_fields =
     [(''dev'', 0, 8), (''ino'', 8, 8), (''mode'', 24, 4), (''nlink'', 16, 8), (''uid'', 28, 4), (''gid'', 32, 4),
      (''rdev'', 40, 8), (''size'', 48, 8), (''blksize'', 56, 8), (''blocks'', 64, 8)]"

fun set_fields :: "(string \<Rightarrow> u32) \<Rightarrow> (string \<times> nat \<times> nat) list \<Rightarrow> byte list \<Rightarrow> byte list outcome" where
  "set_fields val [] buf = Ret buf"
| "set_fields val ((name, off, n) # rest) buf =
     bindO (store_at buf off (to_le n (scast (val name)))) (set_fields val rest)"

definition node_stat_call ::
  "string \<Rightarrow> ('v, 'w) engine \<Rightarrow> js_arg \<Rightarrow> byte list \<Rightarrow> 'w node_os \<Rightarrow> ((u32 \<times> byte list) \<times> 'w node_os) outcome" where
  "node_stat_call name E target buf os =
     (let ((errnum, result), os) = doVFS E name [target] os in
      if errnum \<noteq> 0 then Ret ((- errnum, buf), os)
      else
        bindO (set_fields (\<lambda>field. to_int32 E (property E result field)) stat_fields buf) (\<lambda>buf.
        Ret ((0, buf), os)))"

definition node_fstat :: "('v, 'w) engine \<Rightarrow> u32 \<Rightarrow> byte list \<Rightarrow> 'w node_os \<Rightarrow> ((u32 \<times> byte list) \<times> 'w node_os) outcome" where
  "node_fstat E fd = node_stat_call ''fstat'' E (JInt fd)"

definition node_stat :: "('v, 'w) engine \<Rightarrow> byte list \<Rightarrow> byte list \<Rightarrow> 'w node_os \<Rightarrow> ((u32 \<times> byte list) \<times> 'w node_os) outcome" where
  "node_stat E name = node_stat_call ''stat'' E (JString name)"

definition node_lstat :: "('v, 'w) engine \<Rightarrow> byte list \<Rightarrow> byte list \<Rightarrow> 'w node_os \<Rightarrow> ((u32 \<times> byte list) \<times> 'w node_os) outcome" where
  "node_lstat E name = node_stat_call ''lstat'' E (JString name)"

text \<open>\<open>SEEK_SET\<close> is 0, \<open>SEEK_CUR\<close> is 1. An \<open>off_t\<close> is stored in an \<open>int\<close>.\<close>

definition node_lseek :: "u32 \<Rightarrow> u64 \<Rightarrow> u32 \<Rightarrow> 'w node_os \<Rightarrow> (u64 \<times> 'w node_os) outcome" where
  "node_lseek fd off whence os =
     (if whence = 0 then Ret (0, set_offset fd (ucast off) os)
      else if whence = 1 then
        let (old, os) = offset fd os in Ret (0, set_offset fd (ucast (scast old + off)) os)
      else Ret (scast (- ENOSYS), os))"

text \<open>\<open>std::string (buf.data ())\<close> ends at the first NUL of the name.\<close>

definition dir_names :: "('v, 'w) engine \<Rightarrow> 'v \<Rightarrow> (byte list \<times> DirentType) list" where
  "dir_names E result = map (\<lambda>v. (c_str (utf8 E v @ [0]), Regular)) (elements E result)"

definition node_getdents ::
  "('v, 'w) engine \<Rightarrow> u32 \<Rightarrow> byte list \<Rightarrow> u32 \<Rightarrow> 'w node_os \<Rightarrow> ((u32 \<times> byte list) \<times> 'w node_os) outcome" where
  "node_getdents E fd dirs count os =
     (let ((errnum, result), os) = doVFS E ''getdents'' [JInt fd] os in
      if errnum \<noteq> 0 then Ret ((- errnum, dirs), os)
      else
        bindO (append_all (dir_names E result) (mk_builder 1)) (\<lambda>b.
        bindO (store_at dirs 0 (m_buf b)) (\<lambda>dirs.
        Ret ((of_nat (length (m_buf b)), dirs), os))))"

definition node_write :: "('v, 'w) engine \<Rightarrow> u32 \<Rightarrow> byte list \<Rightarrow> 'w node_os \<Rightarrow> (u64 \<times> 'w node_os) outcome" where
  "node_write E fd buf os =
     (let ((errnum, result), os) = doVFS E ''write'' [JInt fd, JString buf] os in
      if errnum \<noteq> 0 then Ret (scast (- errnum), os) else Ret (scast (to_int32 E result), os))"

definition node_readlink :: "('v, 'w) engine \<Rightarrow> byte list \<Rightarrow> byte list \<Rightarrow> 'w node_os \<Rightarrow> ((u64 \<times> byte list) \<times> 'w node_os) outcome" where
  "node_readlink E path buf os =
     (let ((errnum, result), os) = doVFS E ''readlink'' [JString path] os in
      if errnum \<noteq> 0 then Ret ((scast (- errnum), buf), os)
      else
        bindO (store_at buf 0 (write_utf8_nul E result (length buf))) (\<lambda>buf.
        Ret ((scast (of_nat (length (utf8 E result)) :: u32), buf), os)))"

definition node_access :: "('v, 'w) engine \<Rightarrow> byte list \<Rightarrow> u32 \<Rightarrow> 'w node_os \<Rightarrow> (u32 \<times> 'w node_os) outcome" where
  "node_access E name mode os =
     (let ((errnum, result), os) = doVFS E ''access'' [JString name, JInt mode] os in
      if errnum \<noteq> 0 then Ret (- errnum, os) else Ret (to_int32 E result, os))"

definition node_filesystem :: "('v, 'w) engine \<Rightarrow> 'w node_world filesystem" where
  "node_filesystem E =
     \<lparr>fs_open = node_open E, fs_read = node_read E, fs_close = node_close E, fs_fstat = node_fstat E,
      fs_getdents = node_getdents E, fs_lseek = node_lseek, fs_write = node_write E, fs_access = node_access E,
      fs_stat = node_stat E, fs_lstat = node_lstat E, fs_readlink = node_readlink E\<rparr>"

section \<open>Facts\<close>

lemma doVFS_keeps_offsets: "doVFS E name argv os = (r, os') \<Longrightarrow> m_offsets (snd os') = m_offsets (snd os)"
  by (auto simp: doVFS_def Let_def split: prod.splits if_splits)

lemma offset_result: "offset fd os = (off, os') \<Longrightarrow>
    off = (case m_offsets (snd os) fd of Some x \<Rightarrow> x | None \<Rightarrow> 0) \<and>
    m_offsets (snd os') = (m_offsets (snd os))(fd \<mapsto> off) \<and> fst os' = fst os \<and> js_state (snd os') = js_state (snd os)"
  by (auto simp: offset_def split: option.splits)

text \<open>A script that answers one call with an error number.\<close>

definition fails_with :: "('v, 'w) engine \<Rightarrow> string \<Rightarrow> js_arg list \<Rightarrow> 'w node_os \<Rightarrow> u32 \<Rightarrow> bool" where
  "fails_with E name argv os e \<longleftrightarrow> e \<noteq> 0 \<and> fst (fst (doVFS E name argv os)) = e"

lemma node_open_fails:
  assumes "fails_with E ''open'' [JString name, JInt flags, JInt mode] os e"
  shows "\<exists>os'. node_open E name flags mode os = Ret (- e, os')"
  using assms by (auto simp: node_open_def fails_with_def Let_def split: prod.splits)

end
