(* ===== verification/ChildMemoryFacts.thy ===== *)
theory ChildMemoryFacts
  imports ChildMemory
begin

text \<open>
  What the operations on the child's memory do: copying out returns the child's bytes, writing
  changes the bytes written and nothing else, scratch segments do not overlap, and where the
  operations leave the supervisor's buffers.
\<close>

section \<open>Bytes of the memory\<close>

lemma those_Some_iff: "those xs = Some ys \<longleftrightarrow> xs = map Some ys"
proof (induction xs arbitrary: ys)
  case (Cons x xs)
  then show ?case by (cases ys) (auto split: option.splits)
qed auto

lemma mem_bytes_Some_iff:
  "mem_bytes m a n = Some bs \<longleftrightarrow> length bs = n \<and> (\<forall>i<n. m (a + of_nat i) = Some (bs ! i))"
  unfolding mem_bytes_def those_Some_iff by (auto simp: list_eq_iff_nth_eq)

definition mapped :: "(u64 \<Rightarrow> byte option) \<Rightarrow> u64 \<Rightarrow> nat \<Rightarrow> bool" where
  "mapped m a n \<longleftrightarrow> (\<forall>i<n. m (a + of_nat i) \<noteq> None)"

lemma mapped_bytes: "mapped m a n \<Longrightarrow> \<exists>bs. mem_bytes m a n = Some bs \<and> length bs = n"
  unfolding mem_bytes_Some_iff mapped_def
  by (rule exI [of _ "map (\<lambda>i. the (m (a + of_nat i))) [0..<n]"]) auto

lemma bytes_mapped: "mem_bytes m a n = Some bs \<Longrightarrow> mapped m a n \<and> length bs = n"
  by (auto simp: mem_bytes_Some_iff mapped_def)

lemma mapped_part: "mapped m a n \<Longrightarrow> i + k \<le> n \<Longrightarrow> mapped m (a + of_nat i) k"
  unfolding mapped_def by (metis add.assoc add_less_cancel_left of_nat_add order_less_le_trans)

lemma bytes_part:
  "mem_bytes m a n = Some bs \<Longrightarrow> i + k \<le> n \<Longrightarrow> mem_bytes m (a + of_nat i) k = Some (take k (drop i bs))"
  unfolding mem_bytes_Some_iff
  by (auto simp: add.assoc simp flip: of_nat_add)

lemma unat_small: "i < 2 ^ 64 \<Longrightarrow> unat (of_nat i :: u64) = i"
  by (simp add: unat_of_nat take_bit_nat_eq_self)

lemma mem_write_Nil [simp]: "mem_write m a [] = m"
  by (auto simp: mem_write_def)

lemma mem_write_mapped: "mapped m b n \<Longrightarrow> mapped (mem_write m a bs) b n"
  by (auto simp: mapped_def mem_write_def)

lemma word_split: "(x :: u64) = a + of_nat (unat (x - a))"
  by simp

lemma mem_write_append:
  assumes "length xs + length ys \<le> 2 ^ 64"
  shows "mem_write (mem_write m a xs) (a + of_nat (length xs)) ys = mem_write m a (xs @ ys)"
proof
  fix x
  define d where "d = unat (x - a)"
  have d: "d < 2 ^ 64" "x = a + of_nat d"
    using unsigned_less [of "x - a", where ?'a = nat] by (simp_all add: d_def)
  show "mem_write (mem_write m a xs) (a + of_nat (length xs)) ys x = mem_write m a (xs @ ys) x"
  proof (cases "length xs \<le> d")
    case True
    then have "x - (a + of_nat (length xs)) = of_nat (d - length xs)"
      by (simp add: d(2) of_nat_diff)
    with d True unat_small [of "d - length xs"] have "unat (x - (a + of_nat (length xs))) = d - length xs"
      by (simp del: of_nat_diff)
    with True show ?thesis by (auto simp: mem_write_def d_def [symmetric] nth_append)
  next
    case False
    have "\<not> unat (x - (a + of_nat (length xs))) < length ys"
    proof
      assume *: "unat (x - (a + of_nat (length xs))) < length ys"
      define e where "e = unat (x - (a + of_nat (length xs)))"
      have "x = a + of_nat (length xs + e)"
        by (simp add: e_def algebra_simps)
      then have "x - a = of_nat (length xs + e)" by simp
      moreover have "length xs + e < 2 ^ 64" using * assms by (simp add: e_def)
      ultimately have "d = length xs + e"
        using unat_small [of "length xs + e"] by (simp add: d_def del: of_nat_add)
      with False show False by simp
    qed
    with False show ?thesis by (auto simp: mem_write_def d_def [symmetric] nth_append)
  qed
qed

lemma mem_write_same:
  assumes "mem_bytes m a n = Some bs"
  shows "mem_write m a bs = m"
proof
  fix x show "mem_write m a bs x = m x"
    using assms word_split [of x a] by (auto simp: mem_write_def mem_bytes_Some_iff)
qed

lemma mem_read_back:
  assumes "length bs \<le> 2 ^ 64"
  shows "mem_bytes (mem_write m a bs) a (length bs) = Some bs"
proof -
  have "unat (of_nat i :: u64) = i" if "i < length bs" for i
    using that assms by (intro unat_small) simp
  then show ?thesis by (simp add: mem_bytes_Some_iff mem_write_def)
qed

lemma mem_write_elsewhere: "length bs \<le> unat (x - a) \<Longrightarrow> mem_write m a bs x = m x"
  by (simp add: mem_write_def)

text \<open>Writing over a prefix and putting the old bytes back behind it.\<close>

lemma mem_write_merge:
  assumes "mem_bytes m a n = Some old" "length bs \<le> n" "n \<le> 2 ^ 64"
  shows "mem_write m a (bs @ drop (length bs) old) = mem_write m a bs"
proof
  fix x
  from assms(1) have "length old = n" by (simp add: mem_bytes_Some_iff)
  with assms word_split [of x a] show "mem_write m a (bs @ drop (length bs) old) x = mem_write m a bs x"
    by (auto simp: mem_write_def nth_append mem_bytes_Some_iff)
qed

section \<open>Words\<close>

lemma peekData_Ret:
  "mem_bytes (mem s p) a 8 = Some bs \<Longrightarrow> peekData s p a = Ret (of_le bs, s\<lparr>errno := 0\<rparr>)"
  by (simp add: peekData_def)

lemma pokeData_mapped:
  assumes "mapped (mem s p) a 8"
  shows "pokeData s p a w = (False, s\<lparr>mem := (mem s)(p := mem_write (mem s p) a (to_le 8 w))\<rparr>)"
  using mapped_bytes [OF assms] by (auto simp: pokeData_def)

section \<open>Copying data\<close>

text \<open>\<open>words n len\<close>: the bytes of an object of size \<open>len\<close> lie in \<open>n\<close> words.\<close>

definition words :: "nat \<Rightarrow> nat \<Rightarrow> bool" where
  "words n len \<longleftrightarrow> len \<le> 8 * n \<and> 8 * n < len + 8"

lemma words_exist: "words ((len + 7) div 8) len"
  by (auto simp: words_def)

lemma words_step: "words n len \<Longrightarrow> k < n \<Longrightarrow> 8 * k < len"
  by (auto simp: words_def)

lemma store_at_Ret: "i + length bs \<le> length buf \<Longrightarrow> store_at buf i bs = Ret (take i buf @ bs @ drop (i + length bs) buf)"
  by (simp add: store_at_def)

lemma overlay_step:
  assumes "i + 8 \<le> m" "m \<le> length buf" "length bs = m"
  defines "buf' \<equiv> take i buf @ take 8 (drop i bs) @ drop (i + 8) buf"
  shows "take (i + 8) buf' @ drop (i + 8) bs @ drop m buf' = take i buf @ drop i bs @ drop m buf"
    "length buf' = length buf"
proof -
  have "take (i + 8) buf' = take i buf @ take 8 (drop i bs)"
    using assms by (simp add: buf'_def)
  moreover have "drop m buf' = drop m buf" using assms by (simp add: buf'_def)
  moreover have "drop i bs = take 8 (drop i bs) @ drop (i + 8) bs"
    using append_take_drop_id [of 8 "drop i bs"] by (simp add: add.commute)
  ultimately show "take (i + 8) buf' @ drop (i + 8) bs @ drop m buf' = take i buf @ drop i bs @ drop m buf"
    by simp
  show "length buf' = length buf" using assms by (simp add: buf'_def)
qed

lemma mult_8_Suc: "8 * k + 8 = 8 * Suc k"
  by simp

lemma copy_words_step:
  assumes "mem_bytes (mem s p) addr (8 * n) = Some bs" "k < n" "8 * k < len"
  shows "copy_words s p addr (8 * k) len buf =
    (if 8 * Suc k \<le> length buf
     then copy_words (s\<lparr>errno := 0\<rparr>) p addr (8 * Suc k) len
       (take (8 * k) buf @ take 8 (drop (8 * k) bs) @ drop (8 * k + 8) buf)
     else Fault Write_OOB)"
proof -
  have w: "mem_bytes (mem s p) (addr + of_nat (8 * k)) 8 = Some (take 8 (drop (8 * k) bs))"
    using bytes_part [OF assms(1), of "8 * k" 8] assms(2) by simp
  have l: "length bs = 8 * n" using bytes_mapped [OF assms(1)] by simp
  with assms(2) have "to_le 8 (of_le (take 8 (drop (8 * k) bs))) = take 8 (drop (8 * k) bs)"
    by (intro to_of_le_8) simp
  with peekData_Ret [OF w] assms(2,3) l show ?thesis
    unfolding mult_8_Suc [symmetric] by (simp add: copy_words.simps [of s p addr "8 * k"] store_at_def)
qed

lemma copy_words_Ret:
  "mem_bytes (mem s p) addr (8 * n) = Some bs \<Longrightarrow> words n len \<Longrightarrow> 8 * n \<le> length buf \<Longrightarrow> k \<le> n \<Longrightarrow>
     copy_words s p addr (8 * k) len buf =
       Ret (take (8 * k) buf @ drop (8 * k) bs @ drop (8 * n) buf, if k < n then s\<lparr>errno := 0\<rparr> else s)"
proof (induction "n - k" arbitrary: k s buf)
  case 0
  then have "k = n" "length bs = 8 * n" by (auto simp: mem_bytes_Some_iff)
  with 0 show ?case by (simp add: copy_words.simps [of s p addr "8 * n"] words_def)
next
  case (Suc d)
  then have k: "k < n" "8 * Suc k \<le> length buf" "length bs = 8 * n" by (auto simp: mem_bytes_Some_iff)
  let ?buf = "take (8 * k) buf @ take 8 (drop (8 * k) bs) @ drop (8 * k + 8) buf"
  note o = overlay_step [of "8 * k" "8 * n" buf bs]
  have "copy_words (s\<lparr>errno := 0\<rparr>) p addr (8 * Suc k) len ?buf =
      Ret (take (8 * Suc k) ?buf @ drop (8 * Suc k) bs @ drop (8 * n) ?buf, s\<lparr>errno := 0\<rparr>)"
    using Suc k o(2) by (subst Suc.hyps(1)) auto
  with copy_words_step [OF Suc.prems(1) k(1) words_step [OF Suc.prems(2) k(1)], of buf] k(2) o(1) k Suc.prems(3)
  show ?case unfolding mult_8_Suc [symmetric] by simp
qed

lemma copy_words_overrun:
  "mem_bytes (mem s p) addr (8 * n) = Some bs \<Longrightarrow> words n len \<Longrightarrow> length buf < 8 * n \<Longrightarrow> 8 * k \<le> length buf \<Longrightarrow> k \<le> n \<Longrightarrow>
     copy_words s p addr (8 * k) len buf = Fault Write_OOB"
proof (induction "n - k" arbitrary: k s buf)
  case (Suc d)
  then have k: "k < n" "length bs = 8 * n" by (auto simp: mem_bytes_Some_iff)
  note step = copy_words_step [OF Suc.prems(1) k(1) words_step [OF Suc.prems(2) k(1)], of buf]
  show ?case
  proof (cases "8 * Suc k \<le> length buf")
    case True
    have "copy_words (s\<lparr>errno := 0\<rparr>) p addr (8 * Suc k) len
       (take (8 * k) buf @ take 8 (drop (8 * k) bs) @ drop (8 * k + 8) buf) = Fault Write_OOB"
      using Suc k True by (intro Suc.hyps(1)) auto
    with step True show ?thesis by simp
  qed (simp add: step)
qed simp

text \<open>Enough room for whole words: the child's bytes. Less: a store outside the buffer.\<close>

lemma copyData_Ret:
  assumes "mem_bytes (mem s p) addr (8 * n) = Some bs" "words n len" "0 < len" "8 * n \<le> length buf"
  shows "copyData s p addr len buf = Ret (True, bs @ drop (8 * n) buf, s\<lparr>errno := 0\<rparr>)"
  using copy_words_Ret [OF assms(1,2,4), of 0] assms by (auto simp: copyData_def words_def)

lemma copyData_overrun:
  assumes "mapped (mem s p) addr (8 * n)" "words n len" "length buf < 8 * n"
  shows "copyData s p addr len buf = Fault Write_OOB"
proof -
  from mapped_bytes [OF assms(1)] obtain bs where "mem_bytes (mem s p) addr (8 * n) = Some bs" by auto
  from copy_words_overrun [OF this assms(2,3), of 0] show ?thesis by (simp add: copyData_def)
qed

section \<open>Copying strings\<close>

lemma upto_nul_simps: "0 \<notin> set bs \<Longrightarrow> upto_nul bs = bs" "0 \<notin> set bs \<Longrightarrow> upto_nul (bs @ 0 # t) = bs @ [0]"
  by (induction bs) auto

lemma in_upto_nul [simp]: "0 \<in> set (upto_nul bs) \<longleftrightarrow> 0 \<in> set bs"
  by (induction bs) auto

lemma upto_nul_length: "length (upto_nul bs) \<le> length bs"
  by (induction bs) auto

lemma copy_string_step:
  assumes "mem_bytes (mem s p) addr (8 * n) = Some bs" "k < n" "8 < M - 8 * k" "M \<le> length buf"
  defines "w \<equiv> upto_nul (take 8 (drop (8 * k) bs))"
  shows "copy_string_words s p addr (8 * k) M buf =
    (if 0 \<in> set w then Ret (True, 8 * Suc k, take (8 * k) buf @ w @ drop (8 * k + length w) buf, s\<lparr>errno := 0\<rparr>)
     else copy_string_words (s\<lparr>errno := 0\<rparr>) p addr (8 * Suc k) M (take (8 * k) buf @ w @ drop (8 * k + length w) buf))"
proof -
  have w: "mem_bytes (mem s p) (addr + of_nat (8 * k)) 8 = Some (take 8 (drop (8 * k) bs))"
    using bytes_part [OF assms(1), of "8 * k" 8] assms(2) by simp
  have l: "length bs = 8 * n" using bytes_mapped [OF assms(1)] by simp
  with assms(2) have t: "to_le 8 (of_le (take 8 (drop (8 * k) bs))) = take 8 (drop (8 * k) bs)"
    by (intro to_of_le_8) simp
  have "length w \<le> 8" using upto_nul_length [of "take 8 (drop (8 * k) bs)"] by (simp add: w_def)
  then have "store_at buf (8 * k) w = Ret (take (8 * k) buf @ w @ drop (8 * k + length w) buf)"
    using assms(3,4) by (intro store_at_Ret) linarith
  with peekData_Ret [OF w] t assms(3) show ?thesis
    unfolding mult_8_Suc [symmetric] by (simp add: copy_string_words.simps [of s p addr "8 * k"] w_def Let_def)
qed

text \<open>What the first loop leaves, for a string \<open>str\<close> whose NUL is in the last of \<open>n\<close> words.\<close>

definition string_found :: "byte list \<Rightarrow> nat \<Rightarrow> sandbox \<Rightarrow> byte list \<Rightarrow> bool \<times> nat \<times> byte list \<times> sandbox \<Rightarrow> bool" where
  "string_found str M s buf r = (case r of (endString, i, buf', s') \<Rightarrow>
     length buf' = length buf \<and>
     (if endString then take (Suc (length str)) buf' = str @ [0] \<and> s' = s\<lparr>errno := 0\<rparr>
      else i = 8 * (length str div 8) \<and> M \<le> i + 8 \<and> take i buf' = take i str \<and> s' \<in> {s, s\<lparr>errno := 0\<rparr>}))"

lemma last_word:
  assumes "length (str @ 0 # t) = 8 * Suc (length str div 8)" "k \<le> length str div 8"
  shows "k < length str div 8 \<Longrightarrow> take 8 (drop (8 * k) (str @ 0 # t)) = take 8 (drop (8 * k) str)"
    "k = length str div 8 \<Longrightarrow> take 8 (drop (8 * k) (str @ 0 # t)) = drop (8 * k) str @ 0 # t"
proof -
  show "take 8 (drop (8 * k) (str @ 0 # t)) = take 8 (drop (8 * k) str)" if "k < length str div 8"
  proof -
    from that have "8 * k + 8 \<le> length str" by linarith
    then show ?thesis by simp
  qed
  show "take 8 (drop (8 * k) (str @ 0 # t)) = drop (8 * k) str @ 0 # t" if "k = length str div 8"
  proof -
    from that have "8 * k \<le> length str" by simp
    moreover from assms(1) that have "length (drop (8 * k) str @ 0 # t) = 8" using \<open>8 * k \<le> length str\<close> by simp
    ultimately show ?thesis by (simp only: drop_append) (simp add: take_all)
  qed
qed

lemma copy_string_words_found:
  assumes "0 \<notin> set str" "length str < M" "M \<le> length buf" "k \<le> length str div 8" "take (8 * k) buf = take (8 * k) str"
    and "mem_bytes (mem s p) addr (8 * Suc (length str div 8)) = Some (str @ 0 # t)"
  shows "\<exists>r. copy_string_words s p addr (8 * k) M buf = Ret r \<and> string_found str M s buf r"
  using assms(3-6)
proof (induction "length str div 8 - k" arbitrary: k s buf)
  case 0
  then have k: "k = length str div 8" by simp
  show ?case
  proof (cases "8 < M - 8 * k")
    case True
    from bytes_mapped [OF 0(5)] have l: "length (str @ 0 # t) = 8 * Suc (length str div 8)" by simp
    from k have kl: "8 * k \<le> length str" by simp
    have "0 \<notin> set (drop (8 * k) str)" using assms(1) by (auto dest: in_set_dropD)
    then have w: "upto_nul (take 8 (drop (8 * k) (str @ 0 # t))) = drop (8 * k) str @ [0]"
      using last_word(2) [OF l 0(3) k] by (simp add: upto_nul_simps)
    have "8 * k + length (drop (8 * k) str @ [0 :: byte]) = Suc (length str)" using kl by simp
    with copy_string_step [OF 0(5) le_imp_less_Suc [OF 0(3)] True 0(2), unfolded w] 0(4)
    have "copy_string_words s p addr (8 * k) M buf =
        Ret (True, 8 * Suc k, take (8 * k) str @ drop (8 * k) str @ 0 # drop (Suc (length str)) buf, s\<lparr>errno := 0\<rparr>)"
      by simp
    moreover have "take (8 * k) str @ drop (8 * k) str @ 0 # drop (Suc (length str)) buf = str @ 0 # drop (Suc (length str)) buf"
      by (simp flip: append_assoc)
    ultimately show ?thesis using assms(2) 0(2) by (simp add: string_found_def)
  next
    case False
    then have "copy_string_words s p addr (8 * k) M buf = Ret (False, 8 * k, buf, s)"
      by (simp add: copy_string_words.simps [of s p addr "8 * k"])
    with k 0 False show ?thesis by (auto simp: string_found_def)
  qed
next
  case (Suc d)
  then have k: "k < length str div 8" by simp
  then have kl: "8 * k + 8 \<le> length str" by linarith
  with assms(2) have m: "8 < M - 8 * k" by simp
  from bytes_mapped [OF Suc.prems(4)] have l: "length (str @ 0 # t) = 8 * Suc (length str div 8)" by simp
  have "0 \<notin> set (take 8 (drop (8 * k) str))" using assms(1) by (auto dest!: in_set_takeD in_set_dropD)
  then have w: "upto_nul (take 8 (drop (8 * k) (str @ 0 # t))) = take 8 (drop (8 * k) str)"
    using last_word(1) [OF l _ k] k by (simp add: upto_nul_simps)
  let ?buf = "take (8 * k) buf @ take 8 (drop (8 * k) str) @ drop (8 * k + 8) buf"
  have "length (take 8 (drop (8 * k) str)) = 8" using kl by simp
  with copy_string_step [OF Suc.prems(4) _ m Suc.prems(1)] w k \<open>0 \<notin> set (take 8 (drop (8 * k) str))\<close>
  have step: "copy_string_words s p addr (8 * k) M buf = copy_string_words (s\<lparr>errno := 0\<rparr>) p addr (8 * Suc k) M ?buf"
    by simp
  have lb: "length ?buf = length buf" using kl Suc.prems(1) assms(2) by simp
  moreover have "take (8 * Suc k) ?buf = take (8 * Suc k) str"
    using Suc.prems kl assms(2) by (auto simp add: take_add [of "8 * k" 8, simplified add.commute [of _ 8]] add.commute [of _ 8] min_def)
  ultimately obtain r where "copy_string_words (s\<lparr>errno := 0\<rparr>) p addr (8 * Suc k) M ?buf = Ret r"
    "string_found str M (s\<lparr>errno := 0\<rparr>) ?buf r"
    using Suc.hyps(1) [of "Suc k" ?buf "s\<lparr>errno := 0\<rparr>"] Suc.hyps(2) Suc.prems k by fastforce
  with step lb show ?case by (auto simp: string_found_def split: if_splits)
qed

text \<open>A string that ends before \<open>maxLength\<close> arrives with its terminator.\<close>

lemma copyString_Ret:
  assumes "0 \<notin> set str" "length str < M" "M \<le> length buf"
    and "mem_bytes (mem s p) addr (8 * Suc (length str div 8)) = Some (str @ 0 # t)"
  shows "\<exists>buf'. copyString s p addr M buf = Ret (True, buf', s\<lparr>errno := 0\<rparr>) \<and> length buf' = length buf
    \<and> take (Suc (length str)) buf' = str @ [0]"
proof -
  obtain endString i buf1 s1 where r: "copy_string_words s p addr 0 M buf = Ret (endString, i, buf1, s1)"
    "string_found str M s buf (endString, i, buf1, s1)"
    using copy_string_words_found [OF assms(1-3) _ _ assms(4), of 0] by auto
  show ?thesis
  proof (cases endString)
    case True
    with r show ?thesis by (auto simp: copyString_def string_found_def)
  next
    case False
    with r have i: "i = 8 * (length str div 8)" "M \<le> i + 8" "take i buf1 = take i str" "length buf1 = length buf"
      and s1: "mem s1 = mem s" "s1\<lparr>errno := 0\<rparr> = s\<lparr>errno := 0\<rparr>" "i \<le> length str"
      by (auto simp: string_found_def)
    from bytes_mapped [OF assms(4)] have l: "length (str @ 0 # t) = 8 * Suc (length str div 8)" by simp
    have "mem_bytes (mem s1 p) (addr + of_nat i) 8 = Some (drop i str @ 0 # t)"
      using bytes_part [OF assms(4), of i 8] last_word(2) [OF l, of "length str div 8"] by (simp add: s1 i(1))
    moreover have "length (drop i str @ 0 # t) = 8" using l i(1) s1(3) by simp
    moreover have "take (M - i) (drop i str @ 0 # t) = drop i str @ 0 # take (M - Suc (length str)) t"
      using assms(2) s1(3) by (simp add: take_Cons')
    moreover have "store_at buf1 i (drop i str @ 0 # take (M - Suc (length str)) t) =
        Ret (take i str @ drop i str @ 0 # take (M - Suc (length str)) t @ drop (i + length (drop i str @ 0 # take (M - Suc (length str)) t)) buf1)"
      using i assms(2,3) s1(3) by (subst store_at_Ret) (auto simp: min_def)
    ultimately have "copyString s p addr M buf = Ret (True, str @ 0 # take (M - Suc (length str)) t
        @ drop (i + length (drop i str @ 0 # take (M - Suc (length str)) t)) buf1, s\<lparr>errno := 0\<rparr>)"
      using r(1) False i assms(2) s1 peekData_Ret [of s1 p "addr + of_nat i"] to_of_le_8 [of "drop i str @ 0 # t"]
      by (auto simp: copyString_def)
    moreover have "length (str @ 0 # take (M - Suc (length str)) t
        @ drop (i + length (drop i str @ 0 # take (M - Suc (length str)) t)) buf1) = length buf"
      using i assms(2,3) l s1(3) by (auto simp: min_def)
    ultimately show ?thesis by auto
  qed
qed

text \<open>A longer one fills the buffer, without a terminator.\<close>

lemma copy_string_words_long:
  "mem_bytes (mem s p) addr (8 * Suc n) = Some bs \<Longrightarrow> 0 \<notin> set bs \<Longrightarrow> 8 * Suc n \<le> length buf \<Longrightarrow> k \<le> n \<Longrightarrow> take (8 * k) buf = take (8 * k) bs \<Longrightarrow>
     \<exists>buf' s'. copy_string_words s p addr (8 * k) (8 * Suc n) buf = Ret (False, 8 * n, buf', s') \<and> length buf' = length buf
       \<and> take (8 * n) buf' = take (8 * n) bs \<and> s' \<in> {s, s\<lparr>errno := 0\<rparr>}"
proof (induction "n - k" arbitrary: k s buf)
  case 0
  then have "copy_string_words s p addr (8 * k) (8 * Suc n) buf = Ret (False, 8 * n, buf, s)"
    by (simp add: copy_string_words.simps [of s p addr "8 * k"])
  with 0 show ?case by auto
next
  case (Suc d)
  then have k: "k < n" by simp
  from bytes_mapped [OF Suc.prems(1)] have l: "length bs = 8 * Suc n" by simp
  have "0 \<notin> set (take 8 (drop (8 * k) bs))" using Suc.prems(2) by (auto dest!: in_set_takeD in_set_dropD)
  then have w: "upto_nul (take 8 (drop (8 * k) bs)) = take 8 (drop (8 * k) bs)" by (rule upto_nul_simps)
  let ?buf = "take (8 * k) buf @ take 8 (drop (8 * k) bs) @ drop (8 * k + 8) buf"
  have "length (take 8 (drop (8 * k) bs)) = 8" using l k by simp
  with copy_string_step [OF Suc.prems(1), of k "8 * Suc n" buf, unfolded w] k Suc.prems(3) \<open>0 \<notin> set (take 8 (drop (8 * k) bs))\<close>
  have step: "copy_string_words s p addr (8 * k) (8 * Suc n) buf =
      copy_string_words (s\<lparr>errno := 0\<rparr>) p addr (8 * Suc k) (8 * Suc n) ?buf" by simp
  have lb: "length ?buf = length buf" using l k Suc.prems(3) by simp
  moreover have "take (8 * Suc k) ?buf = take (8 * Suc k) bs"
    using Suc.prems k l by (simp add: take_add [of "8 * k" 8, simplified add.commute [of _ 8]] add.commute [of _ 8] min_def)
  ultimately obtain buf' s' where "copy_string_words (s\<lparr>errno := 0\<rparr>) p addr (8 * Suc k) (8 * Suc n) ?buf = Ret (False, 8 * n, buf', s')"
    "length buf' = length ?buf" "take (8 * n) buf' = take (8 * n) bs" "s' = s\<lparr>errno := 0\<rparr>"
    using Suc.hyps(1) [of "Suc k" "s\<lparr>errno := 0\<rparr>" ?buf] Suc.hyps(2) Suc.prems k by fastforce
  with step lb show ?case by auto
qed

lemma copyString_long:
  assumes "mem_bytes (mem s p) addr (8 * Suc n) = Some bs" "0 \<notin> set bs" "length buf = 8 * Suc n"
  shows "copyString s p addr (8 * Suc n) buf = Ret (True, bs, s\<lparr>errno := 0\<rparr>)"
proof -
  obtain buf1 s1 where r: "copy_string_words s p addr 0 (8 * Suc n) buf = Ret (False, 8 * n, buf1, s1)" "length buf1 = 8 * Suc n"
    "take (8 * n) buf1 = take (8 * n) bs" "s1 \<in> {s, s\<lparr>errno := 0\<rparr>}"
    using copy_string_words_long [OF assms(1,2), of buf 0] assms(3) by auto
  from bytes_mapped [OF assms(1)] have l: "length bs = 8 * Suc n" by simp
  have s1: "mem s1 = mem s" "s1\<lparr>errno := 0\<rparr> = s\<lparr>errno := 0\<rparr>" using r(4) by auto
  have w: "mem_bytes (mem s1 p) (addr + of_nat (8 * n)) 8 = Some (drop (8 * n) bs)"
    using bytes_part [OF assms(1), of "8 * n" 8] l s1 by simp
  have "store_at buf1 (8 * n) (drop (8 * n) bs) = Ret bs"
    using r(2,3) l by (simp add: store_at_def)
  with w r(1) s1 l peekData_Ret [OF w] to_of_le_8 [of "drop (8 * n) bs"] show ?thesis
    by (simp add: copyString_def)
qed

section \<open>Writing data\<close>

lemma write_words_Ret:
  "mapped m0 addr (8 * n) \<Longrightarrow> words n len \<Longrightarrow> len \<le> length buf \<Longrightarrow> 8 * n \<le> 2 ^ 64 \<Longrightarrow> 0 < n \<Longrightarrow> k < n \<Longrightarrow>
     mem s p = mem_write m0 addr (take (8 * k) buf) \<Longrightarrow>
     write_words s p addr (8 * k) len buf =
       Ret (8 * (n - 1), s\<lparr>mem := (mem s)(p := mem_write m0 addr (take (8 * (n - 1)) buf))\<rparr>)"
proof (induction "n - k" arbitrary: k s)
  case (Suc d)
  show ?case
  proof (cases "k = n - 1")
    case True
    with Suc.prems obtain j where "n = Suc j" "k = j" by (cases n) auto
    with Suc.prems have "\<not> len - 8 * k > 8" by (auto simp: words_def)
    with True show ?thesis using Suc.prems(7) fun_upd_triv [of "mem s" p]
      by (simp add: write_words.simps [of s p addr "8 * (n - Suc 0)"])
  next
    case False
    with Suc.prems(6) have "Suc k < n" by simp
    moreover from this have "8 * k + 16 \<le> 8 * n" by simp
    with Suc.prems(2) have "len - 8 * k > 8" unfolding words_def by linarith
    ultimately have k: "Suc k < n" "len - 8 * k > 8" by simp_all
    with Suc.prems have r: "read_at buf (8 * k) 8 = Ret (take 8 (drop (8 * k) buf))" by (simp add: read_at_def)
    have l: "length (take (8 * k) buf) = 8 * k" "length (take 8 (drop (8 * k) buf)) = 8" using k Suc.prems by simp_all
    have "mapped (mem s p) (addr + of_nat (8 * k)) 8"
      unfolding Suc.prems(7) using mapped_part [OF Suc.prems(1), of "8 * k" 8] k by (intro mem_write_mapped) simp
    from pokeData_mapped [OF this, of "of_le (take 8 (drop (8 * k) buf))"] to_of_le_8 [OF l(2)]
    have p: "snd (pokeData s p (addr + of_nat (8 * k)) (of_le (take 8 (drop (8 * k) buf)))) =
        s\<lparr>mem := (mem s)(p := mem_write (mem s p) (addr + of_nat (8 * k)) (take 8 (drop (8 * k) buf)))\<rparr>" (is "_ = ?s")
      by simp
    have "mem_write (mem s p) (addr + of_nat (8 * k)) (take 8 (drop (8 * k) buf)) = mem_write m0 addr (take (8 * Suc k) buf)"
      using mem_write_append [of "take (8 * k) buf" "take 8 (drop (8 * k) buf)" m0 addr] l k Suc.prems(4,7)
      by (simp flip: take_add add: add.commute [of 8])
    then have "write_words ?s p addr (8 * Suc k) len buf =
        Ret (8 * (n - 1), ?s\<lparr>mem := (mem ?s)(p := mem_write m0 addr (take (8 * (n - 1)) buf))\<rparr>)"
      using Suc k by (intro Suc.hyps(1)) auto
    with r p k show ?thesis
      unfolding mult_8_Suc [symmetric] by (simp add: write_words.simps [of s p addr "8 * k"])
  qed
qed simp

text \<open>The bytes are written and no other byte of any process changes.\<close>

lemma writeData_Ret:
  assumes "mapped (mem s p) addr (8 * n)" "words n len" "0 < len" "len \<le> length buf" "8 * n \<le> 2 ^ 64"
  shows "writeData s p addr len buf =
    Ret (True, s\<lparr>errno := 0, mem := (mem s)(p := mem_write (mem s p) addr (take len buf))\<rparr>)"
proof -
  from assms(2,3) have n: "0 < n" "8 * (n - 1) < len" "len \<le> 8 * (n - 1) + 8" by (auto simp: words_def)
  define i where "i = 8 * (n - 1)"
  with n have n: "0 < n" "i < len" "len \<le> i + 8" "i + 8 \<le> 8 * n" by auto
  let ?m = "mem s p"
  let ?s1 = "s\<lparr>mem := (mem s)(p := mem_write ?m addr (take i buf))\<rparr>"
  have w: "write_words s p addr 0 len buf = Ret (i, ?s1)"
    using write_words_Ret [OF assms(1,2,4,5) n(1), of 0 s p] n(1) by (simp add: i_def)
  have mp: "mapped (mem ?s1 p) (addr + of_nat i) 8"
    using mapped_part [OF assms(1), of i 8] n(4) by (auto intro: mem_write_mapped)
  from mapped_bytes [OF this] obtain old where old: "mem_bytes (mem ?s1 p) (addr + of_nat i) 8 = Some old" "length old = 8" by auto
  let ?bs = "take (len - i) (drop i buf)"
  have r: "read_at buf i (len - i) = Ret ?bs" "length ?bs = len - i" using n assms(4) by (simp_all add: read_at_def)
  have bs8: "length (?bs @ drop (len - i) old) = 8" using r(2) n old(2) by simp
  let ?s2 = "?s1\<lparr>errno := 0\<rparr>"
  have p: "snd (pokeData ?s2 p (addr + of_nat i) (of_le (?bs @ drop (len - i) old))) =
      ?s2\<lparr>mem := (mem ?s2)(p := mem_write (mem ?s2 p) (addr + of_nat i) (?bs @ drop (len - i) old))\<rparr>"
    using pokeData_mapped [of ?s2 p "addr + of_nat i"] mp to_of_le_8 [OF bs8] by simp
  have "mem_write (mem ?s1 p) (addr + of_nat i) (?bs @ drop (len - i) old) = mem_write (mem ?s1 p) (addr + of_nat i) ?bs"
    using mem_write_merge [OF old(1), of ?bs] r(2) n by simp
  also have "\<dots> = mem_write ?m addr (take i buf @ ?bs)"
    using mem_write_append [of "take i buf" ?bs ?m addr] n assms(4,5) by simp
  also have "take i buf @ ?bs = take len buf" using n by (simp flip: take_add)
  finally have m: "mem_write (mem ?s1 p) (addr + of_nat i) (?bs @ drop (len - i) old) = mem_write ?m addr (take len buf)" .
  show ?thesis
    unfolding writeData_def w using n(2) peekData_Ret [OF old(1)] old(2) r(1) p m by (simp add: to_of_le_8 Let_def)
qed

text \<open>Asked for more bytes than the buffer has, it reads past the buffer.\<close>

lemma write_words_overread:
  "mapped (mem s p) addr (8 * n) \<Longrightarrow> k \<le> n \<Longrightarrow> length buf < len \<Longrightarrow> len \<le> 8 * n \<Longrightarrow>
    write_words s p addr (8 * k) len buf = Fault Read_OOB \<or>
    (\<exists>k' s'. write_words s p addr (8 * k) len buf = Ret (8 * k', s') \<and> 8 * k' \<noteq> len \<and> 8 * k' + 8 \<le> 8 * n \<and> mapped (mem s' p) addr (8 * n)) \<or>
    8 * k \<ge> len"
proof (induction "n - k" arbitrary: k s)
  case (Suc m)
  have k: "k < n" using Suc.hyps(2) by simp
  show ?case
  proof (cases "len - 8 * k > 8")
    case True
    show ?thesis
    proof (cases "8 * k + 8 \<le> length buf")
      case fits: True
      let ?s = "snd (pokeData s p (addr + of_nat (8 * k)) (of_le (take 8 (drop (8 * k) buf))))"
      have "8 * k + 8 \<le> 8 * n" using k by simp
      then have "mapped (mem s p) (addr + of_nat (8 * k)) 8" using mapped_part [OF Suc.prems(1), of "8 * k" 8] by simp
      then have m: "mapped (mem ?s p) addr (8 * n)"
        using pokeData_mapped Suc.prems(1) by (simp add: mem_write_mapped)
      have "write_words s p addr (8 * k) len buf = write_words ?s p addr (8 * Suc k) len buf"
        using True fits write_words.simps [of s p addr "8 * k" len buf]
        unfolding mult_8_Suc [symmetric] by (simp add: read_at_def)
      moreover have "\<not> 8 * Suc k \<ge> len" using True by simp
      ultimately show ?thesis using Suc.hyps(1) [of "Suc k" ?s] Suc.hyps(2) m k Suc.prems(3,4) by auto
    next
      case False
      then show ?thesis using True write_words.simps [of s p addr "8 * k" len buf] by (simp add: read_at_def)
    qed
  next
    case False
    show ?thesis
    proof (cases "8 * k \<ge> len")
      case small: False
      have "write_words s p addr (8 * k) len buf = Ret (8 * k, s)"
        using False write_words.simps [of s p addr "8 * k" len buf] by simp
      moreover have "8 * k + 8 \<le> 8 * n" using k by simp
      ultimately show ?thesis using small Suc.prems(1) by auto
    qed simp
  qed
qed simp

lemma writeData_overread:
  assumes "mapped (mem s p) addr (8 * n)" "words n len" "length buf < len"
  shows "writeData s p addr len buf = Fault Read_OOB"
proof -
  from assms(2) have "len \<le> 8 * n" by (simp add: words_def)
  with write_words_overread [OF assms(1), of 0 buf len] assms(3)
  consider "write_words s p addr 0 len buf = Fault Read_OOB"
    | k s' where "write_words s p addr 0 len buf = Ret (8 * k, s')" "8 * k \<noteq> len" "8 * k + 8 \<le> 8 * n" "mapped (mem s' p) addr (8 * n)"
    by auto
  then show ?thesis
  proof cases
    case 2
    from mapped_part [OF 2(4,3)] mapped_bytes obtain bs where "mem_bytes (mem s' p) (addr + of_nat (8 * k)) 8 = Some bs" by blast
    from peekData_Ret [OF this] 2(1,2) assms(3) show ?thesis
      by (auto simp: writeData_def read_at_def)
  qed (simp add: writeData_def)
qed

lemma writeData_empty: "writeData s p addr 0 buf = Ret (errno s = 0, s)"
  by (simp add: writeData_def write_words.simps [of s p addr 0])

section \<open>The scratch buffer\<close>

lemma align_8:
  assumes "unat (w :: u64) + 8 \<le> 2 ^ 64"
  defines "v \<equiv> (if w mod 8 \<noteq> 0 then w + (8 - w mod 8) else w)"
  shows "unat w \<le> unat v" "unat v < unat w + 8" "unat v mod 8 = 0"
proof -
  define m where "m = unat w mod 8"
  have m: "unat (w mod 8) = m" "m < 8" by (simp_all add: m_def unat_mod)
  have "unat v = (if m = 0 then unat w else unat w + (8 - m))"
  proof (cases "w mod 8 = 0")
    case True
    with m show ?thesis by (simp add: v_def)
  next
    case False
    have "w mod 8 \<le> 8" using m by (simp add: word_le_nat_alt)
    then have "unat (8 - w mod 8) = 8 - m" using m by (simp add: unat_sub)
    moreover have "m \<noteq> 0" using False m by (metis unat_eq_zero)
    ultimately show ?thesis using False assms(1) m
      by (simp add: v_def unat_word_ariths)
  qed
  moreover have "(unat w + (8 - m)) mod 8 = 0"
  proof -
    define q where "q = unat w div 8"
    have "unat w = q * 8 + m" unfolding q_def m_def by (rule div_mult_mod_eq [symmetric])
    then have "unat w + (8 - m) = Suc q * 8" using m(2) by simp
    then show ?thesis by (metis mod_mult_self2_is_0)
  qed
  ultimately show "unat w \<le> unat v" "unat v < unat w + 8" "unat v mod 8 = 0"
    using m by (auto simp: m_def)
qed

lemma writeScratch_Ret:
  assumes "mapped (mem s (main_pid s)) (nextScratchSegment s) (8 * n)" "words n len" "0 < len" "len \<le> length buf"
    and "unat (nextScratchSegment s) + len + 8 \<le> 2 ^ 64"
  shows "\<exists>next. writeScratch s len buf = Ret (nextScratchSegment s, s\<lparr>errno := 0, nextScratchSegment := next,
      mem := (mem s)(main_pid s := mem_write (mem s (main_pid s)) (nextScratchSegment s) (take len buf))\<rparr>) \<and>
    unat (nextScratchSegment s) + len \<le> unat next \<and> unat next < unat (nextScratchSegment s) + len + 8 \<and> unat next mod 8 = 0"
proof -
  from assms(2,5) have "8 * n \<le> 2 ^ 64" by (auto simp: words_def)
  note w = writeData_Ret [OF assms(1-4) this]
  define e where "e = nextScratchSegment s + of_nat len"
  have "len < 2 ^ 64" using assms(5) by linarith
  then have e: "unat e = unat (nextScratchSegment s) + len"
    using assms(5) by (simp add: e_def unat_word_ariths unat_small)
  define v where "v = (if e mod 8 \<noteq> 0 then e + (8 - e mod 8) else e)"
  have "unat e \<le> unat v" "unat v < unat e + 8" "unat v mod 8 = 0"
    using align_8 [of e] e assms(5) unfolding v_def by simp_all
  moreover have "writeScratch s len buf = Ret (nextScratchSegment s, s\<lparr>errno := 0, nextScratchSegment := v,
      mem := (mem s)(main_pid s := mem_write (mem s (main_pid s)) (nextScratchSegment s) (take len buf))\<rparr>)"
    unfolding writeScratch_def Let_def w v_def e_def by simp
  ultimately show ?thesis using e by (intro exI [of _ v]) simp
qed

section \<open>The environment\<close>

text \<open>A string of the child, and the strings a pointer array points to.\<close>

definition string_at :: "(u64 \<Rightarrow> byte option) \<Rightarrow> u64 \<Rightarrow> byte list \<Rightarrow> bool" where
  "string_at m a str \<longleftrightarrow> 0 \<notin> set str \<and> length str < 1024 \<and>
     (\<exists>t. mem_bytes m a (8 * Suc (length str div 8)) = Some (str @ 0 # t))"

fun env_at :: "(u64 \<Rightarrow> byte option) \<Rightarrow> u64 \<Rightarrow> (u64 \<times> byte list) list \<Rightarrow> bool" where
  "env_at m e [] \<longleftrightarrow> True"
| "env_at m e ((a, str) # rest) \<longleftrightarrow> mem_bytes m e 8 = Some (to_le 8 a) \<and> a \<noteq> 0 \<and> string_at m a str \<and> env_at m (e + 8) rest"

lemma copyString_string_at:
  assumes "string_at (mem s p) a str"
  shows "\<exists>buf. copyString s p a 1024 (replicate 1024 x) = Ret (True, buf, s\<lparr>errno := 0\<rparr>) \<and> length buf = 1024
    \<and> take (Suc (length str)) buf = str @ [0]"
  using assms copyString_Ret [of str 1024 "replicate 1024 x"] unfolding string_at_def by fastforce

lemma needle_length [simp]: "length needle = 22" "0 \<notin> set needle"
  by (auto simp: needle_def ascii_def)

lemma prefix_taken:
  assumes "take (Suc (length str)) buf = str @ [0]" "0 \<notin> set nd"
  shows "take (length nd) buf = nd \<longleftrightarrow> prefix nd str"
proof (cases "length nd \<le> length str")
  case True
  then have "take (length nd) buf = take (length nd) str"
    using arg_cong [OF assms(1), of "take (length nd)"] by (simp add: min_def)
  with True show ?thesis by (metis append_eq_conv_conj prefix_def take_is_prefix)
next
  case False
  then have t: "take (Suc (length str)) (take (length nd) buf) = str @ [0]" using assms(1) by (simp add: min_def)
  have "take (length nd) buf \<noteq> nd"
  proof
    assume nd: "take (length nd) buf = nd"
    have "take (Suc (length str)) nd = str @ [0]" using t unfolding nd .
    then have "0 \<in> set (take (Suc (length str)) nd)" by simp
    with assms(2) show False by (auto dest: in_set_takeD)
  qed
  with False show ?thesis by (auto dest: prefix_length_le)
qed

lemma scan_environ_finds:
  "env_at (mem s p) e (pre @ [(a, str)]) \<Longrightarrow> \<forall>(b, x) \<in> set pre. \<not> prefix needle x \<Longrightarrow> prefix needle str \<Longrightarrow> length pre < n \<Longrightarrow>
     scan_environ n s p e (fst (hd (pre @ [(a, str)]))) = Ret (s\<lparr>errno := 0, scratchAddr := a + 22\<rparr>)"
proof (induction pre arbitrary: n s e)
  case Nil
  then obtain m where n: "n = Suc m" by (cases n) auto
  from Nil have "a \<noteq> 0" "string_at (mem s p) a str" by auto
  from copyString_string_at [OF this(2), of 0] obtain buf where
    "copyString s p a 1024 (replicate 1024 0) = Ret (True, buf, s\<lparr>errno := 0\<rparr>)"
    "take (Suc (length str)) buf = str @ [0]" by auto
  with \<open>a \<noteq> 0\<close> Nil.prems(3) prefix_taken [of str buf needle] show ?case by (simp add: n)
next
  case (Cons bx pre)
  obtain b x where bx: "bx = (b, x)" by (cases bx)
  from Cons.prems(4) obtain m where n: "n = Suc m" "length pre < m" by (cases n) auto
  from Cons.prems(1) bx have "b \<noteq> 0" "string_at (mem s p) b x" "env_at (mem s p) (e + 8) (pre @ [(a, str)])" by auto
  from copyString_string_at [OF this(2), of 0] obtain buf where
    buf: "copyString s p b 1024 (replicate 1024 0) = Ret (True, buf, s\<lparr>errno := 0\<rparr>)"
    "take (Suc (length x)) buf = x @ [0]" by auto
  let ?s = "s\<lparr>errno := 0\<rparr>"
  obtain c y where c: "hd (pre @ [(a, str)]) = (c, y)" by (cases "hd (pre @ [(a, str)])")
  then have "mem_bytes (mem ?s p) (e + 8) 8 = Some (to_le 8 c)"
    using \<open>env_at (mem s p) (e + 8) (pre @ [(a, str)])\<close> by (cases pre) auto
  from peekData_Ret [OF this] have pk: "peekData ?s p (e + 8) = Ret (c, ?s)" by simp
  have "scan_environ m ?s p (e + 8) c = Ret (?s\<lparr>errno := 0, scratchAddr := a + 22\<rparr>)"
    using Cons.IH [of ?s "e + 8" m] \<open>env_at (mem s p) (e + 8) (pre @ [(a, str)])\<close> Cons.prems(2,3) n(2) c by auto
  moreover have "take 22 buf \<noteq> needle"
    using prefix_taken [OF buf(2), of needle] Cons.prems(2) bx by auto
  ultimately show ?case using buf(1) pk \<open>b \<noteq> 0\<close> by (simp add: bx n(1) Let_def)
qed

lemma scan_environ_finds_slot:
  assumes "env_at (mem s p) e ((a, str) # rest)"
  shows "peekData s p e = Ret (a, s\<lparr>errno := 0\<rparr>)"
  using peekData_Ret assms by fastforce

section \<open>Sequences of scratch segments\<close>

text \<open>Writing buffers one after the other, as a system call handler does; the addresses returned.\<close>

fun scratch_writes :: "sandbox \<Rightarrow> byte list list \<Rightarrow> (u64 list \<times> sandbox) outcome" where
  "scratch_writes s [] = Ret ([], s)"
| "scratch_writes s (b # bs) =
     bindO (writeScratch s (length b) b) (\<lambda>(a, s).
     bindO (scratch_writes s bs) (\<lambda>(as, s). Ret (a # as, s)))"

definition room :: "byte list list \<Rightarrow> nat" where
  "room bs = sum_list (map (\<lambda>b. length b + 7) bs)"

lemma room_simps [simp]: "room [] = 0" "room (b # bs) = length b + 7 + room bs"
  by (simp_all add: room_def)

text \<open>Addresses given as numbers: no wrap-around below \<open>2 ^ 64\<close>.\<close>

definition bytes_from :: "(u64 \<Rightarrow> byte option) \<Rightarrow> nat \<Rightarrow> byte list \<Rightarrow> bool" where
  "bytes_from m a bs \<longleftrightarrow> (\<forall>i<length bs. m (of_nat (a + i)) = Some (bs ! i))"

lemma bytes_from_mem_bytes: "mem_bytes m a (length bs) = Some bs \<longleftrightarrow> bytes_from m (unat a) bs"
  by (simp add: mem_bytes_Some_iff bytes_from_def)

lemma unat_diff_small:
  assumes "a + k < 2 ^ 64"
  shows "unat (of_nat (a + k) - (of_nat a :: u64)) = k"
  using assms unat_small [of k] by simp

lemma bytes_from_write_elsewhere:
  assumes "bytes_from m a bs" "a + length bs \<le> unat b" "unat b + length cs \<le> 2 ^ 64"
  shows "bytes_from (mem_write m b cs) a bs"
  unfolding bytes_from_def
proof (intro allI impI)
  fix i assume i: "i < length bs"
  have lt: "of_nat (a + i) < b"
    unfolding word_less_nat_alt using assms(2) i unat_small [of "a + i"] unsigned_less [of b, where ?'a = nat]
    by (simp del: of_nat_add)
  have "unat b - (a + i) \<le> unat b" "0 < unat b - (a + i)" using assms(2) i by auto
  have "unat (of_nat (a + i) - b) = 2 ^ 64 + (a + i) - unat b"
    using lt unat_small [of "a + i"] assms(2) i unsigned_less [of b, where ?'a = nat]
    by (simp add: unat_sub_if' word_less_nat_alt del: of_nat_add)
  then have "length cs \<le> unat (of_nat (a + i) - b)" using assms(3) by linarith
  then have "mem_write m b cs (of_nat (a + i)) = m (of_nat (a + i))" by (rule mem_write_elsewhere)
  with assms(1) i show "mem_write m b cs (of_nat (a + i)) = Some (bs ! i)"
    by (simp add: bytes_from_def)
qed

text \<open>Segments one behind the other from \<open>lo\<close> on, holding the buffers, aligned but for the first.\<close>

fun segments :: "(u64 \<Rightarrow> byte option) \<Rightarrow> nat \<Rightarrow> u64 list \<Rightarrow> byte list list \<Rightarrow> bool" where
  "segments m lo [] [] \<longleftrightarrow> True"
| "segments m lo (a # as) (b # bs) \<longleftrightarrow>
     lo \<le> unat a \<and> mem_bytes m a (length b) = Some b \<and> (\<forall>c\<in>set as. unat c mod 8 = 0) \<and>
     segments m (unat a + length b) as bs"
| "segments m lo _ _ \<longleftrightarrow> False"

lemma mapped_write_part:
  assumes "mapped m a n" "unat a + n \<le> 2 ^ 64" "unat a + k \<le> unat b" "unat b + l \<le> unat a + n"
  shows "mapped m b l"
proof -
  have "b = a + of_nat (unat b - unat a)" using assms(3) by (simp add: of_nat_diff)
  then show ?thesis using mapped_part [OF assms(1), of "unat b - unat a" l] assms(3,4) by simp
qed

lemma scratch_writes_segments:
  assumes "\<forall>b\<in>set bs. b \<noteq> []" "mapped (mem s (main_pid s)) (nextScratchSegment s) (room bs)"
    and "unat (nextScratchSegment s) + room bs + 8 \<le> 2 ^ 64"
  shows "\<exists>as s'. scratch_writes s bs = Ret (as, s') \<and> main_pid s' = main_pid s \<and>
    segments (mem s' (main_pid s)) (unat (nextScratchSegment s)) as bs \<and>
    (unat (nextScratchSegment s) mod 8 = 0 \<longrightarrow> (\<forall>a\<in>set as. unat a mod 8 = 0)) \<and>
    (\<forall>a xs. a + length xs \<le> unat (nextScratchSegment s) \<longrightarrow> bytes_from (mem s (main_pid s)) a xs \<longrightarrow>
       bytes_from (mem s' (main_pid s)) a xs)"
  using assms
proof (induction bs arbitrary: s)
  case (Cons b bs)
  let ?a = "nextScratchSegment s" and ?p = "main_pid s"
  define n where "n = (length b + 7) div 8"
  have w: "words n (length b)" unfolding n_def by (rule words_exist)
  then have n: "8 * n \<le> length b + 7" by (auto simp: words_def)
  from Cons.prems(3) have r3: "unat ?a + length b + 7 + room bs + 8 \<le> 2 ^ 64" by simp
  have "mapped (mem s ?p) ?a (8 * n)"
    using mapped_part [OF Cons.prems(2), of 0 "8 * n"] n by simp
  moreover have "0 < length b" using Cons.prems(1) by simp
  ultimately obtain v where v: "writeScratch s (length b) b = Ret (?a, s\<lparr>errno := 0, nextScratchSegment := v,
      mem := (mem s)(?p := mem_write (mem s ?p) ?a b)\<rparr>)"
    "unat ?a + length b \<le> unat v" "unat v < unat ?a + length b + 8" "unat v mod 8 = 0"
    using writeScratch_Ret [of s n "length b" b] w r3 by auto
  let ?s = "s\<lparr>errno := 0, nextScratchSegment := v, mem := (mem s)(?p := mem_write (mem s ?p) ?a b)\<rparr>"
  have "mapped (mem s ?p) v (room bs)"
    by (rule mapped_write_part [OF Cons.prems(2), of 0]) (use v r3 in auto)
  then have "mapped (mem ?s (main_pid ?s)) (nextScratchSegment ?s) (room bs)"
    by (simp add: mem_write_mapped)
  then obtain as s' where IH: "scratch_writes ?s bs = Ret (as, s')" "main_pid s' = ?p"
    "segments (mem s' ?p) (unat v) as bs" "\<forall>a\<in>set as. unat a mod 8 = 0"
    "\<And>a xs. a + length xs \<le> unat v \<Longrightarrow> bytes_from (mem_write (mem s ?p) ?a b) a xs \<Longrightarrow> bytes_from (mem s' ?p) a xs"
    using Cons.IH [of ?s] Cons.prems(1) v r3 by auto
  have "bytes_from (mem_write (mem s ?p) ?a b) (unat ?a) b"
    using mem_read_back [of b "mem s ?p" ?a] r3 by (simp add: bytes_from_mem_bytes)
  with IH(5) v(2) have b: "bytes_from (mem s' ?p) (unat ?a) b" by blast
  have seg: "segments (mem s' ?p) (unat ?a + length b) as bs"
    using IH(3) v(2) by (cases as; cases bs) auto
  have "bytes_from (mem s' ?p) a xs" if "a + length xs \<le> unat ?a" "bytes_from (mem s ?p) a xs" for a xs
    using IH(5) [of a xs] bytes_from_write_elsewhere [OF that(2,1), of b] that(1) v(2) r3 by simp
  with IH v(1) b seg show ?case by (auto simp: bytes_from_mem_bytes)
qed simp

section \<open>The exec event\<close>

lemma of_le_take_4:
  assumes "length bs = 8"
  shows "ucast (of_le (take 4 bs)) = (ucast (of_le bs) :: 32 word)"
proof -
  have "bit (of_le (take k xs)) i = bit (of_le xs) i" if "i < 8 * k" for k xs i
    using that
  proof (induction k arbitrary: xs i)
    case (Suc k)
    show ?case
    proof (cases xs)
      case (Cons x xs')
      with Suc.IH [of "i - 8" xs'] Suc.prems show ?thesis by (cases "i < 8") (auto simp: bit_simps)
    qed simp
  qed simp
  from this [of _ 4 bs] show ?thesis by (intro bit_word_eqI) (simp add: bit_simps)
qed

lemma handleExecEvent_in_Ret:
  assumes "\<not> entered_main s" "mem_bytes (mem s p) rsp 8 = Some argc"
    and "e = rsp + 8 * scast (ucast (of_le argc) + (2 :: 32 word))"
    and "env_at (mem s p) e (pre @ [(a, str)])" "\<forall>(b, x) \<in> set pre. \<not> prefix needle x" "prefix needle str"
    and "length pre < n" "a + 22 \<noteq> 0"
  shows "handleExecEvent_in 8 n rsp s p = Ret (s\<lparr>entered_main := True, errno := 0, scratchAddr := a + 22\<rparr>)"
proof -
  let ?s = "s\<lparr>entered_main := True\<rparr>" and ?s' = "s\<lparr>entered_main := True, errno := 0\<rparr>"
  from bytes_mapped [OF assms(2)] have l: "length argc = 8" by simp
  have "copyData ?s p rsp 4 (replicate 8 0) = Ret (True, argc, ?s')"
    using copyData_Ret [of ?s p rsp 1 argc 4 "replicate 8 0"] assms(2) by (simp add: words_def)
  moreover have "ucast (of_le (take 4 argc)) = (ucast (of_le argc) :: 32 word)"
    using of_le_take_4 [OF l] .
  moreover obtain b x rest where h: "pre @ [(a, str)] = (b, x) # rest" by (cases "pre @ [(a, str)]") auto
  moreover have "peekData ?s' p e = Ret (b, ?s')"
    using scan_environ_finds_slot [of ?s' p e b x rest] assms(4) h by simp
  moreover have "scan_environ n ?s' p e b = Ret (?s'\<lparr>scratchAddr := a + 22\<rparr>)"
    using scan_environ_finds [of ?s' p e pre a str n] assms(4-7) h by simp
  ultimately show ?thesis
    using assms(1,8) unfolding handleExecEvent_in_def by (simp add: Let_def assms(3))
qed

section \<open>Properties\<close>

text \<open>
  \<open>copyData\<close> of an object that lies in \<open>n\<close> mapped words returns the child's bytes of all
  those words when the buffer has room for them; when it has room for \<open>len\<close> bytes only and
  \<open>len\<close> is not a multiple of eight, the last word is stored past the end of the buffer.
\<close>

theorem copyData_whole_words:
  assumes "mem_bytes (mem s p) addr (8 * n) = Some bs" "words n len" "0 < len"
  shows "copyData s p addr len buf =
    (if 8 * n \<le> length buf then Ret (True, bs @ drop (8 * n) buf, s\<lparr>errno := 0\<rparr>) else Fault Write_OOB)"
  using copyData_Ret [OF assms, of buf] copyData_overrun [of s p addr n len buf] assms bytes_mapped [OF assms(1)] by simp

definition sample_memory :: "u64 \<Rightarrow> byte option" where
  "sample_memory = mem_write (\<lambda>_. None) 0x1000 (replicate 16 0x41)"

definition sample_child :: sandbox where
  "sample_child = \<lparr>mem = \<lambda>_. sample_memory, errno = 0, main_pid = 7, entered_main = True,
     scratchAddr = 0x1000, nextScratchSegment = 0x1000\<rparr>"

lemma sample_bytes: "mem_bytes (mem sample_child p) 0x1000 16 = Some (replicate 16 0x41)"
  using mem_read_back [of "replicate 16 0x41" "\<lambda>_. None" "0x1000"] by (simp add: sample_child_def sample_memory_def)

theorem copyData_whole_words_witness:
  "copyData sample_child 7 0x1000 12 (replicate 12 0) = Fault Write_OOB"
  using copyData_whole_words [of sample_child 7 "0x1000" 2 "replicate 16 0x41" 12 "replicate 12 0"] sample_bytes
  by (simp add: words_def)

text \<open>
  C30. \<open>writeData\<close> stores exactly the bytes it is given: they are read back afterwards, and no
  other byte, and no other process, is changed, although whole words are written.
\<close>

theorem writeData_readback:
  assumes "mapped (mem s p) addr (8 * n)" "words n len" "0 < len" "len \<le> length buf" "8 * n \<le> 2 ^ 64"
  shows "\<exists>s'. writeData s p addr len buf = Ret (True, s') \<and> mem_bytes (mem s' p) addr len = Some (take len buf)
    \<and> (\<forall>q x. q \<noteq> p \<or> len \<le> unat (x - addr) \<longrightarrow> mem s' q x = mem s q x)"
proof -
  have "length (take len buf) = len" "len \<le> 2 ^ 64" using assms by (auto simp: words_def)
  then show ?thesis
    using writeData_Ret [OF assms] mem_read_back [of "take len buf" "mem s p" addr]
    by (auto simp: mem_write_elsewhere)
qed

theorem writeData_readback_witness:
  "\<exists>s'. writeData sample_child 7 0x1000 3 [0x78, 0x79, 0x7A] = Ret (True, s')
    \<and> mem_bytes (mem s' 7) 0x1000 3 = Some (take 3 [0x78, 0x79, 0x7A]) \<and> mem s' 7 0x1003 = mem sample_child 7 0x1003"
proof -
  have "mapped (mem sample_child 7) 0x1000 (8 * 1)"
    using bytes_mapped [OF sample_bytes [of 7]] mapped_part [of _ "0x1000" 16 0 8] by simp
  from writeData_readback [OF this, of 3 "[0x78, 0x79, 0x7A]"] show ?thesis by (auto simp: words_def)
qed

text \<open>
  C32. A string of the child that ends within the limit is copied up to its terminator; one that
  fills the limit (a multiple of eight) is copied without a terminator, and still \<open>copyString\<close>
  reports success, so that making a string of the buffer reads past its end.
\<close>

theorem copyString_result:
  assumes "0 \<notin> set str" "M = 8 * Suc n"
  shows "(length str < M \<longrightarrow> mem_bytes (mem s p) addr (8 * Suc (length str div 8)) = Some (str @ 0 # t) \<longrightarrow>
      (\<exists>buf. copyString s p addr M (replicate M 0) = Ret (True, buf, s\<lparr>errno := 0\<rparr>) \<and> string_of_buf buf = Ret str)) \<and>
    (mem_bytes (mem s p) addr M = Some str \<longrightarrow>
      copyString s p addr M (replicate M 0) = Ret (True, str, s\<lparr>errno := 0\<rparr>) \<and> string_of_buf str = Fault Read_OOB)"
proof (intro conjI impI)
  assume a: "length str < M" "mem_bytes (mem s p) addr (8 * Suc (length str div 8)) = Some (str @ 0 # t)"
  from copyString_Ret [OF assms(1) a(1) _ a(2), of "replicate M 0"] obtain buf where
    b: "copyString s p addr M (replicate M 0) = Ret (True, buf, s\<lparr>errno := 0\<rparr>)" "take (Suc (length str)) buf = str @ [0]"
    by auto
  have "buf = str @ 0 # drop (Suc (length str)) buf"
    using b(2) append_take_drop_id [of "Suc (length str)" buf] by simp
  moreover from this have "0 \<in> set buf" by (metis in_set_conv_decomp)
  ultimately have "string_of_buf buf = Ret str"
    unfolding string_of_buf_def using c_str_append [OF assms(1)] by metis
  with b(1) show "\<exists>buf. copyString s p addr M (replicate M 0) = Ret (True, buf, s\<lparr>errno := 0\<rparr>) \<and> string_of_buf buf = Ret str"
    by blast
next
  assume "mem_bytes (mem s p) addr M = Some str"
  then show "copyString s p addr M (replicate M 0) = Ret (True, str, s\<lparr>errno := 0\<rparr>)"
    using copyString_long [of s p addr n str "replicate M 0"] assms by simp
  show "string_of_buf str = Fault Read_OOB" using assms(1) by (simp add: string_of_buf_def)
qed

theorem copyString_result_witness:
  "copyString sample_child 7 0x1000 16 (replicate 16 0) = Ret (True, replicate 16 0x41, sample_child\<lparr>errno := 0\<rparr>)
    \<and> string_of_buf (replicate 16 0x41) = Fault Read_OOB"
proof -
  have "0 \<notin> set (replicate 16 (0x41 :: byte))" "16 = 8 * Suc 1" by simp_all
  from copyString_result [OF this, of sample_child 7 "0x1000" "[]"] sample_bytes [of 7] show ?thesis by blast
qed




text \<open>
  With \<open>argc\<close> a four-byte object, as the code has it, the same copy always stores outside
  the object, before anything else of the event is done.
\<close>

theorem handleExecEvent_overruns_argc:
  assumes "\<not> entered_main s" "mapped (mem s p) rsp 8"
  shows "handleExecEvent n rsp s p = Fault Write_OOB"
  using copyData_overrun [of "s\<lparr>entered_main := True\<rparr>" p rsp 1 4 "replicate 4 0"] assms
  by (simp add: handleExecEvent_def handleExecEvent_in_def Let_def words_def)

theorem handleExecEvent_overruns_argc_witness:
  "handleExecEvent 9 0x1000 (sample_child\<lparr>entered_main := False\<rparr>) 7 = Fault Write_OOB"
proof (rule handleExecEvent_overruns_argc)
  show "mapped (mem (sample_child\<lparr>entered_main := False\<rparr>) 7) 0x1000 8"
    using bytes_mapped [OF sample_bytes [of 7]] mapped_part [of _ "0x1000" 16 0 8] by simp
qed simp

section \<open>A child at its exec stop\<close>

definition exec_memory :: "u64 \<Rightarrow> byte option" where
  "exec_memory = mem_write (mem_write (\<lambda>_. None) 0x1000 (needle @ [0x21, 0]))
     0x2000 (to_le 8 0 @ to_le 8 0 @ to_le 8 0x1000 @ to_le 8 0)"

lemma exec_string: "string_at exec_memory 0x1000 (needle @ [0x21])"
proof -
  let ?stack = "to_le 8 0 @ to_le 8 0 @ to_le 8 0x1000 @ to_le 8 0"
  have "mem_bytes exec_memory 0x1000 24 = Some (needle @ [0x21, 0])"
  proof -
    have "bytes_from (mem_write (\<lambda>_. None) 0x1000 (needle @ [0x21, 0])) 0x1000 (needle @ [0x21, 0])"
      using mem_read_back [of "needle @ [0x21, 0]" "\<lambda>_. None" "0x1000"]
        bytes_from_mem_bytes [of _ "0x1000" "needle @ [0x21, 0]"] by simp
    from bytes_from_write_elsewhere [OF this, of "0x2000" ?stack]
    have "bytes_from exec_memory 0x1000 (needle @ [0x21, 0])" by (simp add: exec_memory_def)
    then show ?thesis using bytes_from_mem_bytes [of exec_memory "0x1000" "needle @ [0x21, 0]"] by simp
  qed
  then show ?thesis
    by (simp add: string_at_def)
qed


end
