(* ===== verification/VfsFacts.thy ===== *)
theory VfsFacts
  imports Vfs ChildMemoryFacts
begin

text \<open>
  What the system call handlers keep of the state and what they do to the table of virtual
  descriptors: the invariant that ties descriptors to file objects, the contract every handler
  meets, and the refinement of an abstract descriptor table.
\<close>

lemma arg_simps [simp]:
  "arg (c\<lparr>sys_id := i\<rparr>) n = arg c n" "arg (c\<lparr>returnVal := r\<rparr>) n = arg c n"
  "arg32 (c\<lparr>sys_id := i\<rparr>) n = arg32 c n" "arg32 (c\<lparr>returnVal := r\<rparr>) n = arg32 c n"
  by (simp_all add: arg_def arg32_def)

section \<open>The invariant\<close>

text \<open>
  The file objects are numbered in the order they were made, and the descriptor of each is
  computed from its number; an open descriptor refers to the object it belongs to.
\<close>

definition fd_of :: "nat \<Rightarrow> u32" where
  "fd_of a = of_nat (4096 + a)"

definition fd_inv :: "'w vfs \<Rightarrow> bool" where
  "fd_inv s \<longleftrightarrow>
     nextFD s = fd_of (length (files s)) \<and>
     (\<forall>a < length (files s). m_virtualFD (files s ! a) = fd_of a) \<and>
     (\<forall>k p. openFiles s k = Some p \<longrightarrow> (\<exists>a < length (files s). p = Some a \<and> k = fd_of a)) \<and>
     (\<forall>a. cwd s = Some a \<longrightarrow> a < length (files s))"

text \<open>What the descriptors stand for, the abstract state.\<close>

definition table :: "'w vfs \<Rightarrow> u32 \<Rightarrow> 'w File option" where
  "table s k = (case openFiles s k of Some (Some a) \<Rightarrow> Some (files s ! a) | _ \<Rightarrow> None)"

text \<open>\<open>keeps s s'\<close>: the invariant, the descriptors and the mounts are as they were.\<close>

definition keeps :: "'w vfs \<Rightarrow> 'w vfs \<Rightarrow> bool" where
  "keeps s s' \<longleftrightarrow> (fd_inv s \<longrightarrow> fd_inv s' \<and> table s' = table s \<and> mounts s' = mounts s \<and> length (files s) \<le> length (files s'))"

lemma keeps_refl [simp, intro]: "keeps s s"
  by (simp add: keeps_def)

lemma keeps_trans: "keeps s t \<Longrightarrow> keeps t u \<Longrightarrow> keeps s u"
  by (auto simp: keeps_def)

lemma keeps_sbox [simp]: "keeps s (s\<lparr>sbox := b\<rparr>)" "keeps s (s\<lparr>sbox := b, world := w\<rparr>)"
  by (auto simp: keeps_def fd_inv_def table_def fun_eq_iff split: option.split)

named_theorems kept \<open>what an operation keeps when it returns\<close>

lemma in_world_keeps [kept]: "in_world f s = Ret (r, s') \<Longrightarrow> keeps s s'"
  by (auto simp: in_world_def bindO_Ret_iff)

lemma write_child_keeps [kept]: "write_child c addr n buf s = Ret s' \<Longrightarrow> keeps s s'"
  by (auto simp: write_child_def bindO_Ret_iff)

lemma getFilename_keeps [kept]: "getFilename p addr s = Ret (str, s') \<Longrightarrow> keeps s s'"
  by (auto simp: getFilename_def bindO_Ret_iff)

lemma file_ops_keep [kept]:
  "file_read a buf s = Ret (x, s') \<Longrightarrow> keeps s s'"
  "file_fstat a buf s = Ret (z, s') \<Longrightarrow> keeps s s'"
  "file_getdents a buf n s = Ret (z, s') \<Longrightarrow> keeps s s'"
  "file_lseek a off whence s = Ret (y, s') \<Longrightarrow> keeps s s'"
  "file_write a buf s = Ret (y, s') \<Longrightarrow> keeps s s'"
  by (auto simp: file_read_def file_fstat_def file_getdents_def file_lseek_def file_write_def Let_def
      dest: in_world_keeps)

section \<open>Closing files\<close>

text \<open>The state but for the local descriptor of one file, that is set to -1, and the world.\<close>

definition closes :: "nat \<Rightarrow> 'w vfs \<Rightarrow> 'w vfs \<Rightarrow> bool" where
  "closes a s s' \<longleftrightarrow> (s' = s \<and> \<not> 0 <s m_localFD (files s ! a)) \<or>
     (\<exists>b w. s' = s\<lparr>sbox := b, world := w, files := (files s)[a := (files s ! a)\<lparr>m_localFD := -1\<rparr>]\<rparr>)"

lemma file_close_closes: "file_close a s = Ret (r, s') \<Longrightarrow> closes a s s'"
  by (auto simp: file_close_def closes_def in_world_def Let_def bindO_Ret_iff split: if_splits) (intro exI, rule refl)

lemma closes_fields:
  assumes "closes a s s'"
  shows "openFiles s' = openFiles s" "cwd s' = cwd s" "mounts s' = mounts s" "nextFD s' = nextFD s"
    "length (files s') = length (files s)" "i \<noteq> a \<Longrightarrow> files s' ! i = files s ! i"
    "m_virtualFD (files s' ! i) = m_virtualFD (files s ! i)"
proof -
  have "m_virtualFD ((files s)[a := (files s ! a)\<lparr>m_localFD := -1\<rparr>] ! i) = m_virtualFD (files s ! i)"
    by (cases "i = a"; cases "a < length (files s)") (auto simp: list_update_beyond)
  with assms show "openFiles s' = openFiles s" "cwd s' = cwd s" "mounts s' = mounts s" "nextFD s' = nextFD s"
    "length (files s') = length (files s)" "i \<noteq> a \<Longrightarrow> files s' ! i = files s ! i"
    "m_virtualFD (files s' ! i) = m_virtualFD (files s ! i)"
    by (auto simp: closes_def)
qed

lemma closes_inv: "closes a s s' \<Longrightarrow> fd_inv s \<Longrightarrow> fd_inv s'"
  by (simp add: fd_inv_def closes_fields)

lemma referenced_iff:
  "fd_inv s \<Longrightarrow> a < length (files s) \<Longrightarrow> referenced s a \<longleftrightarrow> openFiles s (fd_of a) = Some (Some a) \<or> cwd s = Some a"
  by (simp add: referenced_def fd_inv_def)

lemma closes_unreferenced_table:
  assumes "closes a s s'" "fd_inv s" "openFiles s (fd_of a) \<noteq> Some (Some a)"
  shows "table s' = table s"
proof
  fix k
  show "table s' k = table s k"
  proof (cases "openFiles s k")
    case (Some p)
    with assms(2) obtain b where "p = Some b" "k = fd_of b" unfolding fd_inv_def by blast
    with Some assms(3) have "b \<noteq> a" by auto
    with Some \<open>p = Some b\<close> closes_fields [OF assms(1)] show ?thesis by (simp add: table_def)
  qed (simp add: table_def closes_fields [OF assms(1)])
qed

lemma drop_ref_keeps [kept]:
  assumes "drop_ref p s = Ret s'" "\<forall>a. p = Some a \<longrightarrow> a < length (files s)"
  shows "keeps s s'"
proof (cases p)
  case (Some a)
  show ?thesis
    unfolding keeps_def
  proof
    assume inv: "fd_inv s"
    show "fd_inv s' \<and> table s' = table s \<and> mounts s' = mounts s \<and> length (files s) \<le> length (files s')"
    proof (cases "referenced s a")
      case False
      with assms Some obtain r where "file_close a s = Ret (r, s')" by (auto simp: drop_ref_def bindO_Ret_iff)
      then have c: "closes a s s'" by (rule file_close_closes)
      have "a < length (files s)" using assms(2) Some by simp
      then have "openFiles s (fd_of a) \<noteq> Some (Some a)" using False inv referenced_iff by blast
      with closes_unreferenced_table [OF c inv] closes_inv [OF c inv] closes_fields [OF c] show ?thesis by simp
    qed (use assms Some inv in \<open>auto simp: drop_ref_def\<close>)
  qed
qed (use assms in \<open>auto simp: drop_ref_def\<close>)

lemma drop_ref_length: "drop_ref p s = Ret s' \<Longrightarrow> length (files s') = length (files s)"
  by (auto simp: drop_ref_def bindO_Ret_iff closes_fields(5) split: if_splits option.splits dest!: file_close_closes)

section \<open>New files\<close>

lemma new_file_inv:
  assumes "new_file fd path fs s = (a, s')" "fd_inv s"
  shows "fd_inv s'" "table s' = table s" "mounts s' = mounts s" "length (files s') = Suc (length (files s))"
    "a = length (files s)" "files s' ! a = \<lparr>m_localFD = fd, m_virtualFD = fd_of a, m_path = path, m_fs = fs\<rparr>"
    "openFiles s' = openFiles s" "cwd s' = cwd s"
proof -
  from assms show len: "length (files s') = Suc (length (files s))" "a = length (files s)"
    "files s' ! a = \<lparr>m_localFD = fd, m_virtualFD = fd_of a, m_path = path, m_fs = fs\<rparr>"
    "openFiles s' = openFiles s" "cwd s' = cwd s" "mounts s' = mounts s"
    by (auto simp: new_file_def fd_inv_def)
  have old: "i < length (files s) \<Longrightarrow> files s' ! i = files s ! i" for i
    using assms by (auto simp: new_file_def nth_append)
  have "nextFD s' = fd_of (length (files s'))"
    using assms by (auto simp: new_file_def fd_inv_def fd_of_def)
  with assms(2) len old show "fd_inv s'" by (fastforce simp: fd_inv_def less_Suc_eq)
  show "table s' = table s"
  proof
    fix k
    show "table s' k = table s k"
    proof (cases "openFiles s k")
      case (Some p)
      with assms(2) obtain b where "p = Some b" "b < length (files s)" unfolding fd_inv_def by blast
      with Some old show ?thesis by (simp add: table_def len)
    qed (simp add: table_def len)
  qed
qed

lemma cwd_update_keeps: "a < length (files s) \<Longrightarrow> keeps s (s\<lparr>cwd := Some a\<rparr>)"
  by (auto simp: keeps_def fd_inv_def table_def fun_eq_iff split: option.split)

lemma setCWD_Ret:
  assumes "setCWD fname s = Ret (r, s')"
  defines "name \<equiv> if last fname = 0x2F then butlast fname else fname"
  shows "s' = s \<or> (\<exists>f path s1 fd. in_world (fs_open f path O_DIRECTORY 0) s = Ret (fd, s1) \<and>
    drop_ref (cwd s1) (snd (new_file fd name f s1)\<lparr>cwd := Some (fst (new_file fd name f s1))\<rparr>) = Ret s')"
  using assms(1) unfolding setCWD_def Let_def name_def [symmetric]
  by (auto simp: bindO_Ret_iff case_prod_beta new_file_def split: if_splits option.splits)

lemma setCWD_keeps [kept]:
  assumes "setCWD fname s = Ret (r, s')"
  shows "keeps s s'"
  using setCWD_Ret [OF assms]
proof (elim disjE exE conjE)
  fix f path s1 fd
  let ?name = "if last fname = 0x2F then butlast fname else fname"
  assume o: "in_world (fs_open f path O_DIRECTORY 0) s = Ret (fd, s1)"
    "drop_ref (cwd s1) (snd (new_file fd ?name f s1)\<lparr>cwd := Some (fst (new_file fd ?name f s1))\<rparr>) = Ret s'"
  obtain a s2 where n: "new_file fd ?name f s1 = (a, s2)" by (cases "new_file fd ?name f s1")
  have "keeps s1 s'"
    unfolding keeps_def
  proof
    assume inv: "fd_inv s1"
    note n = new_file_inv [OF n inv] n
    have "keeps s2 (s2\<lparr>cwd := Some a\<rparr>)" using n by (intro cwd_update_keeps) simp
    moreover have "keeps (s2\<lparr>cwd := Some a\<rparr>) s'"
      by (rule drop_ref_keeps [of "cwd s1"]) (use o(2) inv n in \<open>auto simp: fd_inv_def\<close>)
    ultimately have "keeps s2 s'" by (rule keeps_trans)
    with n show "fd_inv s' \<and> table s' = table s1 \<and> mounts s' = mounts s1 \<and> length (files s1) \<le> length (files s')"
      by (simp add: keeps_def)
  qed
  with in_world_keeps [OF o(1)] show "keeps s s'" by (rule keeps_trans)
qed simp

section \<open>The handlers that leave the descriptors alone\<close>

text \<open>
  The contract of a handler: the call keeps its arguments and its process, and is either passed
  on with its number or blocked with number -1; the invariant and the mounts are kept.
\<close>

definition passes_on :: "SyscallCall \<Rightarrow> SyscallCall \<Rightarrow> bool" where
  "passes_on c c' \<longleftrightarrow> args c' = args c \<and> call_pid c' = call_pid c \<and> (sys_id c' = sys_id c \<or> sys_id c' = -1)"

lemma passes_on_simps [simp]:
  "passes_on c c" "passes_on c (c\<lparr>returnVal := r\<rparr>)" "passes_on c (c\<lparr>sys_id := -1\<rparr>)" "passes_on c (c\<lparr>sys_id := -1, returnVal := r\<rparr>)"
  by (simp_all add: passes_on_def)

lemmas handler_simps = Let_def bindO_Ret_iff case_prod_beta

lemma do_read_keeps: "do_read c s = Ret (c', s') \<Longrightarrow> keeps s s' \<and> passes_on c c'"
  by (auto simp: do_read_def handler_simps split: if_splits option.splits dest!: kept) (blast intro: keeps_trans)+

lemma do_fstat_keeps: "do_fstat c s = Ret (c', s') \<Longrightarrow> keeps s s' \<and> passes_on c c'"
  by (auto simp: do_fstat_def handler_simps split: if_splits option.splits dest!: kept) (blast intro: keeps_trans)+

lemma do_write_keeps: "do_write c s = Ret (c', s') \<Longrightarrow> keeps s s' \<and> passes_on c c'"
  by (auto simp: do_write_def handler_simps split: if_splits option.splits dest!: kept intro: keeps_trans [OF keeps_sbox(1)])

lemma do_getdents_keeps: "do_getdents c s = Ret (c', s') \<Longrightarrow> keeps s s' \<and> passes_on c c'"
  by (auto simp: do_getdents_def handler_simps split: if_splits option.splits dest!: kept) (blast intro: keeps_trans)+

lemma do_lseek_keeps: "do_lseek c s = Ret (c', s') \<Longrightarrow> keeps s s' \<and> passes_on c c'"
  by (auto simp: do_lseek_def handler_simps split: if_splits option.splits dest!: kept)

lemma do_access_keeps: "do_access c s = Ret (c', s') \<Longrightarrow> keeps s s' \<and> passes_on c c'"
  by (auto simp: do_access_def handler_simps split: if_splits option.splits dest!: kept) (blast intro: keeps_trans)+

lemma do_readlink_keeps: "do_readlink c s = Ret (c', s') \<Longrightarrow> keeps s s' \<and> passes_on c c'"
  by (auto simp: do_readlink_def handler_simps split: if_splits option.splits dest!: kept) (blast intro: keeps_trans)+

lemma stat_path_keeps: "stat_path op c s = Ret (c', s') \<Longrightarrow> keeps s s' \<and> passes_on c c'"
  by (auto simp: stat_path_def handler_simps split: if_splits option.splits dest!: kept) (blast intro: keeps_trans)+

lemma do_chdir_keeps: "do_chdir c s = Ret (c', s') \<Longrightarrow> keeps s s' \<and> passes_on c c'"
  by (auto simp: do_chdir_def handler_simps dest!: kept) (blast intro: keeps_trans)+

lemma do_getcwd_keeps: "do_getcwd c s = Ret (c', s') \<Longrightarrow> keeps s s' \<and> passes_on c c'"
  by (auto simp: do_getcwd_def handler_simps dest!: kept)

lemma getFile_Ret:
  assumes "getFile s fd = Ret p" "fd_inv s"
  shows "isVirtualFD fd \<and> (\<exists>a < length (files s). p = Some a \<and> fd = fd_of a \<and> openFiles s fd = Some p)"
  using assms by (auto simp: getFile_def bindO_Ret_iff fd_inv_def split: option.splits)

lemma do_fchdir_keeps:
  assumes "do_fchdir c s = Ret (c', s')"
  shows "keeps s s' \<and> passes_on c c'"
proof
  from assms show "passes_on c c'" by (auto simp: do_fchdir_def handler_simps split: option.splits)
  show "keeps s s'"
    unfolding keeps_def
  proof
    assume inv: "fd_inv s"
    from assms obtain p where p: "getFile s (arg32 c 0) = Ret p" by (auto simp: do_fchdir_def bindO_Ret_iff)
    from getFile_Ret [OF this inv] obtain a where a: "a < length (files s)" "p = Some a" by blast
    with assms p have d: "drop_ref (cwd s) (s\<lparr>cwd := Some a\<rparr>) = Ret s'" by (auto simp: do_fchdir_def handler_simps)
    have "keeps (s\<lparr>cwd := Some a\<rparr>) s'"
      by (rule drop_ref_keeps [OF d]) (use inv in \<open>auto simp: fd_inv_def\<close>)
    from keeps_trans [OF cwd_update_keeps [OF a(1)] this] inv
    show "fd_inv s' \<and> table s' = table s \<and> mounts s' = mounts s \<and> length (files s) \<le> length (files s')"
      by (simp add: keeps_def)
  qed
qed

section \<open>Opening\<close>

text \<open>What opening does to the table: a fresh descriptor, for the path asked for, returned to the child.\<close>

definition opens :: "SyscallCall \<Rightarrow> byte list \<Rightarrow> 'w vfs \<Rightarrow> 'w vfs \<Rightarrow> bool" where
  "opens c fname s s' \<longleftrightarrow>
     fd_inv s' \<and> mounts s' = mounts s \<and> length (files s') = Suc (length (files s)) \<and>
     returnVal c = scast (fd_of (length (files s))) \<and>
     (if openFiles s (fd_of (length (files s))) = None
      then \<exists>F. table s' = (table s)(fd_of (length (files s)) \<mapsto> F) \<and> m_path F = fname
      else table s' = table s)"

lemma makeFile_inv:
  assumes "makeFile fd fname f s = (a, s')" "fd_inv s"
  defines "k \<equiv> fd_of (length (files s))"
  shows "fd_inv s'" "mounts s' = mounts s" "length (files s') = Suc (length (files s))" "a = length (files s)"
    "m_virtualFD (files s' ! a) = k" "cwd s' = cwd s"
    "openFiles s k = None \<Longrightarrow> openFiles s' k = Some (Some a) \<and>
       table s' = (table s)(k \<mapsto> \<lparr>m_localFD = fd, m_virtualFD = k, m_path = fname, m_fs = f\<rparr>)"
    "openFiles s k \<noteq> None \<Longrightarrow> openFiles s' = openFiles s \<and> table s' = table s"
proof -
  obtain s1 where n0: "new_file fd fname f s = (a, s1)" using assms(1) by (auto simp: makeFile_def Let_def split: prod.splits)
  note n = new_file_inv [OF n0 assms(2)]
  have s': "s' = (if openFiles s k = None then s1\<lparr>openFiles := (openFiles s1)(k \<mapsto> Some a)\<rparr> else s1)"
    using assms(1) n0 n by (auto simp: makeFile_def k_def Let_def)
  have "fd_inv (s1\<lparr>openFiles := (openFiles s1)(k \<mapsto> Some a)\<rparr>)"
    using n(1,4,5) by (auto simp: fd_inv_def k_def)
  with n s' show "fd_inv s'" by simp
  show "openFiles s k = None \<Longrightarrow> openFiles s' k = Some (Some a) \<and>
      table s' = (table s)(k \<mapsto> \<lparr>m_localFD = fd, m_virtualFD = k, m_path = fname, m_fs = f\<rparr>)"
  proof
    assume "openFiles s k = None"
    with s' have u: "s' = s1\<lparr>openFiles := (openFiles s1)(k \<mapsto> Some a)\<rparr>" by simp
    then show "openFiles s' k = Some (Some a)" by simp
    have "table s' j = (if j = k then Some (files s1 ! a) else table s1 j)" for j
      by (simp add: u table_def split: option.split)
    then show "table s' = (table s)(k \<mapsto> \<lparr>m_localFD = fd, m_virtualFD = k, m_path = fname, m_fs = f\<rparr>)"
      using n by (auto simp: k_def)
  qed
  show "mounts s' = mounts s" "length (files s') = Suc (length (files s))" "a = length (files s)"
    "m_virtualFD (files s' ! a) = k" "cwd s' = cwd s"
    using n s' by (simp_all add: k_def)
  show "openFiles s k \<noteq> None \<Longrightarrow> openFiles s' = openFiles s \<and> table s' = table s"
    using n s' by (simp split: if_splits)
qed

lemma openFile_Ret:
  assumes "openFile c fname flags mode s = Ret (c', s')" "fd_inv s"
  shows "passes_on c c' \<and> (if isWhitelisted fname then c' = c \<and> s' = s
    else sys_id c' = -1 \<and> (keeps s s' \<or> (\<exists>s1. keeps s s1 \<and> opens c' fname s1 s')))"
proof (cases "isWhitelisted fname")
  case True
  with assms show ?thesis by (simp add: openFile_def)
next
  case False
  with assms(1) obtain path fs where fs: "getFilesystem s fname = Ret (path, fs)"
    by (auto simp: openFile_def Let_def bindO_Ret_iff)
  show ?thesis
  proof (cases fs)
    case None
    with assms(1) False fs show ?thesis by (auto simp: openFile_def Let_def)
  next
    case (Some f)
    with assms(1) False fs obtain fd s1 where o: "in_world (fs_open f path flags mode) s = Ret (fd, s1)"
      by (auto simp: openFile_def Let_def bindO_Ret_iff)
    then have k: "keeps s s1" by (rule in_world_keeps)
    with assms(2) have inv: "fd_inv s1" by (simp add: keeps_def)
    show ?thesis
    proof (cases "fd = 0")
      case True
      with assms(1) False fs Some o k show ?thesis by (auto simp: openFile_def Let_def)
    next
      case fd: False
      obtain a s2 where m: "makeFile fd fname f s1 = (a, s2)" by (cases "makeFile fd fname f s1")
      note n = makeFile_inv [OF m inv]
      from assms(1) False fs Some o fd m n have d: "drop_ref (Some a) s2 = Ret s'"
        and c': "c' = c\<lparr>sys_id := -1, returnVal := scast (fd_of (length (files s1)))\<rparr>"
        by (auto simp: openFile_def Let_def bindO_Ret_iff)
      have "keeps s2 s'" using drop_ref_keeps [OF d] n by simp
      moreover have "length (files s') = length (files s2)"
        using d by (rule drop_ref_length)
      ultimately have "opens c' fname s1 s'" using n c' by (auto simp: opens_def keeps_def)
      with c' k False show ?thesis by auto
    qed
  qed
qed

lemma opens_keeps_inv: "opens c fname s s' \<Longrightarrow> fd_inv s' \<and> mounts s' = mounts s \<and> length (files s) \<le> length (files s')"
  by (simp add: opens_def)

section \<open>Closing\<close>

lemma do_close_Ret:
  assumes "do_close c s = Ret (c', s')" "fd_inv s" "isVirtualFD (arg32 c 0)"
  shows "fd_inv s' \<and> mounts s' = mounts s \<and> length (files s') = length (files s) \<and>
    table s' = (table s)(arg32 c 0 := None) \<and> passes_on c c' \<and> sys_id c' = -1"
proof -
  let ?k = "arg32 c 0"
  from assms obtain p where p: "getFile s ?k = Ret p" by (auto simp: do_close_def Let_def bindO_Ret_iff)
  from getFile_Ret [OF this assms(2)] obtain a where
    a: "a < length (files s)" "p = Some a" "?k = fd_of a" "openFiles s ?k = Some (Some a)" by blast
  with assms p obtain r s1 where c: "file_close a s = Ret (r, s1)" by (auto simp: do_close_def Let_def bindO_Ret_iff)
  note cl = file_close_closes [OF c]
  note inv1 = closes_inv [OF cl assms(2)]
  have v: "m_virtualFD (files s1 ! a) = fd_of a" using inv1 a(1) closes_fields(5) [OF cl] by (simp add: fd_inv_def)
  let ?s = "s1\<lparr>openFiles := (openFiles s1)(?k := None)\<rparr>"
  from assms p a c v have d: "drop_ref (Some a) ?s = Ret s'" and c': "c' = c\<lparr>sys_id := -1, returnVal := scast r\<rparr>"
    by (auto simp: do_close_def Let_def bindO_Ret_iff)
  have inv: "fd_inv ?s" using inv1 by (auto simp: fd_inv_def)
  have "table ?s j = (if j = ?k then None else table s j)" for j
  proof (cases "openFiles s j")
    case (Some q)
    with assms(2) obtain b where b: "q = Some b" "j = fd_of b" unfolding fd_inv_def by blast
    show ?thesis
    proof (cases "j = ?k")
      case False
      with b a(3) have "b \<noteq> a" by auto
      with False Some b closes_fields [OF cl] show ?thesis by (simp add: table_def)
    qed (simp add: table_def)
  qed (simp add: table_def closes_fields [OF cl])
  then have t: "table ?s = (table s)(?k := None)" by auto
  have "keeps ?s s'" using drop_ref_keeps [OF d] a closes_fields(5) [OF cl] by simp
  moreover have "length (files s') = length (files ?s)"
    using d by (rule drop_ref_length)
  ultimately show ?thesis using inv t c' closes_fields [OF cl] by (auto simp: keeps_def)
qed

section \<open>The contract of a handler\<close>

text \<open>A sequence of calls, as they arrive one after the other.\<close>

fun run :: "'w handler \<Rightarrow> SyscallCall list \<Rightarrow> 'w vfs \<Rightarrow> (SyscallCall list \<times> 'w vfs) outcome" where
  "run h [] s = Ret ([], s)"
| "run h (c # cs) s = bindO (h c s) (\<lambda>(c', s). bindO (run h cs s) (\<lambda>(cs', s). Ret (c' # cs', s)))"

locale handler =
  fixes h :: "SyscallCall \<Rightarrow> 'w vfs \<Rightarrow> (SyscallCall \<times> 'w vfs) outcome"
  assumes inv: "h c s = Ret (c', s') \<Longrightarrow> fd_inv s \<Longrightarrow>
      fd_inv s' \<and> mounts s' = mounts s \<and> length (files s) \<le> length (files s')"
    and passes: "h c s = Ret (c', s') \<Longrightarrow> fd_inv s \<Longrightarrow> passes_on c c'"
begin

lemma run_inv:
  "run h cs s = Ret (cs', s') \<Longrightarrow> fd_inv s \<Longrightarrow> fd_inv s' \<and> mounts s' = mounts s \<and> list_all2 passes_on cs cs'"
proof (induction cs arbitrary: s cs')
  case (Cons c cs)
  from Cons.prems(1) obtain c1 s1 cs1 where r: "h c s = Ret (c1, s1)" "run h cs s1 = Ret (cs1, s')" "cs' = c1 # cs1"
    by (auto simp: bindO_Ret_iff)
  from inv [OF r(1) Cons.prems(2)] passes [OF r(1) Cons.prems(2)] Cons.IH [OF r(2)] r(3) show ?case by simp
qed simp

end

locale table_handler = handler +
  assumes table: "h c s = Ret (c', s') \<Longrightarrow> fd_inv s \<Longrightarrow> table s' = table s"
begin

lemma run_table: "run h cs s = Ret (cs', s') \<Longrightarrow> fd_inv s \<Longrightarrow> table s' = table s"
proof (induction cs arbitrary: s cs')
  case (Cons c cs)
  from Cons.prems(1) obtain c1 s1 cs1 where r: "h c s = Ret (c1, s1)" "run h cs s1 = Ret (cs1, s')"
    by (auto simp: bindO_Ret_iff)
  from inv [OF r(1) Cons.prems(2)] have "fd_inv s1" by simp
  with Cons.IH [OF r(2)] table [OF r(1) Cons.prems(2)] show ?case by simp
qed simp

end

lemma table_handlerI:
  assumes "\<And>c s c' s'. h c s = Ret (c', s') \<Longrightarrow> keeps s s' \<and> passes_on c c'"
  shows "table_handler h"
  using assms by unfold_locales (auto simp: keeps_def)

interpretation read_call: table_handler do_read by (rule table_handlerI) (rule do_read_keeps)
interpretation fstat_call: table_handler do_fstat by (rule table_handlerI) (rule do_fstat_keeps)
interpretation write_call: table_handler do_write by (rule table_handlerI) (rule do_write_keeps)
interpretation getdents_call: table_handler do_getdents by (rule table_handlerI) (rule do_getdents_keeps)
interpretation lseek_call: table_handler do_lseek by (rule table_handlerI) (rule do_lseek_keeps)
interpretation access_call: table_handler do_access by (rule table_handlerI) (rule do_access_keeps)
interpretation readlink_call: table_handler do_readlink by (rule table_handlerI) (rule do_readlink_keeps)
interpretation stat_call: table_handler do_stat by (rule table_handlerI) (simp add: do_stat_def stat_path_keeps)
interpretation lstat_call: table_handler do_lstat by (rule table_handlerI) (simp add: do_lstat_def stat_path_keeps)
interpretation chdir_call: table_handler do_chdir by (rule table_handlerI) (rule do_chdir_keeps)
interpretation fchdir_call: table_handler do_fchdir by (rule table_handlerI) (rule do_fchdir_keeps)
interpretation getcwd_call: table_handler do_getcwd by (rule table_handlerI) (rule do_getcwd_keeps)

lemma do_open_Ret:
  assumes "do_open c s = Ret (c', s')" "fd_inv s"
  shows "\<exists>fname s1. getFilename (call_pid c) (arg c 0) s = Ret (fname, s1) \<and> passes_on c c' \<and>
    (if isWhitelisted fname then c' = c \<and> s' = s1
     else sys_id c' = -1 \<and> (keeps s s' \<or> (\<exists>s2. keeps s s2 \<and> opens c' fname s2 s')))"
proof -
  from assms obtain fname s1 where f: "getFilename (call_pid c) (arg c 0) s = Ret (fname, s1)"
    "openFile c fname (arg32 c 1) (arg32 c 2) s1 = Ret (c', s')" by (auto simp: do_open_def bindO_Ret_iff)
  from getFilename_keeps [OF f(1)] have k: "keeps s s1" .
  with assms(2) have "fd_inv s1" by (simp add: keeps_def)
  from openFile_Ret [OF f(2) this] f(1) keeps_trans [OF k] show ?thesis by (auto split: if_splits)
qed

lemma do_openat_Ret:
  assumes "do_openat c s = Ret (c', s')" "fd_inv s"
  shows "\<exists>fname s1. keeps s s1 \<and> passes_on c c' \<and>
    (if isWhitelisted fname then c' = c \<and> s' = s1
     else sys_id c' = -1 \<and> (keeps s s' \<or> (\<exists>s2. keeps s s2 \<and> opens c' fname s2 s')))"
proof -
  from assms obtain str fname s1 where f: "getFilename (call_pid c) (arg c 1) s = Ret (str, s1)"
    "openFile c fname (arg32 c 2) (arg32 c 3) s1 = Ret (c', s')" by (auto simp: do_openat_def bindO_Ret_iff)
  from getFilename_keeps [OF f(1)] have k: "keeps s s1" .
  with assms(2) have "fd_inv s1" by (simp add: keeps_def)
  from openFile_Ret [OF f(2) this] k keeps_trans [OF k] show ?thesis by (auto split: if_splits)
qed

interpretation open_call: handler do_open
proof
  fix c s c' s' assume "do_open c s = Ret (c', s')" "fd_inv s"
  from do_open_Ret [OF this] \<open>fd_inv s\<close>
  show "fd_inv s' \<and> mounts s' = mounts s \<and> length (files s) \<le> length (files s')" "passes_on c c'"
    by (auto simp: keeps_def opens_def split: if_splits dest!: getFilename_keeps)
qed

interpretation openat_call: handler do_openat
proof
  fix c s c' s' assume "do_openat c s = Ret (c', s')" "fd_inv s"
  from do_openat_Ret [OF this] \<open>fd_inv s\<close>
  show "fd_inv s' \<and> mounts s' = mounts s \<and> length (files s) \<le> length (files s')" "passes_on c c'"
    by (auto simp: keeps_def opens_def split: if_splits)
qed

interpretation close_call: handler do_close
proof
  fix c s c' s' assume *: "do_close c s = Ret (c', s')" "fd_inv s"
  show "fd_inv s' \<and> mounts s' = mounts s \<and> length (files s) \<le> length (files s')"
    using do_close_Ret [OF *] * by (cases "isVirtualFD (arg32 c 0)") (simp_all add: do_close_def)
  show "passes_on c c'"
    using do_close_Ret [OF *] * by (cases "isVirtualFD (arg32 c 0)") (simp_all add: do_close_def)
qed

lemmas handlers_inv = open_call.inv openat_call.inv close_call.inv read_call.inv fstat_call.inv write_call.inv
  getdents_call.inv lseek_call.inv access_call.inv readlink_call.inv stat_call.inv lstat_call.inv chdir_call.inv
  fchdir_call.inv getcwd_call.inv

lemmas handlers_pass = open_call.passes openat_call.passes close_call.passes read_call.passes fstat_call.passes
  write_call.passes getdents_call.passes lseek_call.passes access_call.passes readlink_call.passes
  stat_call.passes lstat_call.passes chdir_call.passes fchdir_call.passes getcwd_call.passes

lemmas handlers_table = read_call.table fstat_call.table write_call.table getdents_call.table lseek_call.table
  access_call.table readlink_call.table stat_call.table lstat_call.table chdir_call.table getcwd_call.table

text \<open>The dispatcher meets the contract because every handler does.\<close>

interpretation vfs_calls: handler handleSyscall
proof
  fix c s c' s' assume *: "handleSyscall c s = Ret (c', s')" "fd_inv s"
  show "fd_inv s' \<and> mounts s' = mounts s \<and> length (files s) \<le> length (files s')"
    using * unfolding handleSyscall_def by (auto split: if_splits dest: handlers_inv [OF _ *(2)])
  show "passes_on c c'"
    using *(1) unfolding handleSyscall_def by (auto split: if_splits dest: handlers_pass [OF _ *(2)])
qed

section \<open>The table refines a descriptor table\<close>

text \<open>
  The abstract operation of each system call on the descriptors: closing removes one, opening
  adds a fresh virtual one or fails, and nothing else changes them.
\<close>

definition table_spec :: "SyscallCall \<Rightarrow> SyscallCall \<Rightarrow> (u32 \<Rightarrow> 'f option) \<Rightarrow> (u32 \<Rightarrow> 'f option) \<Rightarrow> bool" where
  "table_spec c c' t t' \<longleftrightarrow>
     (if sys_id c = 3 \<and> isVirtualFD (arg32 c 0) then t' = t(arg32 c 0 := None)
      else if sys_id c = 2 \<or> sys_id c = 257 then
        t' = t \<or> (\<exists>k F. isVirtualFD k \<and> t k = None \<and> t' = t(k \<mapsto> F) \<and> returnVal c' = scast k \<and> sys_id c' = -1)
      else t' = t)"

text \<open>Fewer than \<open>2 ^ 31 - 4096\<close> files made: the counter has not wrapped.\<close>

definition max_files :: nat where
  "max_files = 2 ^ 31 - 4096"

lemma unat_fd_of: "a \<le> max_files \<Longrightarrow> unat (fd_of a) = 4096 + a"
  unfolding fd_of_def by (simp add: max_files_def unat_of_nat take_bit_nat_eq_self del: of_nat_add)

lemma fd_of_inject: "a \<le> max_files \<Longrightarrow> b \<le> max_files \<Longrightarrow> fd_of a = fd_of b \<Longrightarrow> a = b"
  by (metis unat_fd_of add_left_cancel)

lemma fd_of_virtual:
  assumes "a < max_files"
  shows "isVirtualFD (fd_of a)"
proof -
  have "4096 + a < 2147483648" using assms by (simp add: max_files_def)
  with assms have "sint (fd_of a) = int (4096 + a)"
    using unat_fd_of [of a] by (simp add: sint_uint signed_take_bit_int_eq_self uint_nat)
  then show ?thesis by (simp add: isVirtualFD_def firstVirtualFD_def word_sle_eq)
qed

lemma next_fd_fresh:
  assumes "fd_inv s" "length (files s) < max_files"
  shows "openFiles s (fd_of (length (files s))) = None"
proof (rule ccontr)
  assume "openFiles s (fd_of (length (files s))) \<noteq> None"
  then obtain p where "openFiles s (fd_of (length (files s))) = Some p" by auto
  with assms(1) obtain a where a: "a < length (files s)" "fd_of (length (files s)) = fd_of a" unfolding fd_inv_def by blast
  with fd_of_inject [of "length (files s)" a] assms(2) show False by simp
qed

lemma opens_table:
  assumes "keeps s s2" "opens c' fname s2 s'" "fd_inv s" "length (files s') \<le> max_files"
  shows "\<exists>k F. isVirtualFD k \<and> table s k = None \<and> table s' = (table s)(k \<mapsto> F) \<and> returnVal c' = scast k"
proof -
  let ?k = "fd_of (length (files s2))"
  from assms(1,3) have s2: "fd_inv s2" "table s2 = table s" by (simp_all add: keeps_def)
  from assms(2,4) have l: "length (files s2) < max_files" by (simp add: opens_def)
  note fresh = next_fd_fresh [OF s2(1) l]
  from assms(2) fresh obtain F where "table s' = (table s)(?k \<mapsto> F)" "returnVal c' = scast ?k"
    by (auto simp: opens_def s2(2))
  moreover have "table s ?k = None" using fresh s2(2) [symmetric] by (simp add: table_def)
  ultimately show ?thesis using fd_of_virtual [OF l] by blast
qed

lemma handleSyscall_table:
  assumes "handleSyscall c s = Ret (c', s')" "fd_inv s" "length (files s') \<le> max_files"
  shows "table_spec c c' (table s) (table s')"
proof -
  consider "sys_id c = 2" | "sys_id c = 257" | "sys_id c = 3" | "sys_id c \<noteq> 2" "sys_id c \<noteq> 257" "sys_id c \<noteq> 3" by blast
  then show ?thesis
  proof cases
    case 1
    with assms(1) have "do_open c s = Ret (c', s')" by (simp add: handleSyscall_def)
    from do_open_Ret [OF this assms(2)] assms(2) opens_table [OF _ _ assms(2,3)] 1
    show ?thesis unfolding table_spec_def by (auto simp: keeps_def split: if_splits dest!: getFilename_keeps)
  next
    case 2
    with assms(1) have "do_openat c s = Ret (c', s')" by (simp add: handleSyscall_def)
    from do_openat_Ret [OF this assms(2)] assms(2) opens_table [OF _ _ assms(2,3)] 2
    show ?thesis unfolding table_spec_def by (auto simp: keeps_def split: if_splits)
  next
    case 3
    with assms(1) have c: "do_close c s = Ret (c', s')" by (simp add: handleSyscall_def)
    show ?thesis
    proof (cases "isVirtualFD (arg32 c 0)")
      case True
      from do_close_Ret [OF c assms(2) True] 3 True show ?thesis by (simp add: table_spec_def)
    next
      case False
      with c 3 show ?thesis by (simp add: table_spec_def do_close_def)
    qed
  next
    case 4
    have "table s' = table s"
      using 4 assms(1,2) unfolding handleSyscall_def by (auto split: if_splits dest: handlers_table)
    with 4 show ?thesis by (simp add: table_spec_def)
  qed
qed

section \<open>Mounts\<close>

text \<open>\<open>std::map::insert\<close> as a map: an entry that is there stays; the keys stay in order.\<close>

lemma map_insert_keys: "set (map fst (map_insert k v ms)) = insert k (set (map fst ms))"
  by (induction k v ms rule: map_insert.induct) auto

lemma map_insert_sorted: "sorted_wrt (<) (map fst ms) \<Longrightarrow> sorted_wrt (<) (map fst (map_insert k v ms))"
proof (induction k v ms rule: map_insert.induct)
  case (2 k v k' v' ms)
  have "\<forall>x\<in>set (map fst (map_insert k v ms)). k' < x" if "k' < k"
    using that 2(2) unfolding map_insert_keys by auto
  with 2 show ?case by (auto intro: order.strict_trans)
qed simp

lemma map_insert_map_of:
  "sorted_wrt (<) (map fst ms) \<Longrightarrow>
    map_of (map_insert k v ms) = (if k \<in> dom (map_of ms) then map_of ms else (map_of ms)(k \<mapsto> v))"
proof (induction k v ms rule: map_insert.induct)
  case (2 k v k' v' ms)
  have "map_of ms k = None" if "k < k'" using that 2(2) by (force simp: map_of_eq_None_iff)
  with 2 show ?case by (auto simp: fun_eq_iff dom_def)
qed simp

lemma strict_prefix_less:
  assumes "strict_prefix xs (ys :: byte list)"
  shows "xs < ys"
proof -
  from assms obtain z zs where "ys = xs @ z # zs" by (auto elim: strict_prefixE')
  then show ?thesis by (simp add: list_less_def lexord_append_rightI)
qed

text \<open>Of the mounts a path lies below, the first in the order of keys is the shortest.\<close>

lemma find_mount_Ret:
  assumes "sorted_wrt (<) (map fst ms)" "find_mount p ms = Ret (q, fs)"
  shows "(q = [] \<and> fs = None \<and> (\<forall>(k, _)\<in>set ms. \<not> prefix k p)) \<or>
    (\<exists>k. (k, fs) \<in> set ms \<and> k \<noteq> [] \<and> prefix k p \<and> q = drop (length k - 1) p \<and>
      (\<forall>(k', _)\<in>set ms. prefix k' p \<longrightarrow> prefix k k'))"
  using assms
proof (induction p ms rule: find_mount.induct)
  case (2 p k f ms)
  have pre: "take (length k) p = k \<longleftrightarrow> prefix k p" by (metis append_eq_conv_conj prefix_def)
  show ?case
  proof (cases "prefix k p")
    case True
    have "prefix k k'" if "(k', x) \<in> set ms" "prefix k' p" for k' x
    proof -
      from that(1) 2(2) have "k < k'" by force
      moreover from prefix_same_cases [OF that(2) True] have "prefix k' k \<or> prefix k k'" by blast
      ultimately show ?thesis
        using strict_prefix_less [of k' k] by (auto simp: strict_prefix_def dest: less_asym)
    qed
    with True 2(3) pre show ?thesis by (auto split: if_splits)
  next
    case False
    with 2(3) pre have f: "find_mount p ms = Ret (q, fs)" by simp
    have "sorted_wrt (<) (map fst ms)" using 2(2) by simp
    from 2(1) [OF _ this f] False pre have "(q = [] \<and> fs = None \<and> (\<forall>(k, _)\<in>set ms. \<not> prefix k p)) \<or>
      (\<exists>k. (k, fs) \<in> set ms \<and> k \<noteq> [] \<and> prefix k p \<and> q = drop (length k - 1) p \<and>
        (\<forall>(k', _)\<in>set ms. prefix k' p \<longrightarrow> prefix k k'))" by blast
    then show ?thesis
    proof (elim disjE exE conjE)
      fix k' assume "(k', fs) \<in> set ms" "k' \<noteq> []" "prefix k' p" "q = drop (length k' - 1) p"
        "\<forall>(k'', _)\<in>set ms. prefix k'' p \<longrightarrow> prefix k' k''"
      with False show ?thesis by (intro disjI2 exI [of _ k']) simp
    qed (use False in simp)
  qed
qed simp

section \<open>Reachable states\<close>

text \<open>
  What happens to a VFS: file systems are mounted, the working directory is set, system calls
  arrive, and in between the child, the outside world and \<open>errno\<close> change as they like.
\<close>

inductive reachable :: "'w vfs \<Rightarrow> bool" where
  start: "reachable (mk_vfs b w junk)"
| mount: "reachable s \<Longrightarrow> reachable (mountFilesystem path fs s)"
| set_cwd: "reachable s \<Longrightarrow> setCWD fname s = Ret (r, s') \<Longrightarrow> reachable s'"
| call: "reachable s \<Longrightarrow> handleSyscall c s = Ret (c', s') \<Longrightarrow> reachable s'"
| outside: "reachable s \<Longrightarrow> reachable (s\<lparr>sbox := b, world := w\<rparr>)"

definition vfs_ok :: "'w vfs \<Rightarrow> bool" where
  "vfs_ok s \<longleftrightarrow> fd_inv s \<and> sorted_wrt (<) (map fst (mounts s))"

lemma vfs_ok_start: "vfs_ok (mk_vfs b w junk)"
  by (simp add: vfs_ok_def fd_inv_def mk_vfs_def fd_of_def firstVirtualFD_def)

lemma vfs_ok_keeps: "vfs_ok s \<Longrightarrow> keeps s s' \<Longrightarrow> vfs_ok s'"
  by (simp add: vfs_ok_def keeps_def)

lemma vfs_ok_mount: "vfs_ok s \<Longrightarrow> vfs_ok (mountFilesystem path fs s)"
  by (simp add: vfs_ok_def mountFilesystem_def map_insert_sorted fd_inv_def)

lemma reachable_vfs_ok: "reachable s \<Longrightarrow> vfs_ok s"
proof (induction rule: reachable.induct)
  case (call s c c' s')
  then show ?case using vfs_calls.inv by (auto simp: vfs_ok_def)
next
  case (set_cwd s fname r s')
  show ?case by (rule vfs_ok_keeps [OF set_cwd.IH setCWD_keeps [OF set_cwd.hyps(2)]])
next
  case (outside s b w)
  show ?case by (rule vfs_ok_keeps [OF outside.IH keeps_sbox(2)])
qed (simp_all add: vfs_ok_start vfs_ok_mount)

section \<open>Further facts about the handlers\<close>

lemma fd_calls_passed_on:
  assumes "\<not> isVirtualFD (arg32 c 0)" "sys_id c \<in> {0, 1, 3, 5, 8, 78}"
  shows "handleSyscall c s = Ret (c, s)"
  using assms
  by (auto simp: handleSyscall_def do_read_def do_write_def do_close_def do_fstat_def do_lseek_def do_getdents_def)

lemma fd_calls_blocked:
  assumes "isVirtualFD (arg32 c 0)" "sys_id c \<in> {0, 1, 3, 5, 8, 78}" "handleSyscall c s = Ret (c', s')"
  shows "sys_id c' = -1"
proof -
  have "do_read c s = Ret (c', s') \<Longrightarrow> sys_id c' = -1" "do_write c s = Ret (c', s') \<Longrightarrow> sys_id c' = -1"
    "do_close c s = Ret (c', s') \<Longrightarrow> sys_id c' = -1" "do_fstat c s = Ret (c', s') \<Longrightarrow> sys_id c' = -1"
    "do_lseek c s = Ret (c', s') \<Longrightarrow> sys_id c' = -1" "do_getdents c s = Ret (c', s') \<Longrightarrow> sys_id c' = -1"
    using assms(1)
    by (auto simp: do_read_def do_write_def do_close_def do_fstat_def do_lseek_def do_getdents_def
        handler_simps split: if_splits option.splits)
  with assms(2,3) show ?thesis by (auto simp: handleSyscall_def)
qed

lemma getFile_unknown: "isVirtualFD fd \<Longrightarrow> openFiles s fd = None \<Longrightarrow> getFile s fd = Fault Cxx_exception"
  by (simp add: getFile_def)

text \<open>The guard the handlers of paths share.\<close>

lemma path_guard:
  assumes "bindO (getFilename p a s) (\<lambda>(fname, s). if \<not> isWhitelisted fname then body fname s else Ret (c, s)) = Ret (c', s')"
    and "\<And>fname s1. body fname s1 = Ret (c', s') \<Longrightarrow> sys_id c' = -1"
  shows "\<exists>fname s1. getFilename p a s = Ret (fname, s1) \<and> (if isWhitelisted fname then c' = c \<and> s' = s1 else sys_id c' = -1)"
proof -
  from assms(1) obtain fname s1 where g: "getFilename p a s = Ret (fname, s1)"
    "(if \<not> isWhitelisted fname then body fname s1 else Ret (c, s1)) = Ret (c', s')" by (auto simp: bindO_Ret_iff)
  with assms(2) show ?thesis by (cases "isWhitelisted fname") auto
qed

lemma path_handler_Ret:
  assumes "do_access c s = Ret (c', s') \<or> do_readlink c s = Ret (c', s') \<or> stat_path op c s = Ret (c', s')"
  shows "\<exists>fname s1. getFilename (call_pid c) (arg c 0) s = Ret (fname, s1) \<and>
    (if isWhitelisted fname then c' = c \<and> s' = s1 else sys_id c' = -1)"
  using assms
proof (elim disjE)
  assume h: "do_access c s = Ret (c', s')"
  show ?thesis
    by (rule path_guard [OF h [unfolded do_access_def]]) (auto simp: handler_simps split: option.splits)
next
  assume h: "do_readlink c s = Ret (c', s')"
  show ?thesis
    by (rule path_guard [OF h [unfolded do_readlink_def]]) (auto simp: handler_simps split: option.splits)
next
  assume h: "stat_path op c s = Ret (c', s')"
  show ?thesis
    by (rule path_guard [OF h [unfolded stat_path_def]]) (auto simp: handler_simps split: option.splits if_splits)
qed

lemma path_calls:
  assumes "sys_id c \<in> {2, 21, 4, 6, 89}" "handleSyscall c s = Ret (c', s')" "fd_inv s"
  shows "\<exists>fname s1. getFilename (call_pid c) (arg c 0) s = Ret (fname, s1) \<and>
    (if isWhitelisted fname then c' = c \<and> s' = s1 else sys_id c' = -1)"
proof -
  from assms(1,2) consider "do_open c s = Ret (c', s')"
    | "do_access c s = Ret (c', s') \<or> do_readlink c s = Ret (c', s') \<or> stat_path fs_stat c s = Ret (c', s')"
    | "do_access c s = Ret (c', s') \<or> do_readlink c s = Ret (c', s') \<or> stat_path fs_lstat c s = Ret (c', s')"
    by (auto simp: handleSyscall_def do_stat_def do_lstat_def)
  then show ?thesis
  proof cases
    case 1
    from do_open_Ret [OF this assms(3)] show ?thesis by (auto split: if_splits)
  qed (rule path_handler_Ret, assumption)+
qed

lemma file_close_twice:
  assumes "file_close a s = Ret (r, s')" "a < length (files s)"
  shows "file_close a s' = Ret (- EBADF, s')"
proof -
  have "\<not> 0 <s m_localFD (files s' ! a)"
    using file_close_closes [OF assms(1)] assms(2) by (auto simp: closes_def word_sless_alt)
  then show ?thesis by (simp add: file_close_def)
qed

lemma getFilesystem_absolute: "first_char p \<noteq> 0x2E \<Longrightarrow> getFilesystem s p = find_mount p (mounts s)"
  by (simp add: getFilesystem_def)

lemma getFilename_string:
  assumes "string_at (mem (sbox s) p) a str"
  shows "getFilename p a s = Ret (str, s\<lparr>sbox := (sbox s)\<lparr>errno := 0\<rparr>\<rparr>)"
proof -
  from copyString_string_at [OF assms, of 0] obtain buf where
    b: "copyString (sbox s) p a 1024 (replicate 1024 0) = Ret (True, buf, (sbox s)\<lparr>errno := 0\<rparr>)"
    "take (Suc (length str)) buf = str @ [0]" by auto
  have "buf = str @ 0 # drop (Suc (length str)) buf"
    using b(2) append_take_drop_id [of "Suc (length str)" buf] by simp
  moreover have "0 \<notin> set str" using assms by (simp add: string_at_def)
  ultimately have "string_of_buf buf = Ret str"
    unfolding string_of_buf_def using c_str_append in_set_conv_decomp by metis
  with b(1) show ?thesis by (simp add: getFilename_def)
qed

section \<open>A sample file system\<close>

text \<open>A file system that opens everything and is empty; the witnesses below evaluate on it.\<close>

definition sample_fs :: "unit filesystem" where
  "sample_fs = \<lparr>fs_open = \<lambda>_ _ _ os. Ret (3, os), fs_read = \<lambda>_ buf os. Ret ((0, buf), os), fs_close = \<lambda>_ os. Ret (0, os),
     fs_fstat = \<lambda>_ buf os. Ret ((0, buf), os), fs_getdents = \<lambda>_ buf _ os. Ret ((0, buf), os),
     fs_lseek = \<lambda>_ _ _ os. Ret (0, os), fs_write = \<lambda>_ buf os. Ret (of_nat (length buf), os),
     fs_access = \<lambda>_ _ os. Ret (0, os), fs_stat = \<lambda>_ buf os. Ret ((0, buf), os), fs_lstat = \<lambda>_ buf os. Ret ((0, buf), os),
     fs_readlink = \<lambda>_ buf os. Ret ((0, buf), os)\<rparr>"

definition no_child :: sandbox where
  "no_child = \<lparr>mem = \<lambda>_ _. None, errno = 0, main_pid = 7, entered_main = True, scratchAddr = 0, nextScratchSegment = 0\<rparr>"

text \<open>One mount, and one open file, that has descriptor 4096.\<close>

definition sample_vfs :: "unit vfs" where
  "sample_vfs = \<lparr>sbox = no_child, world = (), files = [\<lparr>m_localFD = 3, m_virtualFD = 4096, m_path = ascii ''/x'', m_fs = sample_fs\<rparr>],
     openFiles = \<lambda>k. if k = 4096 then Some (Some 0) else None, cwd = None, mounts = [(ascii ''/'', Some sample_fs)],
     nextFD = 4097, stat_junk = replicate 144 0\<rparr>"

definition sample_call :: "u64 \<Rightarrow> u64 \<Rightarrow> SyscallCall" where
  "sample_call i a = \<lparr>sys_id = i, args = [a, 0, 0, 0, 0, 0], returnVal = 0, call_pid = 7\<rparr>"

lemma sample_vfs_inv: "fd_inv sample_vfs"
  by (auto simp: fd_inv_def sample_vfs_def fd_of_def)

definition exec_child :: sandbox where
  "exec_child = no_child\<lparr>mem := \<lambda>_. exec_memory\<rparr>"

lemma sample_virtual: "isVirtualFD 4096" "\<not> isVirtualFD 5"
  by (simp_all add: isVirtualFD_def firstVirtualFD_def word_sle_eq)

lemma sample_lseek:
  "handleSyscall (sample_call 8 4096) sample_vfs = Ret ((sample_call 8 4096)\<lparr>sys_id := -1, returnVal := 0\<rparr>, sample_vfs)"
  using sample_virtual(1)
  by (simp add: handleSyscall_def do_lseek_def sample_call_def arg32_def arg_def getFile_def sample_vfs_def
      file_lseek_def in_world_def sample_fs_def no_child_def)

lemma sample_close:
  "\<exists>s'. handleSyscall (sample_call 3 4096) sample_vfs = Ret ((sample_call 3 4096)\<lparr>sys_id := -1, returnVal := 0\<rparr>, s')
    \<and> length (files s') = 1"
  using sample_virtual(1)
  by (simp add: handleSyscall_def do_close_def sample_call_def arg32_def arg_def getFile_def sample_vfs_def
      file_close_def in_world_def sample_fs_def no_child_def drop_ref_def referenced_def word_sless_alt EBADF_def)

section \<open>Properties\<close>





text \<open>
  C8. Whatever is mounted and whatever calls arrive, in every reachable state each open
  descriptor belongs to a file object made for it and no pointer in the table is null, the
  working directory is a file object, and the mounts are in the order of their keys.
\<close>

theorem reachable_invariant:
  assumes "reachable s"
  shows "fd_inv s \<and> sorted_wrt (<) (map fst (mounts s)) \<and> (\<forall>k. openFiles s k \<noteq> Some None)"
  using reachable_vfs_ok [OF assms] by (auto simp: vfs_ok_def fd_inv_def)

theorem reachable_invariant_witness:
  "fd_inv (mk_vfs no_child () []) \<and> sorted_wrt (<) (map fst (mounts (mk_vfs no_child () []))) \<and>
    (\<forall>k. openFiles (mk_vfs no_child () []) k \<noteq> Some None)"
  by (rule reachable_invariant) (rule reachable.start)



text \<open>
  A sequence of calls keeps the invariant and the mounts, and each call keeps its arguments
  and its process and either its number or none.
\<close>

theorem calls_pass_on:
  assumes "run handleSyscall cs s = Ret (cs', s')" "fd_inv s"
  shows "fd_inv s' \<and> mounts s' = mounts s \<and> list_all2 passes_on cs cs'"
  using assms by (rule vfs_calls.run_inv)

theorem calls_pass_on_witness:
  "fd_inv sample_vfs \<and> mounts sample_vfs = mounts sample_vfs \<and>
    list_all2 passes_on [sample_call 8 4096] [(sample_call 8 4096)\<lparr>sys_id := -1, returnVal := 0\<rparr>]"
  by (rule calls_pass_on [OF _ sample_vfs_inv]) (simp add: sample_lseek)

text \<open>
  The file system of a path is that of the shortest mount point it lies below, although the
  code speaks of the longest, and the rest of the path keeps the last character of the mount.
\<close>

theorem getFilesystem_shortest_mount:
  assumes "sorted_wrt (<) (map fst (mounts s))" "first_char p \<noteq> 0x2E" "getFilesystem s p = Ret (q, Some fs)"
  shows "\<exists>k. (k, Some fs) \<in> set (mounts s) \<and> prefix k p \<and> q = drop (length k - 1) p \<and>
    (\<forall>(k', _)\<in>set (mounts s). prefix k' p \<longrightarrow> length k \<le> length k')"
  using find_mount_Ret [OF assms(1), of p q "Some fs"] assms(2,3)
  by (fastforce simp: getFilesystem_absolute dest: prefix_length_le)

text \<open>Two mounts, one below the other.\<close>

definition two_mounts :: "unit vfs" where
  "two_mounts = mountFilesystem (ascii ''/'') (Some sample_fs)
     (mountFilesystem (ascii ''/a/'') (Some (sample_fs\<lparr>fs_close := \<lambda>_ os. Ret (-1, os)\<rparr>)) (mk_vfs no_child () []))"

theorem getFilesystem_shortest_mount_witness:
  "\<exists>k. (k, Some sample_fs) \<in> set (mounts two_mounts) \<and> prefix k (ascii ''/a/b'') \<and> ascii ''/a/b'' = drop (length k - 1) (ascii ''/a/b'')"
proof -
  have "reachable two_mounts" unfolding two_mounts_def by (intro reachable.intros)
  then have sorted: "sorted_wrt (<) (map fst (mounts two_mounts))" using reachable_vfs_ok by (auto simp: vfs_ok_def)
  have "ascii ''/'' < ascii ''/a/''" by (simp add: ascii_def strict_prefix_less)
  then have "ascii ''/'' < ascii ''/a/''" "\<not> ascii ''/a/'' < ascii ''/''" "ascii ''/a/'' \<noteq> ascii ''/''" by auto
  then have m: "mounts two_mounts =
      [(ascii ''/'', Some sample_fs), (ascii ''/a/'', Some (sample_fs\<lparr>fs_close := \<lambda>_ os. Ret (-1, os)\<rparr>))]"
    by (auto simp: two_mounts_def mountFilesystem_def mk_vfs_def)
  have "getFilesystem two_mounts (ascii ''/a/b'') = Ret (ascii ''/a/b'', Some sample_fs)"
    by (simp add: getFilesystem_absolute m ascii_def first_char_def)
  from getFilesystem_shortest_mount [OF sorted _ this] show ?thesis by (auto simp: ascii_def first_char_def)
qed

text \<open>
  A call on a virtual descriptor that is not open does not fail with an error code: the
  look-up throws, and nothing in the VFS catches it.
\<close>

theorem unknown_descriptor_throws:
  assumes "sys_id c \<in> {0, 1, 3, 5, 8, 78}" "isVirtualFD (arg32 c 0)" "openFiles s (arg32 c 0) = None"
  shows "handleSyscall c s = Fault Cxx_exception"
  using assms getFile_unknown [OF assms(2,3)]
  by (auto simp: handleSyscall_def do_read_def do_write_def do_close_def do_fstat_def do_lseek_def do_getdents_def Let_def)

theorem unknown_descriptor_throws_witness:
  "handleSyscall (sample_call 3 4096) (mk_vfs no_child () []) = Fault Cxx_exception"
  by (rule unknown_descriptor_throws) (use sample_virtual in \<open>simp_all add: sample_call_def arg32_def arg_def mk_vfs_def\<close>)

text \<open>
  A \<open>write\<close> on an open virtual descriptor whose size is not a multiple of eight stores
  outside the buffer that was allocated for it.
\<close>

theorem do_write_overruns:
  assumes "sys_id c = 1" "isVirtualFD (arg32 c 0)" "openFiles s (arg32 c 0) = Some (Some a)"
    and "unat (arg c 2) < 2 ^ 63" "unat (arg c 2) mod 8 \<noteq> 0"
    and "mapped (mem (sbox s) (call_pid c)) (arg c 1) (8 * ((unat (arg c 2) + 7) div 8))"
  shows "handleSyscall c s = Fault Write_OOB"
proof -
  let ?n = "unat (arg c 2)"
  have "?n \<le> 8 * ((?n + 7) div 8)" using words_exist [of ?n] by (simp add: words_def)
  moreover have "?n \<noteq> 8 * ((?n + 7) div 8)" using assms(5) by (metis mod_mult_self1_is_0)
  ultimately have "?n < 8 * ((?n + 7) div 8)" by simp
  with copyData_overrun [OF assms(6) words_exist, of "replicate ?n 0"]
  have "copyData (sbox s) (call_pid c) (arg c 1) ?n (replicate ?n 0) = Fault Write_OOB" by simp
  with assms(1-4) show ?thesis
    by (simp add: handleSyscall_def do_write_def getFile_def char_vector_def)
qed

theorem do_write_overruns_witness:
  "handleSyscall \<lparr>sys_id = 1, args = [4096, 0x1000, 3, 0, 0, 0], returnVal = 0, call_pid = 7\<rparr> (sample_vfs\<lparr>sbox := sample_child\<rparr>)
    = Fault Write_OOB"
proof (rule do_write_overruns [where a = 0])
  let ?c = "\<lparr>sys_id = 1, args = [4096, 0x1000, 3, 0, 0, 0], returnVal = 0, call_pid = 7\<rparr>"
  show "mapped (mem (sbox (sample_vfs\<lparr>sbox := sample_child\<rparr>)) (call_pid ?c)) (arg ?c 1) (8 * ((unat (arg ?c 2) + 7) div 8))"
    using bytes_mapped [OF sample_bytes [of 7]] mapped_part [of _ "0x1000" 16 0 8] by (simp add: arg_def)
qed (use sample_virtual in \<open>simp_all add: arg32_def arg_def sample_vfs_def\<close>)

text \<open>
  A file object is closed once: a second close, by the child or by the destructor, fails
  with \<open>EBADF\<close> and reaches neither the file system nor the state.
\<close>

theorem file_closed_once:
  assumes "file_close a s = Ret (r, s')" "a < length (files s)"
  shows "file_close a s' = Ret (- EBADF, s')"
  using assms by (rule file_close_twice)

theorem file_closed_once_witness:
  "\<exists>s'. file_close 0 sample_vfs = Ret (0, s') \<and> file_close 0 s' = Ret (- EBADF, s')"
proof -
  obtain s' where "file_close 0 sample_vfs = Ret (0, s')"
    by (simp add: file_close_def sample_vfs_def in_world_def sample_fs_def word_sless_alt)
  with file_closed_once [OF this] show ?thesis by (simp add: sample_vfs_def)
qed

end
