(* ===== verification/FilesystemsFacts.thy ===== *)
theory FilesystemsFacts
  imports Filesystems VfsFacts
begin

text \<open>
  How the two file systems behave below the VFS: which errors of the script get lost on the way
  to the child, when a buffer is overrun, that successive reads deliver a file in order, and
  what the listing of a directory contains.
\<close>

section \<open>Calls on a file of the script\<close>

text \<open>The answer of the script to a read of a buffer, and the state it is given.\<close>

definition read_answer :: "('v, 'w) engine \<Rightarrow> u32 \<Rightarrow> nat \<Rightarrow> 'w node_os \<Rightarrow> (u32 \<times> 'v) \<times> 'w node_os" where
  "read_answer E fd n os =
     doVFS E ''read'' [JInt fd, JInt (of_nat n), JInt (fst (offset fd os))] (snd (offset fd os))"

lemma node_read_error:
  assumes "read_answer E fd (length buf) os = ((e, v), os')" "e \<noteq> 0"
  shows "node_read E fd buf os = Ret ((scast (- e), buf), os')"
  using assms by (simp add: node_read_def read_answer_def case_prod_beta Let_def)

lemma node_read_string:
  assumes "read_answer E fd (length buf) os = ((0, v), os')" "length (write_utf8 E v (length buf)) \<le> length buf"
  shows "node_read E fd buf os =
    Ret ((scast (of_nat (length (utf8 E v)) :: u32), write_utf8 E v (length buf) @ drop (length (write_utf8 E v (length buf))) buf),
      set_offset fd (fst (offset fd os') + of_nat (length (utf8 E v))) (snd (offset fd os')))"
  using assms by (simp add: node_read_def read_answer_def case_prod_beta Let_def store_at_def)

lemma scast_neg: "0 <s e \<Longrightarrow> \<not> 0 \<le>s (scast (- (e :: u32)) :: u64)"
proof -
  assume "0 <s e"
  then have e: "0 < sint e" by (simp add: word_sless_alt)
  have "sint e < 2 ^ 31" using sint_lt [of e] by simp
  with e have "sint (- e) = - sint e"
    by (simp add: signed_take_bit_int_eq_self sint_word_ariths)
  moreover have "sint (scast (- e) :: u64) = sint (- e)" by (rule sint_up_scast) (simp add: is_up)
  ultimately show ?thesis using e by (simp add: word_sle_eq)
qed

lemma scast_small:
  assumes "n < 2 ^ 31"
  shows "unat (scast (of_nat n :: u32) :: u64) = n" "0 \<le>s (scast (of_nat n :: u32) :: u64)"
    "scast (of_nat n :: u32) = (of_nat n :: u64)"
proof -
  have u: "sint (of_nat n :: u32) = int n"
    using assms by (simp add: signed_of_nat signed_take_bit_int_eq_self)
  have s: "sint (scast (of_nat n :: u32) :: u64) = int n"
    using sint_up_scast [of "of_nat n :: u32", where ?'b = 64] u by (simp add: is_up)
  then show "0 \<le>s (scast (of_nat n :: u32) :: u64)" by (simp add: word_sle_eq)
  show e: "scast (of_nat n :: u32) = (of_nat n :: u64)" unfolding scast_eq u by simp
  from e show "unat (scast (of_nat n :: u32) :: u64) = n" using assms by (simp add: unat_small)
qed

lemma do_read_node:
  assumes "isVirtualFD (arg32 c 0)" "openFiles s (arg32 c 0) = Some (Some a)" "unat (arg c 2) = n" "n < 2 ^ 63"
    and "m_fs (files s ! a) = node_filesystem E"
  shows "do_read c s =
    bindO (in_world (node_read E (m_localFD (files s ! a)) (replicate n 0)) s) (\<lambda>((readCount, buf), s).
      if 0 \<le>s readCount
      then bindO (write_child (c\<lparr>sys_id := -1\<rparr>) (arg (c\<lparr>sys_id := -1\<rparr>) 1) (unat readCount) buf s) (\<lambda>s. done_with (c\<lparr>sys_id := -1\<rparr>) readCount s)
      else done_with (c\<lparr>sys_id := -1\<rparr>) (neg (errno (sbox s))) s)"
  using assms by (simp add: do_read_def getFile_def char_vector_def file_read_def node_filesystem_def Let_def)

section \<open>Reading a file piece by piece\<close>

text \<open>
  A script that serves the bytes of one file, ASCII text: it answers a read of \<open>n\<close> bytes at an
  offset with that part of the file, which \<open>WriteUtf8\<close> stores as it is.
\<close>

definition serves :: "('v, 'w) engine \<Rightarrow> byte list \<Rightarrow> bool" where
  "serves E content \<longleftrightarrow> (\<forall>fd n off os. \<exists>v os'.
     doVFS E ''read'' [JInt fd, JInt n, JInt off] os = ((0, v), os') \<and>
     utf8 E v = take (unat n) (drop (unat off) content) \<and> (\<forall>m. write_utf8 E v m = take m (utf8 E v)))"

fun node_reads :: "('v, 'w) engine \<Rightarrow> u32 \<Rightarrow> nat list \<Rightarrow> 'w node_os \<Rightarrow> (byte list list \<times> 'w node_os) outcome" where
  "node_reads E fd [] os = Ret ([], os)"
| "node_reads E fd (n # ns) os =
     bindO (node_read E fd (replicate n 0) os) (\<lambda>((r, buf), os).
     bindO (node_reads E fd ns os) (\<lambda>(bufs, os). Ret (take (unat r) buf # bufs, os)))"

definition position :: "u32 \<Rightarrow> 'w node_os \<Rightarrow> u32" where
  "position fd os = fst (offset fd os)"

lemma position_set [simp]: "position fd (set_offset fd off os) = off"
  by (simp add: position_def offset_def set_offset_def)

text \<open>What the script serves at the position, with the position left as it is.\<close>

lemma read_answer_serves:
  assumes "serves E content" "unat (position fd os) = p" "n < 2 ^ 31"
  obtains v os1 where "read_answer E fd n os = ((0, v), os1)" "utf8 E v = take n (drop p content)"
    "\<And>m. write_utf8 E v m = take m (utf8 E v)" "position fd os1 = position fd os"
proof -
  have n: "unat (of_nat n :: u32) = n" using assms(3) by (simp add: unat_of_nat take_bit_nat_eq_self)
  from assms(1) obtain v os1 where v: "read_answer E fd n os = ((0, v), os1)"
    "utf8 E v = take n (drop p content)" "\<And>m. write_utf8 E v m = take m (utf8 E v)"
    unfolding serves_def read_answer_def position_def [symmetric] using n assms(2) by metis
  have "m_offsets (snd os1) = m_offsets (snd (snd (offset fd os)))"
    by (rule doVFS_keeps_offsets [OF v(1) [unfolded read_answer_def]])
  then have "position fd os1 = position fd os" by (auto simp: position_def offset_def split: option.splits)
  with v that show ?thesis by blast
qed

lemma node_read_serves:
  assumes "serves E content" "unat (position fd os) = p" "p \<le> length content" "length content < 2 ^ 31" "n < 2 ^ 31"
  shows "\<exists>r buf os'. node_read E fd (replicate n 0) os = Ret ((r, buf), os') \<and>
    take (unat r) buf = take n (drop p content) \<and> unat (position fd os') = p + length (take n (drop p content)) \<and>
    r = of_nat (length (take n (drop p content))) \<and> length buf = n"
proof -
  define off where "off = position fd os"
  obtain v os' where v: "read_answer E fd n os = ((0, v), os')" "utf8 E v = take n (drop p content)"
    "\<And>m. write_utf8 E v m = take m (utf8 E v)" "position fd os' = off"
    using read_answer_serves [OF assms(1,2,5)] unfolding off_def by metis
  define w where "w = take n (drop p content)"
  have w: "length w \<le> n" "length w < 2 ^ 31" "p + length w \<le> length content" using assms by (auto simp: w_def)
  note v = v [folded w_def]
  have r: "node_read E fd (replicate n 0) os =
      Ret ((scast (of_nat (length w) :: u32), w @ drop (length w) (replicate n 0)),
        set_offset fd (fst (offset fd os') + of_nat (length w)) (snd (offset fd os')))"
    using node_read_string [of E fd "replicate n 0" os v os'] v w(1) by simp
  have "fst (offset fd os') = off" using v(4) by (simp add: position_def)
  moreover have "unat (off + of_nat (length w)) = p + length w"
  proof -
    have "off + of_nat (length w) = of_nat (p + length w)" using assms(2) by (auto simp: off_def)
    moreover have "p + length w < 2 ^ 32" using w(3) assms(4) by simp
    ultimately show ?thesis by (simp only: unat_of_nat) (simp add: take_bit_nat_eq_self)
  qed
  ultimately show ?thesis using r scast_small(1,3) [OF w(2)] w(1) unfolding w_def [symmetric] by auto
qed

lemma node_reads_serves:
  assumes "serves E content" "length content < 2 ^ 31" "\<forall>n\<in>set ns. n < 2 ^ 31"
  shows "unat (position fd os) = p \<Longrightarrow> p \<le> length content \<Longrightarrow>
    \<exists>bufs os'. node_reads E fd ns os = Ret (bufs, os') \<and> concat bufs = take (sum_list ns) (drop p content)"
  using assms(3)
proof (induction ns arbitrary: os p)
  case (Cons n ns)
  from node_read_serves [OF assms(1) Cons.prems(1,2) assms(2), of n] Cons.prems(3) obtain r buf os1 where
    r: "node_read E fd (replicate n 0) os = Ret ((r, buf), os1)" "take (unat r) buf = take n (drop p content)"
      "unat (position fd os1) = p + length (take n (drop p content))" by auto
  let ?q = "p + length (take n (drop p content))"
  have "?q \<le> length content" using Cons.prems(2) by simp
  from Cons.IH [OF r(3) this] Cons.prems(3) obtain bufs os' where
    b: "node_reads E fd ns os1 = Ret (bufs, os')" "concat bufs = take (sum_list ns) (drop ?q content)" by auto
  have "drop ?q content = drop n (drop p content)" by (cases "n \<le> length content - p") (auto simp: add.commute min_def)
  then have "take n (drop p content) @ concat bufs = take (n + sum_list ns) (drop p content)"
    using b(2) by (simp only: take_add)
  with r b(1) show ?case by simp
qed simp

section \<open>Directory listings\<close>

lemma node_getdents_listing:
  assumes "doVFS E ''getdents'' [JInt fd] os = ((0, v), os')" "\<forall>x\<in>set (elements E v). length (c_str (utf8 E x @ [0])) \<le> 65508"
  defines "es \<equiv> dir_names E v"
  defines "listing \<equiv> concat (map (\<lambda>(ino, off, name, ty). dirent_bytes ino off name ty) (entries_from 256 1 es))"
  shows "node_getdents E fd dirs count os =
    (if length listing \<le> length dirs then Ret ((of_nat (length listing), listing @ drop (length listing) dirs), os')
     else Fault Write_OOB)"
    and "read_all (length es) listing = Some (entries_from 256 1 es)"
proof -
  have "name_ok (c_str (utf8 E x @ [0]))" if "x \<in> set (elements E v)" for x
    using that assms(2) by (auto simp: name_ok_def c_str_def dest: set_takeWhileD)
  then have ok: "list_all (\<lambda>(name, _). name_ok name) es" by (simp add: es_def dir_names_def list_all_iff)
  from append_all_listing [OF ok, of "mk_builder 1"] obtain b where
    "append_all es (mk_builder 1) = Ret b" "m_buf b = listing" by (auto simp: mk_builder_def listing_def)
  then show "node_getdents E fd dirs count os =
    (if length listing \<le> length dirs then Ret ((of_nat (length listing), listing @ drop (length listing) dirs), os')
     else Fault Write_OOB)"
    using assms(1) by (simp add: node_getdents_def es_def store_at_def)
  show "read_all (length es) listing = Some (entries_from 256 1 es)"
    unfolding listing_def by (rule read_all_listing [OF ok])
qed

section \<open>Opening a file of the script\<close>

lemma openFile_node_error:
  assumes "\<not> isWhitelisted fname" "getFilesystem s fname = Ret (path, Some (node_filesystem E))" "fd_inv s"
    and "length (files s) < max_files"
    and "doVFS E ''open'' [JString path, JInt flags, JInt mode] (errno (sbox s), world s) = ((e, v), os')" "e \<noteq> 0"
  shows "\<exists>c' s' k. openFile c fname flags mode s = Ret (c', s') \<and> isVirtualFD k \<and> returnVal c' = scast k \<and> table s' k \<noteq> None"
proof -
  let ?s1 = "s\<lparr>sbox := (sbox s)\<lparr>errno := fst os'\<rparr>, world := snd os'\<rparr>" and ?f = "node_filesystem E"
  let ?k = "fd_of (length (files s))"
  have o: "in_world (fs_open ?f path flags mode) s = Ret (- e, ?s1)"
    using assms(5,6) by (simp add: in_world_def node_filesystem_def node_open_def case_prod_beta)
  have "keeps s ?s1" by (rule keeps_sbox(2))
  with assms(3) have inv: "fd_inv ?s1" by (simp add: keeps_def)
  obtain a s2 where m: "makeFile (- e) fname ?f ?s1 = (a, s2)" by (cases "makeFile (- e) fname ?f ?s1")
  note n = makeFile_inv [OF m inv]
  have "openFiles ?s1 ?k = None" using next_fd_fresh [OF inv] assms(4) by simp
  with n(4-7) have t: "openFiles s2 ?k = Some (Some a)" "table s2 ?k \<noteq> None" "m_virtualFD (files s2 ! a) = ?k" by auto
  then have "drop_ref (Some a) s2 = Ret s2" by (simp add: drop_ref_def referenced_def)
  then have "openFile c fname flags mode s = Ret (c\<lparr>sys_id := -1, returnVal := scast ?k\<rparr>, s2)"
    using assms(1,2,6) o m t by (simp add: openFile_def Let_def)
  with t fd_of_virtual [OF assms(4)] show ?thesis by fastforce
qed

section \<open>A scripted engine\<close>

text \<open>Values, and an engine whose script gives every call the same answer.\<close>

datatype js_value = VUndefined | VInt u32 | VString "byte list" | VAnswer u32 js_value | VArray "js_value list"

fun value_text :: "js_value \<Rightarrow> byte list" where
  "value_text (VString bs) = bs"
| "value_text _ = []"

fun value_int :: "js_value \<Rightarrow> u32" where
  "value_int (VInt n) = n"
| "value_int _ = 0"

fun value_property :: "js_value \<Rightarrow> string \<Rightarrow> js_value" where
  "value_property (VAnswer e v) name = (if name = ''error'' then VInt e else v)"
| "value_property _ _ = VUndefined"

fun value_elements :: "js_value \<Rightarrow> js_value list" where
  "value_elements (VArray vs) = vs"
| "value_elements _ = []"

definition answering :: "(string \<Rightarrow> js_arg list \<Rightarrow> js_value) \<Rightarrow> (js_value, unit) engine" where
  "answering script =
     \<lparr>is_object = \<lambda>v. \<exists>e x. v = VAnswer e x, to_int32 = value_int, utf8 = value_text, property = value_property,
      elements = value_elements, write_utf8 = \<lambda>v n. take n (value_text v), write_utf8_nul = \<lambda>v n. take n (value_text v @ [0]),
      undefined_value = VUndefined, onVFS = \<lambda>name argv os. (script name argv, os)\<rparr>"

lemma answering_doVFS:
  "script name argv = VAnswer e v \<Longrightarrow> doVFS (answering script) name argv os = ((e, v), os)"
  by (cases os; cases "snd os") (auto simp: doVFS_def answering_def)

lemma answering_simps [simp]:
  "utf8 (answering script) = value_text" "elements (answering script) = value_elements"
  "write_utf8 (answering script) v n = take n (value_text v)"
  by (simp_all add: answering_def)

text \<open>A script that serves a file, and one that refuses everything.\<close>

fun file_script :: "byte list \<Rightarrow> string \<Rightarrow> js_arg list \<Rightarrow> js_value" where
  "file_script content name [JInt fd, JInt n, JInt off] = VAnswer 0 (VString (take (unat n) (drop (unat off) content)))"
| "file_script content name _ = VUndefined"

lemma file_script_serves: "serves (answering (file_script content)) content"
  unfolding serves_def by (intro allI) (simp add: answering_doVFS)

definition start_os :: "unit node_os" where
  "start_os = (0, \<lparr>js_state = (), m_offsets = \<lambda>_. None\<rparr>)"

definition script_vfs :: "(string \<Rightarrow> js_arg list \<Rightarrow> js_value) \<Rightarrow> unit node_world vfs" where
  "script_vfs script = \<lparr>sbox = exec_child, world = snd start_os,
     files = [\<lparr>m_localFD = 3, m_virtualFD = 4096, m_path = ascii ''/x'', m_fs = node_filesystem (answering script)\<rparr>],
     openFiles = \<lambda>k. if k = 4096 then Some (Some 0) else None, cwd = None,
     mounts = [(ascii ''/'', Some (node_filesystem (answering script)))], nextFD = 4097, stat_junk = replicate 144 0\<rparr>"

section \<open>Properties\<close>

text \<open>
  C36. Reading a file of the script piece by piece: the chunks of successive reads, put one
  behind the other, are the bytes of the file from the current offset on, and no byte is
  delivered twice or left out.
\<close>

theorem node_reads_in_order:
  assumes "serves E content" "length content < 2 ^ 31" "\<forall>n\<in>set ns. n < 2 ^ 31"
    and "unat (position fd os) \<le> length content"
  shows "\<exists>bufs os'. node_reads E fd ns os = Ret (bufs, os') \<and>
    concat bufs = take (sum_list ns) (drop (unat (position fd os)) content)"
  using node_reads_serves [OF assms(1-3) refl assms(4)] .

theorem node_reads_in_order_witness:
  "\<exists>bufs os'. node_reads (answering (file_script (ascii ''hello''))) 3 [2, 2, 9] start_os = Ret (bufs, os') \<and>
    concat bufs = take (sum_list [2, 2, 9]) (drop (unat (position 3 start_os)) (ascii ''hello''))"
  by (rule node_reads_in_order [OF file_script_serves])
    (simp_all add: ascii_def position_def offset_def start_os_def)

text \<open>
  \<open>getdents\<close> stores a listing that a reader walks back into the names the script gave, when
  it fits the child's buffer; when it does not, the size that was asked for is ignored and the
  listing is stored past the end of the buffer.
\<close>

theorem node_getdents_result:
  assumes "doVFS E ''getdents'' [JInt fd] os = ((0, v), os')" "\<forall>x\<in>set (elements E v). length (c_str (utf8 E x @ [0])) \<le> 65508"
  shows "\<exists>listing. read_all (length (elements E v)) listing = Some (entries_from 256 1 (dir_names E v)) \<and>
    node_getdents E fd dirs count os =
      (if length listing \<le> length dirs then Ret ((of_nat (length listing), listing @ drop (length listing) dirs), os')
       else Fault Write_OOB)"
  using node_getdents_listing(1) [OF assms, of dirs count] node_getdents_listing(2) [OF assms]
  by (auto simp: dir_names_def)

theorem node_getdents_result_witness:
  "\<exists>listing. read_all 1 listing = Some (entries_from 256 1 [([0x61], Regular)]) \<and>
    node_getdents (answering (\<lambda>_ _. VAnswer 0 (VArray [VString [0x61]]))) 3 [] 0 start_os =
      (if length listing \<le> length ([] :: byte list)
       then Ret ((of_nat (length listing), listing @ drop (length listing) []), start_os) else Fault Write_OOB)"
  using node_getdents_result [where E = "answering (\<lambda>_ _. VAnswer 0 (VArray [VString [0x61]]))" and fd = 3 and os = start_os
      and os' = start_os and v = "VArray [VString [0x61]]" and dirs = "[]" and count = 0]
  by (simp add: answering_doVFS c_str_def dir_names_def)

text \<open>
  An error of the script on a read gets lost: the VFS takes the code from \<open>errno\<close>, that the
  script does not set, and the child sees the end of the file.
\<close>

theorem read_error_is_end_of_file:
  assumes "sys_id c = 0" "isVirtualFD (arg32 c 0)" "openFiles s (arg32 c 0) = Some (Some a)" "unat (arg c 2) < 2 ^ 63"
    and "m_fs (files s ! a) = node_filesystem E"
    and "read_answer E (m_localFD (files s ! a)) (unat (arg c 2)) (errno (sbox s), world s) = ((e, v), os')"
    and "0 <s e" "fst os' = 0"
  shows "\<exists>c' s'. handleSyscall c s = Ret (c', s') \<and> returnVal c' = 0"
proof -
  let ?n = "unat (arg c 2)"
  have "e \<noteq> 0" using assms(7) by auto
  with node_read_error [of E "m_localFD (files s ! a)" "replicate ?n 0" "(errno (sbox s), world s)" e v os'] assms(6)
  have "in_world (node_read E (m_localFD (files s ! a)) (replicate ?n 0)) s =
      Ret ((scast (- e), replicate ?n 0), s\<lparr>sbox := (sbox s)\<lparr>errno := 0\<rparr>, world := snd os'\<rparr>)"
    by (simp add: in_world_def case_prod_beta assms(8))
  with do_read_node [OF assms(2,3) refl assms(4,5)] scast_neg [OF assms(7)] assms(1) show ?thesis
    by (simp add: handleSyscall_def neg_def)
qed

theorem read_error_is_end_of_file_witness:
  "\<exists>c' s'. handleSyscall (sample_call 0 4096) (script_vfs (\<lambda>_ _. VAnswer 5 VUndefined)) = Ret (c', s') \<and> returnVal c' = 0"
proof (rule read_error_is_end_of_file [where a = 0 and e = 5 and v = VUndefined and E = "answering (\<lambda>_ _. VAnswer 5 VUndefined)"])
  let ?s = "script_vfs (\<lambda>_ _. VAnswer 5 VUndefined)"
  show "read_answer (answering (\<lambda>_ _. VAnswer 5 VUndefined)) (m_localFD (files ?s ! 0)) (unat (arg (sample_call 0 4096) 2))
      (errno (sbox ?s), world ?s) = ((5, VUndefined), snd (offset 3 start_os))"
    by (simp add: read_answer_def answering_doVFS script_vfs_def start_os_def exec_child_def no_child_def)
  show "fst (snd (offset 3 start_os)) = 0" by (simp add: offset_def start_os_def)
qed (use sample_virtual in \<open>simp_all add: sample_call_def arg32_def arg_def script_vfs_def word_sless_alt\<close>)

text \<open>
  When the script answers a read with more text than was asked for, the VFS writes the whole
  length of the text to the child, from a buffer that holds only the size asked for.
\<close>

theorem read_answer_past_buffer:
  assumes "sys_id c = 0" "isVirtualFD (arg32 c 0)" "openFiles s (arg32 c 0) = Some (Some a)" "unat (arg c 2) < 2 ^ 63"
    and "m_fs (files s ! a) = node_filesystem E"
    and "read_answer E (m_localFD (files s ! a)) (unat (arg c 2)) (errno (sbox s), world s) = ((0, v), os')"
    and "length (write_utf8 E v (unat (arg c 2))) \<le> unat (arg c 2)"
    and "unat (arg c 2) < length (utf8 E v)" "length (utf8 E v) < 2 ^ 31"
    and "words n (length (utf8 E v))" "mapped (mem (sbox s) (call_pid c)) (arg c 1) (8 * n)"
  shows "handleSyscall c s = Fault Read_OOB"
proof -
  let ?n = "unat (arg c 2)" and ?l = "length (utf8 E v)"
  let ?buf = "write_utf8 E v ?n @ drop (length (write_utf8 E v ?n)) (replicate ?n 0)"
  have l: "length ?buf < ?l" using assms(7,8) by simp
  from node_read_string [of E "m_localFD (files s ! a)" "replicate ?n 0" "(errno (sbox s), world s)" v os'] assms(6,7)
  obtain os2 where "node_read E (m_localFD (files s ! a)) (replicate ?n 0) (errno (sbox s), world s) =
      Ret ((scast (of_nat ?l :: u32), ?buf), os2)" by auto
  then obtain b w where r: "in_world (node_read E (m_localFD (files s ! a)) (replicate ?n 0)) s =
      Ret ((scast (of_nat ?l :: u32), ?buf), s\<lparr>sbox := (sbox s)\<lparr>errno := b\<rparr>, world := w\<rparr>)"
    by (cases os2) (simp add: in_world_def)
  have "writeData ((sbox s)\<lparr>errno := b\<rparr>) (call_pid c) (arg c 1) ?l ?buf = Fault Read_OOB"
    by (rule writeData_overread [OF _ assms(10) l]) (use assms(11) in simp)
  then show ?thesis
    using do_read_node [OF assms(2,3) refl assms(4,5)] r scast_small [OF assms(9)] assms(1)
    by (simp add: handleSyscall_def write_child_def)
qed

theorem read_answer_past_buffer_witness:
  "handleSyscall (\<lparr>sys_id = 0, args = [4096, 0x1000, 1, 0, 0, 0], returnVal = 0, call_pid = 7\<rparr>)
     ((script_vfs (\<lambda>_ _. VAnswer 0 (VString [0x61, 0x62])))\<lparr>sbox := sample_child\<rparr>) = Fault Read_OOB"
proof (rule read_answer_past_buffer [where a = 0 and n = 1 and v = "VString [0x61, 0x62]" and E = "answering (\<lambda>_ _. VAnswer 0 (VString [0x61, 0x62]))"])
  let ?s = "(script_vfs (\<lambda>_ _. VAnswer 0 (VString [0x61, 0x62])))\<lparr>sbox := sample_child\<rparr>"
  let ?c = "\<lparr>sys_id = 0, args = [4096, 0x1000, 1, 0, 0, 0], returnVal = 0, call_pid = 7\<rparr>"
  show "read_answer (answering (\<lambda>_ _. VAnswer 0 (VString [0x61, 0x62]))) (m_localFD (files ?s ! 0)) (unat (arg ?c 2))
      (errno (sbox ?s), world ?s) = ((0, VString [0x61, 0x62]), snd (offset 3 (0, snd start_os)))"
    by (simp add: read_answer_def answering_doVFS script_vfs_def sample_child_def)
  show "mapped (mem (sbox ?s) (call_pid ?c)) (arg ?c 1) (8 * 1)"
    using bytes_mapped [OF sample_bytes [of 7]] mapped_part [of _ "0x1000" 16 0 8] by (simp add: arg_def)
qed (use sample_virtual in \<open>simp_all add: arg32_def arg_def script_vfs_def words_def\<close>)

text \<open>
  When the script refuses to open a file, the child does not get the error: the negative
  code is taken for a descriptor, and the child gets a virtual descriptor for it.
\<close>

theorem open_error_is_descriptor:
  assumes "\<not> isWhitelisted fname" "getFilesystem s fname = Ret (path, Some (node_filesystem E))" "fd_inv s"
    and "length (files s) < max_files"
    and "doVFS E ''open'' [JString path, JInt flags, JInt mode] (errno (sbox s), world s) = ((e, v), os')" "e \<noteq> 0"
  shows "\<exists>c' s' k. openFile c fname flags mode s = Ret (c', s') \<and> isVirtualFD k \<and> returnVal c' = scast k \<and> table s' k \<noteq> None"
  using assms by (rule openFile_node_error)

theorem open_error_is_descriptor_witness:
  "\<exists>c' s' k. openFile (sample_call 2 0) (ascii ''/a'') 0 0 (script_vfs (\<lambda>_ _. VAnswer 2 VUndefined)) = Ret (c', s') \<and>
    isVirtualFD k \<and> returnVal c' = scast k \<and> table s' k \<noteq> None"
proof (rule open_error_is_descriptor [where e = 2 and v = VUndefined and path = "ascii ''/a''" and E = "answering (\<lambda>_ _. VAnswer 2 VUndefined)"])
  let ?s = "script_vfs (\<lambda>_ _. VAnswer 2 VUndefined)"
  show "getFilesystem ?s (ascii ''/a'') = Ret (ascii ''/a'', Some (node_filesystem (answering (\<lambda>_ _. VAnswer 2 VUndefined))))"
    by (simp add: getFilesystem_absolute script_vfs_def ascii_def first_char_def)
  show "doVFS (answering (\<lambda>_ _. VAnswer 2 VUndefined)) ''open'' [JString (ascii ''/a''), JInt 0, JInt 0]
      (errno (sbox ?s), world ?s) = ((2, VUndefined), (errno (sbox ?s), world ?s))"
    by (simp add: answering_doVFS)
  show "fd_inv ?s" by (auto simp: fd_inv_def script_vfs_def fd_of_def)
  show "\<not> isWhitelisted (ascii ''/a'')" by (simp add: isWhitelisted_def whitelist_def ascii_def)
qed (simp_all add: script_vfs_def max_files_def)

text \<open>
  With a native file system mounted on the root, \<open>open\<close> looks below the root directory it
  was given, but \<open>access\<close> asks the host about the child's path itself.
\<close>

theorem native_access_ignores_root:
  assumes "mounts s = [([0x2F], Some (native_filesystem m_root sys))]" "first_char fname = 0x2F" "\<not> isWhitelisted fname"
    and "getFilename (call_pid c) (arg c 0) s0 = Ret (fname, s)"
    and "fs_access sys fname (arg32 c 1) (errno (sbox s), world s) = Ret (r, e, w)"
  shows "do_access c s0 = Ret (c\<lparr>sys_id := -1, returnVal := scast r\<rparr>, s\<lparr>sbox := (sbox s)\<lparr>errno := e\<rparr>, world := w\<rparr>) \<and>
    fs_open (native_filesystem m_root sys) fname flags mode os = fs_open sys (m_root @ [0x2F] @ fname) flags mode os"
proof -
  have "take 1 fname = [0x2F]" using assms(2) by (cases fname) (auto simp: first_char_def)
  then have "getFilesystem s fname = Ret (fname, Some (native_filesystem m_root sys))"
    using assms(1,2) by (simp add: getFilesystem_absolute)
  with assms(3-5) show ?thesis
    by (simp add: do_access_def Let_def in_world_def native_filesystem_def native_open_def)
qed

definition native_vfs :: "unit vfs" where
  "native_vfs = sample_vfs\<lparr>sbox := no_child\<lparr>mem := \<lambda>_. mem_write (\<lambda>_. None) 0x1000 [0x2F, 0x61, 0, 0, 0, 0, 0, 0]\<rparr>,
     mounts := [([0x2F], Some (native_filesystem (ascii ''/srv'') sample_fs))]\<rparr>"

theorem native_access_ignores_root_witness:
  "\<exists>s. do_access (sample_call 21 0x1000) native_vfs = Ret ((sample_call 21 0x1000)\<lparr>sys_id := -1, returnVal := scast (0 :: u32)\<rparr>, s) \<and>
    fs_open (native_filesystem (ascii ''/srv'') sample_fs) [0x2F, 0x61] 0 0 (0, ()) =
      fs_open sample_fs (ascii ''/srv'' @ [0x2F] @ [0x2F, 0x61]) 0 0 (0, ())"
proof -
  let ?s = "native_vfs\<lparr>sbox := (sbox native_vfs)\<lparr>errno := 0\<rparr>\<rparr>"
  define bs :: "byte list" where "bs = [0x2F, 0x61, 0, 0, 0, 0, 0, 0]"
  have l: "length bs = 8" by (simp add: bs_def)
  have "mem_bytes (mem_write (\<lambda>_. None) 0x1000 bs) 0x1000 (length bs) = Some bs"
    by (rule mem_read_back) (simp add: l)
  moreover have "bs = [0x2F, 0x61] @ 0 # [0, 0, 0, 0, 0]" by (simp add: bs_def)
  ultimately have "\<exists>t. mem_bytes (mem_write (\<lambda>_. None) 0x1000 bs) 0x1000 8 = Some ([0x2F, 0x61] @ 0 # t)"
    unfolding l by metis
  then have "string_at (mem (sbox native_vfs) 7) 0x1000 [0x2F, 0x61]"
    by (simp add: string_at_def native_vfs_def bs_def)
  from getFilename_string [OF this]
  have g: "getFilename (call_pid (sample_call 21 0x1000)) (arg (sample_call 21 0x1000) 0) native_vfs = Ret ([0x2F, 0x61], ?s)"
    by (simp add: sample_call_def arg_def)
  have m: "mounts ?s = [([0x2F], Some (native_filesystem (ascii ''/srv'') sample_fs))]" by (simp add: native_vfs_def)
  have w: "\<not> isWhitelisted [0x2F, 0x61]" by (simp add: isWhitelisted_def whitelist_def ascii_def)
  have a: "fs_access sample_fs [0x2F, 0x61] (arg32 (sample_call 21 0x1000) 1) (errno (sbox ?s), world ?s) = Ret (0, 0, ())"
    by (simp add: sample_fs_def)
  from native_access_ignores_root [OF m _ w g a, of 0 0 "(0, ())"] show ?thesis by (auto simp: first_char_def)
qed

end
