(* ===== verification/Seccomp.thy ===== *)
theory Seccomp
  imports Vfs
begin

text \<open>
  The child side of src/sandbox.cpp: \<open>execChild\<close> binds the channels, closes every other
  descriptor, loads the seccomp filter and replaces the process. The filter is the table of
  rules as the code adds them; how libseccomp decides between rules that match at once is a
  parameter. The steps the child takes are a list, so that their order can be stated.
\<close>

section \<open>The rules\<close>

datatype action = Kill | Trace | Allow

text \<open>Comparisons of the first argument: none, \<open>SCMP_CMP_GE\<close>, \<open>SCMP_CMP_LT\<close>.\<close>

datatype condition = Always | A0_GE u64 | A0_LT u64

type_synonym rule = "action \<times> string \<times> condition"

fun holds :: "condition \<Rightarrow> u64 \<Rightarrow> bool" where
  "holds Always a0 \<longleftrightarrow> True"
| "holds (A0_GE n) a0 \<longleftrightarrow> n \<le> a0"
| "holds (A0_LT n) a0 \<longleftrightarrow> a0 < n"

definition vfs_filter :: "string \<Rightarrow> rule list" where
  "vfs_filter x = [(Trace, x, A0_GE (scast firstVirtualFD)), (Allow, x, A0_LT (scast firstVirtualFD))]"

definition rules_paths :: "rule list" where
  "rules_paths =
  [(Kill, ''ptrace'', Always), (Allow, ''execve'', Always), (Allow, ''clone'', Always),
   (Trace, ''chdir'', Always), (Trace, ''fchdir'', Always), (Trace, ''open'', Always),
   (Trace, ''access'', Always), (Trace, ''openat'', Always), (Trace, ''stat'', Always),
   (Trace, ''lstat'', Always), (Trace, ''getcwd'', Always), (Trace, ''readlink'', Always)]"

definition vfs_filtered :: "string list" where
  "vfs_filtered = [''read'', ''close'', ''ioctl'', ''fstat'', ''lseek'', ''write'', ''getdents'', ''getdents64'', ''readv'', ''writev'']"

definition rules_other :: "rule list" where
  "rules_other =
  [(Trace, ''fcntl'', Always), (Trace, ''socket'', Always), (Trace, ''connect'', Always),
   (Trace, ''bind'', Always), (Trace, ''setsockopt'', Always), (Trace, ''getsockname'', Always),
   (Trace, ''getpeername'', Always), (Trace, ''getsockopt'', Always), (Trace, ''uname'', Always),
   (Trace, ''getrlimit'', Always), (Trace, ''getuid'', Always), (Trace, ''getgid'', Always),
   (Trace, ''geteuid'', Always), (Trace, ''getegid'', Always), (Trace, ''getppid'', Always),
   (Trace, ''getpgrp'', Always), (Trace, ''getgroups'', Always), (Trace, ''getresuid'', Always),
   (Trace, ''getresgid'', Always), (Trace, ''capget'', Always), (Trace, ''gettid'', Always),
   (Allow, ''fsync'', Always), (Allow, ''fdatasync'', Always), (Allow, ''sync'', Always),
   (Allow, ''poll'', Always), (Allow, ''mmap'', Always), (Allow, ''mprotect'', Always),
   (Allow, ''munmap'', Always), (Allow, ''madvise'', Always), (Allow, ''brk'', Always),
   (Allow, ''rt_sigaction'', Always), (Allow, ''rt_sigprocmask'', Always), (Allow, ''select'', Always),
   (Allow, ''sched_yield'', Always), (Allow, ''getpid'', Always), (Allow, ''accept'', Always),
   (Allow, ''listen'', Always), (Allow, ''exit'', Always), (Allow, ''gettimeofday'', Always),
   (Allow, ''tkill'', Always), (Allow, ''epoll_create'', Always), (Allow, ''restart_syscall'', Always),
   (Allow, ''clock_gettime'', Always), (Allow, ''clock_getres'', Always), (Allow, ''clock_nanosleep'', Always),
   (Allow, ''gettid'', Always), (Allow, ''ioctl'', Always), (Allow, ''nanosleep'', Always),
   (Allow, ''exit_group'', Always), (Allow, ''epoll_wait'', Always), (Allow, ''epoll_ctl'', Always),
   (Allow, ''tgkill'', Always), (Allow, ''pselect6'', Always), (Allow, ''ppoll'', Always),
   (Allow, ''arch_prctl'', Always), (Allow, ''prctl'', Always), (Allow, ''set_robust_list'', Always),
   (Allow, ''get_robust_list'', Always), (Allow, ''epoll_pwait'', Always), (Allow, ''accept4'', Always),
   (Allow, ''eventfd2'', Always), (Allow, ''epoll_create1'', Always), (Allow, ''pipe2'', Always),
   (Allow, ''futex'', Always), (Allow, ''set_tid_address'', Always), (Allow, ''set_thread_area'', Always)]"

definition seccomp_rules :: "rule list" where
  "seccomp_rules = rules_paths @ concat (map vfs_filter vfs_filtered) @ rules_other"

text \<open>The actions of the rules that match a call, and the filter's verdict: the default is to kill.\<close>

definition matching :: "string \<Rightarrow> u64 \<Rightarrow> action list" where
  "matching sys a0 = map fst (filter (\<lambda>(_, x, c). x = sys \<and> holds c a0) seccomp_rules)"

definition verdict :: "(action list \<Rightarrow> action) \<Rightarrow> string \<Rightarrow> u64 \<Rightarrow> action" where
  "verdict decide sys a0 = (if matching sys a0 = [] then Kill else decide (matching sys a0))"

section \<open>Descriptors to close\<close>

text \<open>\<open>strtol (s, &end, 10)\<close> on a name: its leading digits, and whether there is one.\<close>

definition strtol :: "byte list \<Rightarrow> u32 \<times> bool" where
  "strtol str = (let ds = takeWhile (\<lambda>c. 0x30 \<le> c \<and> c \<le> 0x39) str in
     (foldl (\<lambda>n d. 10 * n + (ucast d - 0x30)) 0 ds, ds \<noteq> []))"

fun unusedFDs :: "u32 list \<Rightarrow> byte list list \<Rightarrow> u32 list" where
  "unusedFDs permittedFDs [] = []"
| "unusedFDs permittedFDs (d_name # names) =
     (let (fdnum, digits) = strtol d_name in
      if \<not> digits \<and> fdnum = 0 then unusedFDs permittedFDs names
      else if fdnum \<in> set permittedFDs then unusedFDs permittedFDs names
      else fdnum # unusedFDs permittedFDs names)"

section \<open>The steps of the child\<close>

datatype child_step =
    Dup2 u32
  | CloseFD u32
  | Setpgid
  | Traceme
  | Raise_stop
  | No_new_privs
  | Load_filter "rule list"
  | Clearenv
  | Setenv "byte list" "byte list"
  | Execvp "byte list"
  | Error_exit
  | Faulted fault

text \<open>
  What the child finds: the channels with the result of \<open>dup\<close>, the names in /proc/self/fd,
  what \<open>seccomp_load\<close> and \<open>execvp\<close> return, the environment and the program.
\<close>

record child_env =
  ipc_dups :: "(u32 \<times> bool) list"
  fd_names :: "byte list list"
  load_result :: int
  environment :: "(byte list \<times> byte list) list"
  program :: "byte list"
  exec_result :: int

fun bind_channels :: "(u32 \<times> bool) list \<Rightarrow> child_step list \<times> bool" where
  "bind_channels [] = ([], True)"
| "bind_channels ((dupAs, ok) # ipcs) =
     (if ok then let (steps, r) = bind_channels ipcs in (Dup2 dupAs # steps, r) else ([Error_exit], False))"

text \<open>The vector is made with one zero for each channel, and the descriptors are pushed behind them.\<close>

definition permittedFDs :: "child_env \<Rightarrow> u32 list" where
  "permittedFDs e = replicate (length (ipc_dups e)) 0 @ map fst (ipc_dups e)"

definition scratch_name :: "byte list" where
  "scratch_name = ascii ''CODIUS_SCRATCH_BUFFER''"

text \<open>\<open>buf\<close> is the value of the scratch variable, which \<open>setenv\<close> reads up to its terminator.\<close>

definition execChild_in :: "byte list \<Rightarrow> child_env \<Rightarrow> child_step list" where
  "execChild_in buf e =
     (let (steps, bound) = bind_channels (ipc_dups e) in
      if \<not> bound then steps
      else
        steps @ map CloseFD (unusedFDs (permittedFDs e) (fd_names e)) @
        [Setpgid, Traceme, Raise_stop, No_new_privs, Load_filter seccomp_rules] @
        (if 0 < load_result e then [Error_exit]
         else
           [Clearenv] @ map (\<lambda>(k, v). Setenv k v) (environment e) @
           (case string_of_buf buf of
              Fault f \<Rightarrow> [Faulted f]
            | Ret v \<Rightarrow> [Setenv scratch_name v, Execvp (program e)] @ (if exec_result e < 0 then [Error_exit] else []))))"

text \<open>\<open>memset (buf, CODIUS_MAGIC_BYTES, sizeof (buf))\<close> sets every byte to 0xFE.\<close>

definition scratch_value :: "byte list" where
  "scratch_value = replicate 2048 (ucast (0xC0D105FE :: u64))"

definition execChild :: "child_env \<Rightarrow> child_step list" where
  "execChild = execChild_in scratch_value"

section \<open>The table is unambiguous\<close>

text \<open>The calls for which rules with different actions match: both are added twice.\<close>

definition ambiguous :: "string list" where
  "ambiguous = [''gettid'', ''ioctl'']"

definition fixed_rules :: "rule list" where
  "fixed_rules = filter (\<lambda>r. fst (snd r) \<notin> set ambiguous) (rules_paths @ rules_other)"

lemma names_distinct: "distinct (map (fst \<circ> snd) fixed_rules @ filter (\<lambda>x. x \<notin> set ambiguous) vfs_filtered)"
  by code_simp

lemma fixed_rules_always: "list_all (\<lambda>r. snd (snd r) = Always) (rules_paths @ rules_other)"
  by code_simp

lemma seccomp_rules_iff:
  assumes "x \<notin> set ambiguous"
  shows "(a, x, c) \<in> set seccomp_rules \<longleftrightarrow>
    (a, x, c) \<in> set fixed_rules \<or> (x \<in> set (filter (\<lambda>x. x \<notin> set ambiguous) vfs_filtered) \<and>
      ((a, c) = (Trace, A0_GE (scast firstVirtualFD)) \<or> (a, c) = (Allow, A0_LT (scast firstVirtualFD))))"
  using assms by (auto simp: seccomp_rules_def vfs_filter_def fixed_rules_def)

lemma matching_unique:
  assumes "x \<notin> set ambiguous" "(a, x, c) \<in> set seccomp_rules" "holds c a0" "(b, x, d) \<in> set seccomp_rules" "holds d a0"
  shows "a = b"
proof -
  from names_distinct have fixed: "(a, x, c) \<in> set fixed_rules \<Longrightarrow> (b, x, d) \<in> set fixed_rules \<Longrightarrow> a = b" for a b c d
    using inj_onD [of "fst \<circ> snd" "set fixed_rules" "(a, x, c)" "(b, x, d)"] by (simp add: distinct_map)
  from names_distinct have sep: "(a, x, c) \<in> set fixed_rules \<Longrightarrow> x \<notin> set (filter (\<lambda>x. x \<notin> set ambiguous) vfs_filtered)" for a c
    by force
  show ?thesis
    using assms(2-5) unfolding seccomp_rules_iff [OF assms(1)] by (auto dest: fixed sep)
qed

lemma in_matching: "a \<in> set (matching sys a0) \<longleftrightarrow> (\<exists>c. (a, sys, c) \<in> set seccomp_rules \<and> holds c a0)"
  by (force simp: matching_def)

text \<open>A choice among the matching actions, whatever libseccomp makes it.\<close>

definition chooses :: "(action list \<Rightarrow> action) \<Rightarrow> bool" where
  "chooses decide \<longleftrightarrow> (\<forall>as. as \<noteq> [] \<longrightarrow> decide as \<in> set as)"

lemma verdict_unique:
  assumes "chooses decide" "sys \<notin> set ambiguous" "(a, sys, c) \<in> set seccomp_rules" "holds c a0"
  shows "verdict decide sys a0 = a"
proof -
  from assms(3,4) have a: "a \<in> set (matching sys a0)" by (auto simp: in_matching)
  then have "decide (matching sys a0) \<in> set (matching sys a0)"
    using assms(1) unfolding chooses_def by (metis empty_iff list.set(1))
  then have "decide (matching sys a0) = a"
    using matching_unique [OF assms(2)] assms(3,4) by (auto simp: in_matching)
  with a show ?thesis by (auto simp: verdict_def)
qed

lemma firstVirtualFD_64 [simp]: "scast firstVirtualFD = (4096 :: u64)"
  by (simp add: firstVirtualFD_def)

lemma verdict_filtered:
  assumes "chooses decide" "sys \<in> set vfs_filtered" "sys \<noteq> ''ioctl''"
  shows "verdict decide sys a0 = (if 4096 \<le> a0 then Trace else Allow)"
proof -
  have amb: "sys \<notin> set ambiguous" using assms(2,3) by (auto simp: ambiguous_def vfs_filtered_def)
  have "(Trace, sys, A0_GE 4096) \<in> set seccomp_rules" "(Allow, sys, A0_LT 4096) \<in> set seccomp_rules"
    using assms(2) by (auto simp: seccomp_rules_def vfs_filter_def)
  with verdict_unique [OF assms(1) amb] show ?thesis by (cases "4096 \<le> a0") fastforce+
qed

lemma virtual_fd_bound:
  assumes "isVirtualFD (ucast (a0 :: u64))"
  shows "4096 \<le> a0"
proof -
  from assms have "4096 \<le> sint (ucast a0 :: u32)" by (simp add: isVirtualFD_def firstVirtualFD_def word_sle_eq)
  moreover have "uint (ucast a0 :: u32) < 4096 \<Longrightarrow> sint (ucast a0 :: u32) = uint (ucast a0 :: u32)"
    unfolding sint_uint by (rule signed_take_bit_int_eq_self) (auto intro: order.trans [OF _ unsigned_greater_eq])
  ultimately have "4096 \<le> uint (ucast a0 :: u32)" by linarith
  moreover have "uint (ucast a0 :: u32) \<le> uint a0" by (simp add: unsigned_ucast_eq take_bit_eq_mod zmod_le_nonneg_dividend)
  ultimately show ?thesis by (simp add: word_le_def)
qed

section \<open>The steps in order\<close>

lemma unusedFDs_Cons:
  "unusedFDs ps (d # names) =
    (if (\<not> snd (strtol d) \<and> fst (strtol d) = 0) \<or> fst (strtol d) \<in> set ps then unusedFDs ps names
     else fst (strtol d) # unusedFDs ps names)"
  by (simp add: case_prod_beta Let_def)

lemma unusedFDs_not_permitted: "fd \<in> set (unusedFDs ps names) \<Longrightarrow> fd \<notin> set ps"
  by (induction names) (auto simp: unusedFDs_Cons simp del: unusedFDs.simps(2) split: if_splits)

lemma unusedFDs_complete:
  "nm \<in> set names \<Longrightarrow> strtol nm = (fd, True) \<Longrightarrow> fd \<notin> set ps \<Longrightarrow> fd \<in> set (unusedFDs ps names)"
  by (induction names) (auto simp: unusedFDs_Cons simp del: unusedFDs.simps(2))

text \<open>Where a step stands: what is in front of the first step that satisfies a predicate.\<close>

definition preceded_by :: "('a \<Rightarrow> bool) \<Rightarrow> ('a \<Rightarrow> bool) \<Rightarrow> 'a list \<Rightarrow> bool" where
  "preceded_by P Q xs \<longleftrightarrow> (\<forall>ys x zs. xs = ys @ x # zs \<longrightarrow> P x \<longrightarrow> list_ex Q ys)"

lemma preceded_by_append:
  "\<not> list_ex P xs \<Longrightarrow> list_ex Q xs \<Longrightarrow> preceded_by P Q (xs @ zs)"
  unfolding preceded_by_def
proof (intro allI impI)
  fix ys x us assume *: "\<not> list_ex P xs" "list_ex Q xs" "xs @ zs = ys @ x # us" "P x"
  from *(3) obtain k where "(xs = ys @ k \<and> k @ zs = x # us) \<or> (xs @ k = ys \<and> zs = k @ x # us)"
    by (auto simp: append_eq_append_conv2)
  then show "list_ex Q ys"
  proof (elim disjE conjE)
    assume k: "xs = ys @ k" "k @ zs = x # us"
    with *(1,4) have "k = []" by (cases k) auto
    with k *(2) show ?thesis by simp
  next
    assume "xs @ k = ys"
    with *(2) show ?thesis by auto
  qed
qed

fun is_exec :: "child_step \<Rightarrow> bool" where
  "is_exec (Execvp _) = True"
| "is_exec _ = False"

lemma bind_channels_no_exec: "bind_channels ipcs = (steps, r) \<Longrightarrow> \<not> list_ex is_exec steps"
  by (induction ipcs arbitrary: steps r rule: bind_channels.induct) (auto simp: Let_def split: prod.splits if_splits)

lemma list_ex_map_False: "(\<And>x. \<not> P (f x)) \<Longrightarrow> \<not> list_ex P (map f xs)"
  by (induction xs) auto

text \<open>All the steps up to loading the filter, when every channel is bound.\<close>

definition locked_prefix :: "child_env \<Rightarrow> child_step list" where
  "locked_prefix e = fst (bind_channels (ipc_dups e)) @ map CloseFD (unusedFDs (permittedFDs e) (fd_names e)) @
     [Setpgid, Traceme, Raise_stop, No_new_privs, Load_filter seccomp_rules]"

lemma locked_prefix_no_exec: "\<not> list_ex is_exec (locked_prefix e)"
proof -
  have "\<not> list_ex is_exec (fst (bind_channels (ipc_dups e)))"
    using bind_channels_no_exec by (metis prod.collapse)
  moreover have "\<not> list_ex is_exec (map CloseFD fds)" for fds by (rule list_ex_map_False) simp
  ultimately show ?thesis by (simp add: locked_prefix_def)
qed

lemma execChild_in_cases:
  "execChild_in buf e = fst (bind_channels (ipc_dups e)) \<and> \<not> snd (bind_channels (ipc_dups e)) \<or>
   (\<exists>rest. execChild_in buf e = locked_prefix e @ rest)"
  unfolding execChild_in_def locked_prefix_def by (cases "bind_channels (ipc_dups e)") (auto simp: Let_def)

lemma exec_after_lock:
  assumes "Q \<in> {Traceme, Raise_stop, No_new_privs, Load_filter seccomp_rules}"
  shows "preceded_by is_exec (\<lambda>x. x = Q) (execChild_in buf e)"
  using execChild_in_cases [of buf e]
proof (elim disjE exE conjE)
  assume h: "execChild_in buf e = fst (bind_channels (ipc_dups e))"
  have "\<not> list_ex is_exec (fst (bind_channels (ipc_dups e)))"
    using bind_channels_no_exec by (metis prod.collapse)
  then show ?thesis by (auto simp: preceded_by_def h)
next
  fix rest assume h: "execChild_in buf e = locked_prefix e @ rest"
  show ?thesis unfolding h
    by (rule preceded_by_append [OF locked_prefix_no_exec]) (use assms in \<open>auto simp: locked_prefix_def\<close>)
qed

section \<open>Properties\<close>

text \<open>
  The filter decides every call, however libseccomp chooses among matching rules, but for
  \<open>gettid\<close> and \<open>ioctl\<close>, which are added twice with different actions.
\<close>

theorem filter_unambiguous:
  assumes "sys \<notin> {''gettid'', ''ioctl''}" "chooses decide" "chooses decide'"
  shows "verdict decide sys a0 = verdict decide' sys a0"
proof (cases "matching sys a0")
  case (Cons a as)
  then obtain c where c: "(a, sys, c) \<in> set seccomp_rules" "holds c a0" using in_matching [of a sys a0] by auto
  have "sys \<notin> set ambiguous" using assms(1) by (simp add: ambiguous_def)
  from verdict_unique [OF assms(2) this c] verdict_unique [OF assms(3) this c] show ?thesis by simp
qed (simp add: verdict_def)

theorem filter_unambiguous_witness: "verdict hd ''open'' 0 = verdict last ''open'' 0"
  by (rule filter_unambiguous) (auto simp: chooses_def)




text \<open>
  A failure of \<open>seccomp_load\<close>, which is reported as a negative number, goes unnoticed: the
  child executes the program all the same.
\<close>

theorem failed_load_goes_on:
  assumes "load_result e < 0" "string_of_buf buf = Ret v" "snd (bind_channels (ipc_dups e))"
  shows "list_ex is_exec (execChild_in buf e)"
  using assms by (simp add: execChild_in_def case_prod_beta Let_def)

theorem failed_load_goes_on_witness:
  "list_ex is_exec (execChild_in [0] \<lparr>ipc_dups = [(3, True)], fd_names = [], load_result = -14, environment = [], program = [0x61], exec_result = 0\<rparr>)"
  by (rule failed_load_goes_on) (simp_all add: string_of_buf_def c_str_def)

text \<open>
  Every descriptor that is open and not a channel is closed, with one exception: descriptor
  0 stays open in every sandbox that has a channel.
\<close>

theorem descriptors_closed:
  assumes "nm \<in> set (fd_names e)" "strtol nm = (fd, True)" "ipc_dups e \<noteq> []"
  shows "fd \<in> set (unusedFDs (permittedFDs e) (fd_names e)) \<longleftrightarrow> fd \<noteq> 0 \<and> fd \<notin> fst ` set (ipc_dups e)"
proof -
  have "fd \<in> set (permittedFDs e) \<longleftrightarrow> fd = 0 \<or> fd \<in> fst ` set (ipc_dups e)"
    using assms(3) by (simp add: permittedFDs_def)
  then show ?thesis using unusedFDs_complete [OF assms(1,2)] unusedFDs_not_permitted by metis
qed

theorem descriptors_closed_witness:
  "(7 :: u32) \<in> set (unusedFDs (permittedFDs \<lparr>ipc_dups = [(3, True)], fd_names = [[0x2E], [0x37]], load_result = 0, environment = [], program = [], exec_result = 0\<rparr>)
      (fd_names \<lparr>ipc_dups = [(3, True)], fd_names = [[0x2E], [0x37]], load_result = 0, environment = [], program = [], exec_result = 0\<rparr>)) \<longleftrightarrow>
    (7 :: u32) \<noteq> 0 \<and> 7 \<notin> fst ` set (ipc_dups \<lparr>ipc_dups = [(3, True)], fd_names = [[0x2E], [0x37]], load_result = 0, environment = [], program = [], exec_result = 0\<rparr>)"
  by (rule descriptors_closed [of "[0x37]"]) (simp_all add: strtol_def)

text \<open>
  As written, the value of the scratch variable has no terminator, so that setting it reads
  past the buffer: the child never gets to the program.
\<close>

theorem scratch_value_unterminated: "\<not> list_ex is_exec (execChild e)"
proof -
  have nz: "b \<noteq> 0 \<Longrightarrow> 0 \<notin> set (replicate n b)" for n and b :: byte by simp
  have "0 \<notin> set scratch_value" unfolding scratch_value_def by (rule nz) simp
  then have "string_of_buf scratch_value = Fault Read_OOB" by (simp add: string_of_buf_def)
  moreover have "\<not> list_ex is_exec (fst (bind_channels (ipc_dups e)))"
    using bind_channels_no_exec by (metis prod.collapse)
  moreover have "\<not> list_ex is_exec (map CloseFD fds)" for fds by (rule list_ex_map_False) simp
  moreover have "\<not> list_ex is_exec (map (\<lambda>(k, v). Setenv k v) env)" for env
    by (rule list_ex_map_False) (simp split: prod.split)
  ultimately show ?thesis by (simp add: execChild_def execChild_in_def case_prod_beta Let_def)
qed

end
