(* ===== verification/Tracer.thy ===== *)
theory Tracer
  imports Vfs
begin

text \<open>
  The supervisor's event loop of src/sandbox.cpp: \<open>handle_trap\<close> collects the stops of the traced
  processes and \<open>handleSeccompEvent\<close> hands a trapped system call to the sandbox
  (\<open>NodeSandbox::handleSyscall\<close> of src/sandbox-node-module.cpp) and then to the VFS, and puts the
  result into the registers. What the kernel reports is a parameter; the requests made to the
  kernel and the callbacks are recorded in order.
\<close>

section \<open>State and requests\<close>

record user_regs =
  orig_rax :: u64
  rax :: u64
  rdi :: u64
  rsi :: u64
  rdx :: u64
  rcx :: u64
  r8 :: u64
  r9 :: u64
  r10 :: u64
  rsp :: u64

datatype request =
    Cont pid u32
  | Set_options pid
  | Trace_options pid
  | Detach pid u32
  | Signal_stop
  | Clear_channels
  | Set_regs pid user_regs
  | On_signal u32
  | On_exit u32
  | New_socket "byte list"
  | Bad_syscall u64

record 'w host =
  vfs_of :: "'w vfs"
  requests :: "request list"

definition ask :: "request list \<Rightarrow> 'w host \<Rightarrow> 'w host" where
  "ask rs h = h\<lparr>requests := requests h @ rs\<rparr>"

definition box_of :: "'w host \<Rightarrow> sandbox" where
  "box_of h = sbox (vfs_of h)"

definition set_box :: "sandbox \<Rightarrow> 'w host \<Rightarrow> 'w host" where
  "set_box b h = h\<lparr>vfs_of := (vfs_of h)\<lparr>sbox := b\<rparr>\<rparr>"

text \<open>\<open>Sandbox::releaseChild\<close> and \<open>Sandbox::kill\<close>; \<open>SIGKILL\<close> is 9.\<close>

definition releaseChild :: "u32 \<Rightarrow> 'w host \<Rightarrow> 'w host" where
  "releaseChild signal h =
     (let p = main_pid (box_of h) in ask [Set_options p, Signal_stop, Clear_channels, Detach p signal] h)"

definition kill :: "'w host \<Rightarrow> 'w host" where
  "kill h = releaseChild 9 h"

section \<open>The system calls of the sandbox\<close>

text \<open>\<open>%d\<close> of an \<open>int\<close>.\<close>

function dec_digits :: "nat \<Rightarrow> byte list" where
  "dec_digits n = (if n < 10 then [of_nat (48 + n)] else dec_digits (n div 10) @ [of_nat (48 + n mod 10)])"
  by pat_completeness auto
termination by (relation "measure id") auto

declare dec_digits.simps [simp del]

definition dec_int :: "u32 \<Rightarrow> byte list" where
  "dec_int w = (if sint w < 0 then 0x2D # dec_digits (nat (- sint w)) else dec_digits (nat (sint w)))"

text \<open>\<open>snprintf\<close> into \<open>n\<close> bytes: the text cut off, with its terminator, over what was there.\<close>

definition snprintf :: "nat \<Rightarrow> byte list \<Rightarrow> byte list \<Rightarrow> byte list" where
  "snprintf n txt buf = (let out = take (n - 1) txt @ [0] in out @ drop (length out) buf)"

definition socket_path :: "pid \<Rightarrow> u32 \<Rightarrow> byte list" where
  "socket_path p fd = ascii ''/tmp/codius-sandbox-socket-'' @ dec_int p @ ascii ''-'' @ dec_int fd"

text \<open>
  \<open>struct sockaddr_un\<close>: the family (\<open>AF_UNIX\<close> is 1) in two bytes, and a path of 108 bytes, of
  which \<open>junk\<close> is the uninitialised contents.
\<close>

definition AF_UNIX :: u64 where
  "AF_UNIX = 1"

definition sockaddr_un :: "byte list \<Rightarrow> pid \<Rightarrow> u32 \<Rightarrow> byte list" where
  "sockaddr_un junk p fd = to_le 2 AF_UNIX @ snprintf 108 (socket_path p fd) junk"

text \<open>The numbers are those of x86-64: \<open>bind\<close> 49, \<open>socket\<close> 41, \<open>execve\<close> 59; the others are passed on.\<close>

definition node_handleSyscall :: "byte list \<Rightarrow> SyscallCall \<Rightarrow> 'w host \<Rightarrow> (SyscallCall \<times> 'w host) outcome" where
  "node_handleSyscall junk c h =
     (if sys_id c = 51 \<or> sys_id c = 55 \<or> sys_id c = 54 then Ret (c, h)
      else if sys_id c = 49 then
        let addr = sockaddr_un junk (main_pid (box_of h)) (arg32 c 0) in
        bindO (writeScratch (box_of h) (length addr) addr) (\<lambda>(a, b).
        let c = c\<lparr>args := (args c)[1 := a]\<rparr>; c = c\<lparr>args := (args c)[2 := of_nat (length addr)]\<rparr>
        in Ret (c, ask [New_socket (c_str (drop 2 addr))] (set_box b h)))
      else if sys_id c = 41 then Ret (c\<lparr>args := (args c)[0 := AF_UNIX]\<rparr>, h)
      else if sys_id c = 59 then Ret (c, kill h)
      else Ret (c, h))"

section \<open>A trapped system call\<close>

text \<open>The registers as a call, and the call put back. \<open>junk\<close> is the uninitialised return value.\<close>

definition call_of_regs :: "u64 \<Rightarrow> pid \<Rightarrow> user_regs \<Rightarrow> SyscallCall" where
  "call_of_regs junk p regs =
     \<lparr>sys_id = orig_rax regs, args = [rdi regs, rsi regs, rdx regs, rcx regs, r8 regs, r9 regs], returnVal = junk, call_pid = p\<rparr>"

definition regs_of_call :: "SyscallCall \<Rightarrow> user_regs \<Rightarrow> user_regs" where
  "regs_of_call c regs =
     regs\<lparr>orig_rax := sys_id c, rdi := arg c 0, rsi := arg c 1, rdx := arg c 2, rcx := arg c 3, r8 := arg c 4, r9 := arg c 5,
       rax := returnVal c\<rparr>"

text \<open>What the kernel and uninitialised variables supply to the handlers of events.\<close>

record tracee =
  regs_of :: "pid \<Rightarrow> user_regs"
  event_msg :: "pid \<Rightarrow> u32"
  junk_return :: u64
  junk_path :: "byte list"
  environ_bound :: nat

definition handleSeccompEvent :: "tracee \<Rightarrow> pid \<Rightarrow> 'w host \<Rightarrow> 'w host outcome" where
  "handleSeccompEvent T p h =
     (if \<not> entered_main (box_of h) then Ret h
      else
        let regs = regs_of T p; call = call_of_regs (junk_return T) p regs; h = set_box (resetScratch (box_of h)) h in
        bindO (node_handleSyscall (junk_path T) call h) (\<lambda>(call, h).
        bindO (handleSyscall call (vfs_of h)) (\<lambda>(call, v).
        Ret (ask [Set_regs p (regs_of_call call regs)] (h\<lparr>vfs_of := v\<rparr>)))))"

definition handle_exec :: "tracee \<Rightarrow> pid \<Rightarrow> 'w host \<Rightarrow> 'w host outcome" where
  "handle_exec T p h =
     bindO (handleExecEvent (environ_bound T) (rsp (regs_of T p)) (box_of h) p) (\<lambda>b. Ret (set_box b h))"

section \<open>Wait statuses\<close>

definition WIFSTOPPED :: "u32 \<Rightarrow> bool" where
  "WIFSTOPPED status \<longleftrightarrow> status AND 0xFF = 0x7F"

definition WSTOPSIG :: "u32 \<Rightarrow> u32" where
  "WSTOPSIG status = drop_bit 8 (status AND 0xFF00)"

definition WTERMSIG :: "u32 \<Rightarrow> u32" where
  "WTERMSIG status = status AND 0x7F"

definition WIFEXITED :: "u32 \<Rightarrow> bool" where
  "WIFEXITED status \<longleftrightarrow> WTERMSIG status = 0"

definition WIFSIGNALED :: "u32 \<Rightarrow> bool" where
  "WIFSIGNALED status \<longleftrightarrow> WTERMSIG status \<noteq> 0 \<and> WTERMSIG status \<noteq> 0x7F"

definition WIFCONTINUED :: "u32 \<Rightarrow> bool" where
  "WIFCONTINUED status \<longleftrightarrow> status = 0xFFFF"

definition SIGTRAP :: u32 where
  "SIGTRAP = 5"

text \<open>\<open>((status >> 8) & ~SIGTRAP) >> 8\<close>.\<close>

definition event_of :: "u32 \<Rightarrow> u32" where
  "event_of status = drop_bit 8 (drop_bit 8 status AND NOT SIGTRAP)"

section \<open>The event loop\<close>

text \<open>
  One round, after \<open>waitpid\<close> gave \<open>p\<close> and \<open>status\<close>; the status is overwritten by the exit
  message. The events are \<open>SECCOMP\<close> 7, \<open>EXIT\<close> 6, \<open>EXEC\<close> 4, \<open>CLONE\<close> 3; \<open>SIGSYS\<close> is 31.
\<close>

definition trap_step :: "tracee \<Rightarrow> pid \<Rightarrow> u32 \<Rightarrow> 'w host \<Rightarrow> (u32 \<times> 'w host) outcome" where
  "trap_step T p status h =
     (if WIFSTOPPED status then
        if WSTOPSIG status = SIGTRAP then
          let s = event_of status in
          if s = 7 then bindO (handleSeccompEvent T p h) (\<lambda>h. Ret (status, ask [Cont p 0] h))
          else if s = 6 then
            if p = main_pid (box_of h) then
              let status = event_msg T p in
              if WIFSIGNALED status then
                let h = (if WTERMSIG status = 31 then ask [Bad_syscall (orig_rax (regs_of T p))] h else h);
                    h = ask [On_signal (WTERMSIG status), On_exit (WTERMSIG status)] h
                in Ret (status, releaseChild 0 h)
              else
                bindO (assertO (WIFEXITED status)) (\<lambda>_.
                Ret (status, releaseChild 0 (ask [On_exit (WSTOPSIG status)] h)))
            else Ret (status, ask [Cont p 0] h)
          else if s = 4 then bindO (handle_exec T p h) (\<lambda>h. Ret (status, ask [Cont p 0] h))
          else if s = 3 then
            let childPID = event_msg T p in
            Ret (status, ask [Trace_options childPID, Cont childPID 0, Cont p 0] h)
          else Fault Assert_failed
        else Ret (status, ask [On_signal (WSTOPSIG status), Cont p (WSTOPSIG status)] h)
      else if WIFCONTINUED status then Ret (status, ask [Cont p 0] h)
      else if WIFSIGNALED status \<and> p = main_pid (box_of h) then Fault Assert_failed
      else if WIFEXITED status \<and> p = main_pid (box_of h) then Fault Assert_failed
      else Ret (status, h))"

text \<open>
  What successive calls of \<open>waitpid\<close> return: 0 when no child has changed, -1 on an error, which
  leaves the status as it was, or a process with its status.
\<close>

datatype wait = No_change | Wait_error | Changed pid u32

partial_function (option) trap_loop ::
  "tracee \<Rightarrow> (nat \<Rightarrow> wait) \<Rightarrow> nat \<Rightarrow> u32 \<Rightarrow> 'w host \<Rightarrow> 'w host outcome option" where
  "trap_loop T w n status h =
     (case w n of
        No_change \<Rightarrow> Some (Ret h)
      | Wait_error \<Rightarrow>
          (case trap_step T (-1) status h of
             Fault f \<Rightarrow> Some (Fault f)
           | Ret r \<Rightarrow> trap_loop T w (Suc n) (fst r) (snd r))
      | Changed p st \<Rightarrow>
          (case trap_step T p st h of
             Fault f \<Rightarrow> Some (Fault f)
           | Ret r \<Rightarrow> trap_loop T w (Suc n) (fst r) (snd r)))"

definition handle_trap :: "tracee \<Rightarrow> (nat \<Rightarrow> wait) \<Rightarrow> 'w host \<Rightarrow> 'w host outcome option" where
  "handle_trap T w h = trap_loop T w 0 0 h"

end
