(* ===== verification/TracerFacts.thy ===== *)
theory TracerFacts
  imports Tracer VfsFacts Seccomp
begin

text \<open>
  What the event loop guarantees: no stopped child is left stopped, when the loop ends, what a
  trapped call finds in its registers afterwards, and where sockets are redirected to.
\<close>

section \<open>Requests are only added\<close>

definition grows :: "'w host \<Rightarrow> 'w host \<Rightarrow> request list \<Rightarrow> bool" where
  "grows h h' rs \<longleftrightarrow> requests h' = requests h @ rs"

lemma requests_simps [simp]:
  "requests (ask rs h) = requests h @ rs" "requests (set_box b h) = requests h"
  "vfs_of (ask rs h) = vfs_of h" "box_of (ask rs h) = box_of h" "box_of (set_box b h) = b"
  by (simp_all add: ask_def set_box_def box_of_def)

lemma handleSeccompEvent_grows:
  "handleSeccompEvent T p h = Ret h' \<Longrightarrow> \<exists>rs. grows h h' rs"
  unfolding grows_def
  by (auto simp: handleSeccompEvent_def node_handleSyscall_def kill_def releaseChild_def Let_def bindO_Ret_iff
      split: if_splits)

lemma handle_exec_grows: "handle_exec T p h = Ret h' \<Longrightarrow> requests h' = requests h"
  by (auto simp: handle_exec_def bindO_Ret_iff)

text \<open>After a stop the child is continued, or released when it is the main process exiting.\<close>

lemma trap_step_resumes:
  assumes "trap_step T p status h = Ret (status', h')" "WIFSTOPPED status"
  shows "\<exists>rs. requests h' = requests h @ rs \<and>
    (if WSTOPSIG status = SIGTRAP \<and> event_of status = 6 \<and> p = main_pid (box_of h)
     then Detach p 0 \<in> set rs else \<exists>sig. Cont p sig \<in> set rs)"
proof (cases "WSTOPSIG status = SIGTRAP \<and> event_of status = 7")
  case True
  with assms obtain h1 where h1: "handleSeccompEvent T p h = Ret h1" "h' = ask [Cont p 0] h1"
    by (auto simp: trap_step_def Let_def bindO_Ret_iff)
  with handleSeccompEvent_grows [OF h1(1)] True show ?thesis by (auto simp: grows_def)
next
  case seccomp: False
  show ?thesis
  proof (cases "WSTOPSIG status = SIGTRAP \<and> event_of status = 4")
    case True
    with assms obtain h1 where h1: "handle_exec T p h = Ret h1" "h' = ask [Cont p 0] h1"
      by (auto simp: trap_step_def Let_def bindO_Ret_iff)
    with handle_exec_grows [OF h1(1)] True show ?thesis by auto
  next
    case False
    with assms seccomp show ?thesis
      by (auto simp: trap_step_def Let_def bindO_Ret_iff releaseChild_def split: if_splits)
  qed
qed

section \<open>The end of the loop\<close>

lemma trap_loop_end: "w n = No_change \<Longrightarrow> trap_loop T w n status h = Some (Ret h)"
  by (subst trap_loop.simps) simp

lemma trap_loop_returns:
  fixes h :: "'w host"
  shows "w (n + k) = No_change \<Longrightarrow> \<exists>r. trap_loop T w n status h = Some r"
proof (induction k arbitrary: n status h)
  case 0
  then show ?case by (simp add: trap_loop_end)
next
  case (Suc k)
  from Suc.prems have IH: "\<exists>r. trap_loop T w (Suc n) st h1 = Some r" for st and h1 :: "'w host"
    using Suc.IH [of "Suc n"] by simp
  show ?case
    by (subst trap_loop.simps) (auto simp: IH split: wait.split outcome.split)
qed

lemma error_round: "main_pid (box_of h) \<noteq> -1 \<Longrightarrow> trap_step T (-1) 0 h = Ret (0, h)"
  by (simp add: trap_step_def WIFSTOPPED_def WIFCONTINUED_def WIFSIGNALED_def WTERMSIG_def)

lemma trap_loop_errors:
  assumes "\<And>m. w m = Wait_error" "main_pid (box_of h) \<noteq> -1"
  shows "trap_loop T w n 0 h = None"
proof (rule ccontr)
  assume "trap_loop T w n 0 h \<noteq> None"
  then obtain r where r: "trap_loop T w n 0 h = Some r" by auto
  have never: "w = (\<lambda>_. Wait_error) \<and> status = 0 \<and> main_pid (box_of h) \<noteq> -1 \<longrightarrow> False"
    if "trap_loop T w n status h = Some r" for w n status and h :: "'a host" and r
  proof (rule trap_loop.raw_induct [where P = "\<lambda>T w n status h r. w = (\<lambda>_. Wait_error) \<and> status = 0 \<and> main_pid (box_of h) \<noteq> -1 \<longrightarrow> False",
        OF _ that])
    fix f T w n status h r
    assume "\<And>T w n status h r. f T w n status h = Some r \<Longrightarrow> w = (\<lambda>_. Wait_error) \<and> status = 0 \<and> main_pid (box_of h) \<noteq> -1 \<longrightarrow> False"
      "(case w n of No_change \<Rightarrow> Some (Ret h)
        | Wait_error \<Rightarrow> (case trap_step T (-1) status h of Fault f \<Rightarrow> Some (Fault f) | Ret r \<Rightarrow> f T w (Suc n) (fst r) (snd r))
        | Changed p st \<Rightarrow> (case trap_step T p st h of Fault f \<Rightarrow> Some (Fault f) | Ret r \<Rightarrow> f T w (Suc n) (fst r) (snd r))) = Some r"
    then show "w = (\<lambda>_. Wait_error) \<and> status = 0 \<and> main_pid (box_of h) \<noteq> -1 \<longrightarrow> False"
      using error_round by fastforce
  qed
  have "w = (\<lambda>_. Wait_error)" using assms(1) by auto
  with never [OF r] assms(2) show False by simp
qed

section \<open>The registers of a trapped call\<close>

lemma arg_of_regs [simp]:
  "arg (call_of_regs junk p regs) 0 = rdi regs" "arg32 (call_of_regs junk p regs) 0 = ucast (rdi regs)"
  "sys_id (call_of_regs junk p regs) = orig_rax regs" "call_pid (call_of_regs junk p regs) = p"
  by (simp_all add: call_of_regs_def arg_def arg32_def)

lemma regs_back: "regs_of_call (call_of_regs junk p regs) regs = regs\<lparr>rax := junk\<rparr>"
  by (simp add: regs_of_call_def call_of_regs_def arg_def)

lemma node_passes:
  assumes "sys_id c \<notin> {41, 49, 59}"
  shows "node_handleSyscall junk c h = Ret (c, h)"
  using assms by (auto simp: node_handleSyscall_def)

lemma handleSeccompEvent_vfs:
  assumes "handleSeccompEvent T p h = Ret h'" "entered_main (box_of h)" "orig_rax (regs_of T p) \<notin> {41, 49, 59}"
  shows "\<exists>c v. handleSyscall (call_of_regs (junk_return T) p (regs_of T p)) (vfs_of (set_box (resetScratch (box_of h)) h)) = Ret (c, v) \<and>
    requests h' = requests h @ [Set_regs p (regs_of_call c (regs_of T p))] \<and> vfs_of h' = v"
  using assms by (auto simp: handleSeccompEvent_def Let_def bindO_Ret_iff node_passes)

section \<open>Redirected sockets\<close>

definition dec_value :: "byte list \<Rightarrow> nat" where
  "dec_value ds = foldl (\<lambda>n d. 10 * n + (unat d - 48)) 0 ds"

lemma dec_digits_value: "dec_value (dec_digits n) = n"
proof (induction n rule: dec_digits.induct)
  case (1 n)
  have d: "unat (of_nat (48 + k) :: byte) - 48 = k" if "k < 10" for k
    using that by (simp add: unat_of_nat take_bit_nat_eq_self del: of_nat_add)
  show ?case
  proof (cases "n < 10")
    case True
    then show ?thesis using d [of n] by (simp add: dec_digits.simps [of n] dec_value_def del: of_nat_add)
  next
    case False
    then show ?thesis using 1 d [of "n mod 10"]
      by (simp add: dec_digits.simps [of n] dec_value_def del: of_nat_add)
  qed
qed

lemma dec_digits_range: "d \<in> set (dec_digits n) \<Longrightarrow> 48 \<le> d \<and> d \<le> 57"
proof (induction n rule: dec_digits.induct)
  case (1 n)
  have r: "48 \<le> (of_nat (48 + k) :: byte) \<and> (of_nat (48 + k) :: byte) \<le> 57" if "k < 10" for k
    using that by (simp add: word_le_nat_alt unat_of_nat take_bit_nat_eq_self del: of_nat_add)
  show ?case
    using 1 r [of n] r [of "n mod 10"] by (cases "n < 10") (auto simp: dec_digits.simps [of n] simp del: of_nat_add)
qed

lemma dec_int_inject: "dec_int v = dec_int w \<Longrightarrow> v = w"
proof -
  assume e: "dec_int v = dec_int w"
  have hd: "dec_digits n \<noteq> 0x2D # xs" for n xs using dec_digits_range [of "0x2D" n] by auto
  have inj: "dec_digits m = dec_digits n \<Longrightarrow> m = n" for m n using dec_digits_value by metis
  have "sint v = sint w"
  proof (cases "sint v < 0"; cases "sint w < 0")
    assume "sint v < 0" "sint w < 0"
    with e inj [of "nat (- sint v)" "nat (- sint w)"] show ?thesis by (simp add: dec_int_def eq_nat_nat_iff)
  next
    assume "\<not> sint v < 0" "\<not> sint w < 0"
    with e inj [of "nat (sint v)" "nat (sint w)"] show ?thesis by (simp add: dec_int_def eq_nat_nat_iff)
  qed (use e hd in \<open>auto simp: dec_int_def dest: sym\<close>)
  then show ?thesis by (rule signed_word_eqI)
qed

lemma socket_path_inject: "socket_path p v = socket_path p w \<Longrightarrow> v = w"
  using dec_int_inject by (simp add: socket_path_def)

lemma dec_digits_length: "n < 10 ^ Suc k \<Longrightarrow> length (dec_digits n) \<le> Suc k"
proof (induction k arbitrary: n)
  case (Suc k)
  show ?case
  proof (cases "n < 10")
    case False
    have "n div 10 < 10 ^ Suc k" using Suc.prems by (simp add: less_mult_imp_div_less)
    with Suc.IH False show ?thesis by (simp add: dec_digits.simps [of n])
  qed (simp add: dec_digits.simps [of n])
next
  case 0
  then show ?case by (simp add: dec_digits.simps [of n])
qed

lemma dec_int_bounds: "length (dec_int w) \<le> 11" "0 \<notin> set (dec_int w)"
proof -
  have s: "- 2147483648 \<le> sint w" "sint w < 2147483648" using sint_ge [of w] sint_lt [of w] by simp_all
  then have "nat (- sint w) < 10 ^ Suc 9" "nat (sint w) < 10 ^ Suc 9" by auto
  with dec_digits_length [of "nat (- sint w)" 9] dec_digits_length [of "nat (sint w)" 9]
  show "length (dec_int w) \<le> 11" by (simp add: dec_int_def)
  have "0 \<notin> set (dec_digits n)" for n using dec_digits_range [of 0 n] by auto
  then show "0 \<notin> set (dec_int w)" by (simp add: dec_int_def)
qed

lemma sockaddr_layout:
  assumes "length junk = 108"
  shows "length (sockaddr_un junk p fd) = 110" "take 2 (sockaddr_un junk p fd) = to_le 2 AF_UNIX"
    "c_str (drop 2 (sockaddr_un junk p fd)) = socket_path p fd"
proof -
  let ?t = "socket_path p fd"
  have l: "length ?t \<le> 50" using dec_int_bounds(1) [of p] dec_int_bounds(1) [of fd]
    by (simp add: socket_path_def ascii_def)
  then have s: "snprintf 108 ?t junk = ?t @ 0 # drop (Suc (length ?t)) junk"
    by (simp add: snprintf_def Let_def)
  have z: "0 \<notin> set ?t" using dec_int_bounds(2) by (auto simp: socket_path_def ascii_def)
  show "length (sockaddr_un junk p fd) = 110" using l assms by (simp add: sockaddr_un_def s)
  show "take 2 (sockaddr_un junk p fd) = to_le 2 AF_UNIX" by (simp add: sockaddr_un_def)
  show "c_str (drop 2 (sockaddr_un junk p fd)) = ?t" by (simp add: sockaddr_un_def s c_str_append [OF z])
qed

text \<open>A child whose memory is all mapped.\<close>

definition bind_child :: sandbox where
  "bind_child = no_child\<lparr>mem := \<lambda>_ _. Some 0, nextScratchSegment := 0x1000\<rparr>"

lemma bind_redirects:
  assumes "sys_id c = 49" "length junk = 108" "length (args c) = 6"
    and "mapped (mem (box_of h) (main_pid (box_of h))) (nextScratchSegment (box_of h)) 112"
    and "unat (nextScratchSegment (box_of h)) + 128 \<le> 2 ^ 64"
  shows "\<exists>c' h'. node_handleSyscall junk c h = Ret (c', h') \<and> arg c' 2 = 110 \<and>
    arg c' 1 = nextScratchSegment (box_of h) \<and>
    mem_bytes (mem (box_of h') (main_pid (box_of h))) (arg c' 1) 110 = Some (sockaddr_un junk (main_pid (box_of h)) (arg32 c 0)) \<and>
    inj (socket_path (main_pid (box_of h)))"
proof -
  let ?b = "box_of h"
  define addr where "addr = sockaddr_un junk (main_pid ?b) (arg32 c 0)"
  have l: "length addr = 110" using sockaddr_layout(1) [OF assms(2)] by (simp add: addr_def)
  have "words 14 (length addr)" by (simp add: words_def l)
  moreover have "mapped (mem ?b (main_pid ?b)) (nextScratchSegment ?b) (8 * 14)" using assms(4) by simp
  ultimately obtain v where w: "writeScratch ?b (length addr) addr = Ret (nextScratchSegment ?b,
      ?b\<lparr>errno := 0, nextScratchSegment := v, mem := (mem ?b)(main_pid ?b := mem_write (mem ?b (main_pid ?b)) (nextScratchSegment ?b) addr)\<rparr>)"
    using writeScratch_Ret [of ?b 14 "length addr" addr] l assms(5) by auto
  have "mem_bytes (mem_write (mem ?b (main_pid ?b)) (nextScratchSegment ?b) addr) (nextScratchSegment ?b) 110 = Some addr"
    using mem_read_back [of addr] l by simp
  moreover have "inj (socket_path (main_pid ?b))" by (rule injI) (rule socket_path_inject)
  ultimately show ?thesis
    using assms(1,3) w l by (simp add: node_handleSyscall_def addr_def [symmetric] Let_def arg_def)
qed

section \<open>Properties\<close>


definition sample_host :: "unit host" where
  "sample_host = \<lparr>vfs_of = sample_vfs, requests = []\<rparr>"

definition sample_regs :: user_regs where
  "sample_regs = \<lparr>orig_rax = 8, rax = 0, rdi = 4096, rsi = 0, rdx = 0, rcx = 0, r8 = 0, r9 = 0, r10 = 0, rsp = 0\<rparr>"

definition sample_tracee :: tracee where
  "sample_tracee = \<lparr>regs_of = \<lambda>_. sample_regs, event_msg = \<lambda>_. 0, junk_return = 0, junk_path = replicate 108 0xAA, environ_bound = 0\<rparr>"




text \<open>
  When \<open>waitpid\<close> keeps failing (it returns -1 when there is no such child left), the loop
  takes no notice and never ends.
\<close>

theorem handle_trap_spins_on_errors:
  assumes "main_pid (box_of h) \<noteq> -1"
  shows "handle_trap T (\<lambda>_. Wait_error) h = None"
  using trap_loop_errors [of "\<lambda>_. Wait_error" h T 0] assms by (simp add: handle_trap_def)

theorem handle_trap_spins_on_errors_witness: "handle_trap sample_tracee (\<lambda>_. Wait_error) sample_host = None"
  by (rule handle_trap_spins_on_errors) (simp add: sample_host_def box_of_def sample_vfs_def no_child_def)



text \<open>
  The fourth argument of a call is taken from \<open>rcx\<close>, which the kernel overwrites on entry,
  and not from \<open>r10\<close>, where the call has it: the handlers never see \<open>r10\<close>.
\<close>

theorem fourth_argument_ignored:
  "bindO (handleSeccompEvent T p h) (\<lambda>h'. Ret (vfs_of h')) =
   bindO (handleSeccompEvent (T\<lparr>regs_of := (regs_of T)(p := (regs_of T p)\<lparr>r10 := x\<rparr>)\<rparr>) p h) (\<lambda>h'. Ret (vfs_of h'))"
proof -
  have "call_of_regs j p ((regs_of T p)\<lparr>r10 := x\<rparr>) = call_of_regs j p (regs_of T p)" for j
    by (simp add: call_of_regs_def)
  then show ?thesis
    by (simp add: handleSeccompEvent_def Let_def bindO_assoc case_prod_beta)
qed

text \<open>
  A \<open>bind\<close> is redirected: the child's call gets the address of a UNIX socket in the scratch
  area whose path is made of the sandbox and the descriptor, so that different descriptors get
  different sockets.
\<close>

theorem bind_redirected:
  assumes "sys_id c = 49" "length junk = 108" "length (args c) = 6"
    and "mapped (mem (box_of h) (main_pid (box_of h))) (nextScratchSegment (box_of h)) 112"
    and "unat (nextScratchSegment (box_of h)) + 128 \<le> 2 ^ 64"
  shows "\<exists>c' h'. node_handleSyscall junk c h = Ret (c', h') \<and> arg c' 2 = 110 \<and>
    arg c' 1 = nextScratchSegment (box_of h) \<and>
    mem_bytes (mem (box_of h') (main_pid (box_of h))) (arg c' 1) 110 = Some (sockaddr_un junk (main_pid (box_of h)) (arg32 c 0)) \<and>
    inj (socket_path (main_pid (box_of h)))"
  using assms by (rule bind_redirects)

theorem bind_redirected_witness:
  "\<exists>c' h'. node_handleSyscall (replicate 108 0) (sample_call 49 3) (sample_host\<lparr>vfs_of := sample_vfs\<lparr>sbox := bind_child\<rparr>\<rparr>) = Ret (c', h') \<and>
    arg c' 2 = 110 \<and> arg c' 1 = 0x1000"
proof -
  let ?h = "sample_host\<lparr>vfs_of := sample_vfs\<lparr>sbox := bind_child\<rparr>\<rparr>"
  have "mapped (mem (box_of ?h) (main_pid (box_of ?h))) (nextScratchSegment (box_of ?h)) 112"
    by (simp add: box_of_def bind_child_def mapped_def)
  from bind_redirected [OF _ _ _ this, of "sample_call 49 3" "replicate 108 0"] show ?thesis
    by (auto simp: sample_call_def box_of_def bind_child_def)
qed

end
