(* ===== verification/Launch.thy ===== *)
theory Launch
  imports Seccomp
begin

text \<open>
  The start of a sandbox: the channels of src/sandbox-ipc.cpp and \<open>spawn\<close>, \<open>traceChild\<close> and
  \<open>execChild\<close> of src/sandbox.cpp on the descriptor tables of the two processes, and the two
  processes side by side. Which descriptors \<open>socketpair\<close> takes and how /proc/self/fd is listed are
  parameters.
\<close>

section \<open>Descriptors\<close>

text \<open>What a descriptor refers to: one end of a pair of sockets, or something the host opened.\<close>

datatype opened = Parent_end nat | Child_end nat | Opened nat

type_synonym fd_table = "u32 \<Rightarrow> opened option"

text \<open>\<open>dup2\<close> closes what the new descriptor referred to; \<open>close\<close> of a descriptor not open does nothing.\<close>

definition dup2 :: "u32 \<Rightarrow> u32 \<Rightarrow> fd_table \<Rightarrow> u32 \<times> fd_table" where
  "dup2 old new t = (case t old of None \<Rightarrow> (-1, t) | Some f \<Rightarrow> (new, t(new \<mapsto> f)))"

definition close_fd :: "u32 \<Rightarrow> fd_table \<Rightarrow> fd_table" where
  "close_fd fd t = t(fd := None)"

section \<open>Channels\<close>

text \<open>The base class with its two ends; \<open>poll\<close> says whether the loop watches the parent's end.\<close>

record SandboxIPC =
  parent_fd :: u32
  child_fd :: u32
  dupAs :: u32
  poll :: bool

text \<open>
  The supervisor: its table, how many pairs it has made, its channels. \<open>pick\<close> gives the two
  descriptors of a new pair, or none when \<open>socketpair\<close> fails, and then they are \<open>junk_fds\<close>;
  \<open>poll_starts\<close> says for which descriptors the loop can watch them.
\<close>

record supervisor =
  fd_table :: fd_table
  pairs :: nat
  ipcSockets :: "SandboxIPC list"

record chooser =
  pick :: "fd_table \<Rightarrow> (u32 \<times> u32) option"
  junk_fds :: "u32 \<times> u32"
  poll_starts :: "u32 \<Rightarrow> bool"

definition mk_SandboxIPC :: "chooser \<Rightarrow> u32 \<Rightarrow> supervisor \<Rightarrow> SandboxIPC \<times> supervisor" where
  "mk_SandboxIPC P dup_as s =
     (case pick P (fd_table s) of
        None \<Rightarrow> (\<lparr>parent_fd = fst (junk_fds P), child_fd = snd (junk_fds P), dupAs = dup_as, poll = False\<rparr>, s)
      | Some (p, c) \<Rightarrow>
          (\<lparr>parent_fd = p, child_fd = c, dupAs = dup_as, poll = False\<rparr>,
           s\<lparr>fd_table := (fd_table s)(p \<mapsto> Parent_end (pairs s), c \<mapsto> Child_end (pairs s)), pairs := pairs s + 1\<rparr>))"

definition dup_channel :: "SandboxIPC \<Rightarrow> fd_table \<Rightarrow> bool \<times> fd_table" where
  "dup_channel ipc t = (let (r, t) = dup2 (child_fd ipc) (dupAs ipc) t in (r = dupAs ipc, t))"

text \<open>\<open>ok\<close> is whether the loop accepted the request; nobody looks at the result.\<close>

definition startPoll :: "bool \<Rightarrow> SandboxIPC \<Rightarrow> bool \<times> SandboxIPC" where
  "startPoll ok ipc = (ok, ipc\<lparr>poll := ok\<rparr>)"

definition stopPoll :: "bool \<Rightarrow> SandboxIPC \<Rightarrow> bool \<times> SandboxIPC" where
  "stopPoll ok ipc = (ok, ipc\<lparr>poll := poll ipc \<and> \<not> ok\<rparr>)"

definition delete_SandboxIPC :: "SandboxIPC \<Rightarrow> fd_table \<Rightarrow> fd_table" where
  "delete_SandboxIPC ipc t = (let (_, ipc) = stopPoll True ipc in close_fd (parent_fd ipc) (close_fd (child_fd ipc) t))"

definition addIPC :: "SandboxIPC \<Rightarrow> supervisor \<Rightarrow> supervisor" where
  "addIPC ipc s = s\<lparr>ipcSockets := ipcSockets s @ [ipc]\<rparr>"

text \<open>A channel is made and added; \<open>node_new\<close> does so for the two output streams.\<close>

definition add_channel :: "chooser \<Rightarrow> u32 \<Rightarrow> supervisor \<Rightarrow> supervisor" where
  "add_channel P dup_as s = (let (ipc, s) = mk_SandboxIPC P dup_as s in addIPC ipc s)"

definition node_new :: "chooser \<Rightarrow> supervisor \<Rightarrow> supervisor" where
  "node_new P s = add_channel P 2 (add_channel P 1 s)"

text \<open>\<open>ipcSockets.clear ()\<close> deletes the channels in their order.\<close>

definition clear_channels :: "supervisor \<Rightarrow> supervisor" where
  "clear_channels s = s\<lparr>fd_table := fold delete_SandboxIPC (ipcSockets s) (fd_table s), ipcSockets := []\<rparr>"

section \<open>The two sides of a fork\<close>

text \<open>What the supervisor does with the child before it returns to its loop.\<close>

datatype tracer_step =
    Attach
  | Wait_stop
  | Set_trace_options
  | Signal_init
  | Start_poll u32
  | Signal_start
  | Cont_child

definition traceChild :: "SandboxIPC list \<Rightarrow> tracer_step list" where
  "traceChild ipcs =
     [Attach, Wait_stop, Set_trace_options, Signal_init] @ map (\<lambda>ipc. Start_poll (parent_fd ipc)) ipcs @ [Signal_start, Cont_child]"

text \<open>The loop over the channels in \<open>execChild\<close> ends with the first that cannot be bound.\<close>

fun dup_channels :: "SandboxIPC list \<Rightarrow> fd_table \<Rightarrow> (u32 \<times> bool) list \<times> fd_table" where
  "dup_channels [] t = ([], t)"
| "dup_channels (ipc # ipcs) t =
     (let (ok, t) = dup_channel ipc t in
      if ok then let (r, t) = dup_channels ipcs t in ((dupAs ipc, True) # r, t) else ([(dupAs ipc, False)], t))"

fun close_steps :: "child_step list \<Rightarrow> fd_table \<Rightarrow> fd_table" where
  "close_steps [] t = t"
| "close_steps (CloseFD fd # steps) t = close_steps steps (close_fd fd t)"
| "close_steps (_ # steps) t = close_steps steps t"

text \<open>The child, with a copy of the table: its steps, and the table it is left with.\<close>

definition start_child ::
  "(fd_table \<Rightarrow> byte list list) \<Rightarrow> byte list \<Rightarrow> child_env \<Rightarrow> SandboxIPC list \<Rightarrow> fd_table \<Rightarrow> child_step list \<times> fd_table" where
  "start_child listing buf e ipcs t =
     (let (dups, t) = dup_channels ipcs t;
          steps = execChild_in buf (e\<lparr>ipc_dups := dups, fd_names := listing t\<rparr>)
      in (steps, close_steps steps t))"

text \<open>\<open>spawn\<close> adds the channel for requests and forks. A negative \<open>pid\<close> is taken for a child.\<close>

datatype forked = Supervising "tracer_step list" | Executing "child_step list" fd_table

definition spawn ::
  "chooser \<Rightarrow> (fd_table \<Rightarrow> byte list list) \<Rightarrow> byte list \<Rightarrow> child_env \<Rightarrow> u32 \<Rightarrow> supervisor \<Rightarrow> forked \<times> supervisor" where
  "spawn P listing buf e pid s =
     (let s = add_channel P 3 s in
      if pid \<noteq> 0 then
        (Supervising (traceChild (ipcSockets s)),
         s\<lparr>ipcSockets := map (\<lambda>ipc. snd (startPoll (poll_starts P (parent_fd ipc)) ipc)) (ipcSockets s)\<rparr>)
      else let (steps, t) = start_child listing buf e (ipcSockets s) (fd_table s) in
        (Executing steps t, s))"

section \<open>The processes side by side\<close>

text \<open>
  The steps the two processes have left, and what the kernel knows of the child. A stop signal
  sent by \<open>PTRACE_ATTACH\<close> arrives at some later time; a stopped process takes no step; requests
  other than attaching work on a stopped process that is traced, and fail unnoticed otherwise.
  The loop of the supervisor runs when \<open>traceChild\<close> is done.
\<close>

record launch =
  child_left :: "child_step list"
  tracer_left :: "tracer_step list"
  traced :: bool
  options_set :: bool
  stopped :: bool
  stop_pending :: bool
  executed :: bool

definition launch_start :: "child_step list \<Rightarrow> tracer_step list \<Rightarrow> launch" where
  "launch_start steps ts =
     \<lparr>child_left = steps, tracer_left = ts, traced = False, options_set = False, stopped = False,
      stop_pending = False, executed = False\<rparr>"

definition after_child_step :: "child_step \<Rightarrow> launch \<Rightarrow> launch" where
  "after_child_step x s =
     (case x of
        Traceme \<Rightarrow> s\<lparr>traced := True\<rparr>
      | Raise_stop \<Rightarrow> s\<lparr>stopped := True\<rparr>
      | Execvp _ \<Rightarrow> s\<lparr>executed := True\<rparr>
      | _ \<Rightarrow> s)"

definition after_tracer_step :: "tracer_step \<Rightarrow> launch \<Rightarrow> launch" where
  "after_tracer_step x s =
     (case x of
        Attach \<Rightarrow> (if traced s then s else s\<lparr>traced := True, stop_pending := True\<rparr>)
      | Set_trace_options \<Rightarrow> (if traced s \<and> stopped s then s\<lparr>options_set := True\<rparr> else s)
      | Cont_child \<Rightarrow> (if traced s \<and> stopped s then s\<lparr>stopped := False\<rparr> else s)
      | _ \<Rightarrow> s)"

inductive launch_step :: "launch \<Rightarrow> launch \<Rightarrow> bool" where
  child: "child_left s = x # xs \<Longrightarrow> \<not> stopped s \<Longrightarrow> launch_step s (after_child_step x (s\<lparr>child_left := xs\<rparr>))"
| stop: "stop_pending s \<Longrightarrow> launch_step s (s\<lparr>stop_pending := False, stopped := True\<rparr>)"
| tracer: "tracer_left s = x # xs \<Longrightarrow> (x = Wait_stop \<Longrightarrow> traced s \<and> stopped s) \<Longrightarrow>
    launch_step s (after_tracer_step x (s\<lparr>tracer_left := xs\<rparr>))"
| resume: "tracer_left s = [] \<Longrightarrow> traced s \<Longrightarrow> stopped s \<Longrightarrow> launch_step s (s\<lparr>stopped := False\<rparr>)"

inductive launch_reach :: "launch \<Rightarrow> launch \<Rightarrow> bool" for s0 where
  start: "launch_reach s0 s0"
| step: "launch_reach s0 s \<Longrightarrow> launch_step s s' \<Longrightarrow> launch_reach s0 s'"

end
