(* ===== verification/LaunchFacts.thy ===== *)
theory LaunchFacts
  imports Launch TracerFacts
begin

text \<open>
  What the start of a sandbox guarantees: the descriptors the program is left with, that the
  channels leave no descriptor behind, and that the program is never executed untraced, however
  the two processes are interleaved.
\<close>

section \<open>The channels of the child\<close>

lemma dup_channels_bound:
  assumes "\<forall>ipc \<in> set ipcs. t (child_fd ipc) = Some (ob ipc)" "distinct (map dupAs ipcs)"
    "sorted_wrt (\<lambda>i j. child_fd j \<noteq> dupAs i) ipcs"
  shows "dup_channels ipcs t =
    (map (\<lambda>ipc. (dupAs ipc, True)) ipcs, t ++ map_of (map (\<lambda>ipc. (dupAs ipc, ob ipc)) ipcs))"
  using assms
proof (induction ipcs arbitrary: t)
  case (Cons ipc ipcs)
  let ?t = "t(dupAs ipc \<mapsto> ob ipc)"
  have d: "dup_channel ipc t = (True, ?t)"
    using Cons.prems(1) by (simp add: dup_channel_def dup2_def)
  have "dup_channels ipcs ?t = (map (\<lambda>ipc. (dupAs ipc, True)) ipcs, ?t ++ map_of (map (\<lambda>ipc. (dupAs ipc, ob ipc)) ipcs))"
    using Cons.prems by (intro Cons.IH) auto
  moreover have "dupAs ipc \<notin> dom (map_of (map (\<lambda>ipc. (dupAs ipc, ob ipc)) ipcs))"
    using Cons.prems(2) by (auto dest!: map_of_SomeD)
  then have "?t ++ map_of (map (\<lambda>ipc. (dupAs ipc, ob ipc)) ipcs) =
      t ++ map_of (map (\<lambda>ipc. (dupAs ipc, ob ipc)) (ipc # ipcs))"
    by (auto simp: map_add_def fun_eq_iff dom_def split: option.splits)
  ultimately show ?case using d by (auto simp: map_add_def fun_eq_iff split: option.splits)
qed simp

lemma bind_channels_all: "bind_channels (map (\<lambda>ipc. (dupAs ipc, True)) ipcs) = (map (\<lambda>ipc. Dup2 (dupAs ipc)) ipcs, True)"
  by (induction ipcs) simp_all

lemma close_steps_append: "close_steps (xs @ ys) t = close_steps ys (close_steps xs t)"
  by (induction xs t rule: close_steps.induct) simp_all

fun closes_none :: "child_step \<Rightarrow> bool" where
  "closes_none (CloseFD _) = False"
| "closes_none _ = True"

lemma close_steps_none: "list_all closes_none steps \<Longrightarrow> close_steps steps t = t"
  by (induction steps t rule: close_steps.induct) simp_all

lemma close_steps_close: "close_steps (map CloseFD fds) t = (\<lambda>fd. if fd \<in> set fds then None else t fd)"
  by (induction fds arbitrary: t) (auto simp: close_fd_def fun_eq_iff)

lemma execChild_closes:
  assumes "ipc_dups e = map (\<lambda>ipc. (dupAs ipc, True)) ipcs"
  shows "close_steps (execChild_in buf e) t =
    (\<lambda>fd. if fd \<in> set (unusedFDs (permittedFDs e) (fd_names e)) then None else t fd)"
proof -
  have "list_all closes_none (map (\<lambda>ipc. Dup2 (dupAs ipc)) ipcs)" "list_all closes_none (map (\<lambda>(k, v). Setenv k v) (environment e))"
    by (simp_all add: list_all_iff split: prod.splits)
  then show ?thesis
    by (auto simp: execChild_in_def assms bind_channels_all close_steps_append close_steps_close close_steps_none
        split: outcome.splits)
qed

text \<open>A listing of /proc/self/fd has a name for every descriptor that is open.\<close>

definition lists_open :: "(fd_table \<Rightarrow> byte list list) \<Rightarrow> bool" where
  "lists_open listing \<longleftrightarrow> (\<forall>t fd. t fd \<noteq> None \<longrightarrow> (\<exists>nm \<in> set (listing t). strtol nm = (fd, True)))"

lemma start_child_table:
  assumes "\<forall>ipc \<in> set ipcs. t (child_fd ipc) = Some (ob ipc)" "distinct (map dupAs ipcs)"
    "sorted_wrt (\<lambda>i j. child_fd j \<noteq> dupAs i) ipcs" "ipcs \<noteq> []" "lists_open listing"
  shows "snd (start_child listing buf e ipcs t) =
    (\<lambda>fd. if fd = 0 \<or> fd \<in> dupAs ` set ipcs then (t ++ map_of (map (\<lambda>ipc. (dupAs ipc, ob ipc)) ipcs)) fd else None)"
proof -
  let ?t = "t ++ map_of (map (\<lambda>ipc. (dupAs ipc, ob ipc)) ipcs)"
  let ?e = "e\<lparr>ipc_dups := map (\<lambda>ipc. (dupAs ipc, True)) ipcs, fd_names := listing ?t\<rparr>"
  have permitted: "set (permittedFDs ?e) = insert 0 (dupAs ` set ipcs)"
    using assms(4) by (force simp: permittedFDs_def)
  have fds: "fd \<in> set (unusedFDs (permittedFDs ?e) (listing ?t)) \<longleftrightarrow> fd \<noteq> 0 \<and> fd \<notin> dupAs ` set ipcs"
    if "?t fd \<noteq> None" for fd
  proof -
    from assms(5) [unfolded lists_open_def, rule_format, of ?t fd] that
    obtain nm where "nm \<in> set (listing ?t)" "strtol nm = (fd, True)" by blast
    from unusedFDs_complete [OF this, of "permittedFDs ?e"] unusedFDs_not_permitted [of fd "permittedFDs ?e" "listing ?t"]
    show ?thesis unfolding permitted by blast
  qed
  have "snd (start_child listing buf e ipcs t) = close_steps (execChild_in buf ?e) ?t"
    by (simp add: start_child_def dup_channels_bound [OF assms(1-3)] Let_def)
  also have "\<dots> = (\<lambda>fd. if fd \<in> set (unusedFDs (permittedFDs ?e) (listing ?t)) then None else ?t fd)"
    using execChild_closes [of ?e ipcs] by simp
  also have "\<dots> = (\<lambda>fd. if fd = 0 \<or> fd \<in> dupAs ` set ipcs then ?t fd else None)"
  proof
    fix fd
    show "(if fd \<in> set (unusedFDs (permittedFDs ?e) (listing ?t)) then None else ?t fd) =
        (if fd = 0 \<or> fd \<in> dupAs ` set ipcs then ?t fd else None)"
      using fds [of fd] by (cases "?t fd = None") (auto simp del: map_add_None)
  qed
  finally show ?thesis .
qed

section \<open>Making channels\<close>

text \<open>\<open>socketpair\<close> takes two descriptors that are free, as long as the limit is not reached.\<close>

definition picks_free :: "nat \<Rightarrow> chooser \<Rightarrow> bool" where
  "picks_free L P \<longleftrightarrow> (\<forall>t. card (dom t) + 2 \<le> L \<longrightarrow> (\<exists>p c. pick P t = Some (p, c) \<and> p \<noteq> c \<and> t p = None \<and> t c = None))"

lemma add_channel_free:
  assumes "picks_free L P" "card (dom (fd_table s)) + 2 \<le> L"
  shows "\<exists>p c. add_channel P d s = s\<lparr>fd_table := (fd_table s)(p \<mapsto> Parent_end (pairs s), c \<mapsto> Child_end (pairs s)),
      pairs := pairs s + 1, ipcSockets := ipcSockets s @ [\<lparr>parent_fd = p, child_fd = c, dupAs = d, poll = False\<rparr>]\<rparr> \<and>
    p \<noteq> c \<and> fd_table s p = None \<and> fd_table s c = None \<and>
    card (dom (fd_table (add_channel P d s))) = card (dom (fd_table s)) + 2"
proof -
  from assms obtain p c where pc: "pick P (fd_table s) = Some (p, c)" "p \<noteq> c" "fd_table s p = None" "fd_table s c = None"
    unfolding picks_free_def by blast
  moreover from pc have "card (insert c (insert p (dom (fd_table s)))) = card (dom (fd_table s)) + 2"
    by (simp add: card_insert_if domIff)
  ultimately show ?thesis
    by (intro exI [of _ p] exI [of _ c]) (auto simp: add_channel_def mk_SandboxIPC_def addIPC_def)
qed

lemma three_channels:
  assumes P: "picks_free L P" "card (dom (fd_table s)) + 6 \<le> L" and s: "ipcSockets s = []"
  shows "\<exists>p1 c1 p2 c2 p3 c3. distinct [p1, c1, p2, c2, p3, c3] \<and> (\<forall>x \<in> {p1, c1, p2, c2, p3, c3}. fd_table s x = None) \<and>
    fd_table (add_channel P 3 (node_new P s)) = (fd_table s)(p1 \<mapsto> Parent_end (pairs s), c1 \<mapsto> Child_end (pairs s),
      p2 \<mapsto> Parent_end (pairs s + 1), c2 \<mapsto> Child_end (pairs s + 1), p3 \<mapsto> Parent_end (pairs s + 2), c3 \<mapsto> Child_end (pairs s + 2)) \<and>
    ipcSockets (add_channel P 3 (node_new P s)) =
      [\<lparr>parent_fd = p1, child_fd = c1, dupAs = 1, poll = False\<rparr>, \<lparr>parent_fd = p2, child_fd = c2, dupAs = 2, poll = False\<rparr>,
       \<lparr>parent_fd = p3, child_fd = c3, dupAs = 3, poll = False\<rparr>]"
proof -
  let ?s1 = "add_channel P 1 s" and ?s2 = "node_new P s" and ?s3 = "add_channel P 3 (node_new P s)"
  obtain p1 c1 where s1: "?s1 = s\<lparr>fd_table := (fd_table s)(p1 \<mapsto> Parent_end (pairs s), c1 \<mapsto> Child_end (pairs s)),
      pairs := pairs s + 1, ipcSockets := [\<lparr>parent_fd = p1, child_fd = c1, dupAs = 1, poll = False\<rparr>]\<rparr>"
    "p1 \<noteq> c1" "fd_table s p1 = None" "fd_table s c1 = None" "card (dom (fd_table ?s1)) = card (dom (fd_table s)) + 2"
    using add_channel_free [OF P(1), of s 1] P(2) s by auto
  obtain p2 c2 where s2: "?s2 = ?s1\<lparr>fd_table := (fd_table ?s1)(p2 \<mapsto> Parent_end (pairs ?s1), c2 \<mapsto> Child_end (pairs ?s1)),
      pairs := pairs ?s1 + 1, ipcSockets := ipcSockets ?s1 @ [\<lparr>parent_fd = p2, child_fd = c2, dupAs = 2, poll = False\<rparr>]\<rparr>"
    "p2 \<noteq> c2" "fd_table ?s1 p2 = None" "fd_table ?s1 c2 = None" "card (dom (fd_table ?s2)) = card (dom (fd_table s)) + 4"
    using add_channel_free [OF P(1), of ?s1 2] P(2) s1(5) unfolding node_new_def by auto
  obtain p3 c3 where s3: "?s3 = ?s2\<lparr>fd_table := (fd_table ?s2)(p3 \<mapsto> Parent_end (pairs ?s2), c3 \<mapsto> Child_end (pairs ?s2)),
      pairs := pairs ?s2 + 1, ipcSockets := ipcSockets ?s2 @ [\<lparr>parent_fd = p3, child_fd = c3, dupAs = 3, poll = False\<rparr>]\<rparr>"
    "p3 \<noteq> c3" "fd_table ?s2 p3 = None" "fd_table ?s2 c3 = None"
    using add_channel_free [OF P(1), of ?s2 3] P(2) s2(5) by auto
  have ne: "distinct [p1, c1, p2, c2, p3, c3]" "\<forall>x \<in> {p1, c1, p2, c2, p3, c3}. fd_table s x = None"
    using s1(2-4) s2(2-4) s3(2-4) by (auto simp: s2(1) s1(1) split: if_splits)
  have "fd_table ?s3 = (fd_table s)(p1 \<mapsto> Parent_end (pairs s), c1 \<mapsto> Child_end (pairs s),
      p2 \<mapsto> Parent_end (pairs s + 1), c2 \<mapsto> Child_end (pairs s + 1), p3 \<mapsto> Parent_end (pairs s + 2), c3 \<mapsto> Child_end (pairs s + 2))"
    unfolding s3(1) unfolding s2(1) unfolding s1(1) by simp
  moreover have "ipcSockets ?s3 =
      [\<lparr>parent_fd = p1, child_fd = c1, dupAs = 1, poll = False\<rparr>, \<lparr>parent_fd = p2, child_fd = c2, dupAs = 2, poll = False\<rparr>,
       \<lparr>parent_fd = p3, child_fd = c3, dupAs = 3, poll = False\<rparr>]"
    unfolding s3(1) unfolding s2(1) unfolding s1(1) by simp
  ultimately show ?thesis using ne by (intro exI conjI)
qed

section \<open>Schedules\<close>

text \<open>Who takes the next step: the child, the supervisor, or the signal that is pending.\<close>

datatype turn = Child_turn | Tracer_turn | Stop_turn

fun take_turn :: "turn \<Rightarrow> launch \<Rightarrow> launch option" where
  "take_turn Child_turn s =
     (case child_left s of
        [] \<Rightarrow> None
      | x # xs \<Rightarrow> if stopped s then None else Some (after_child_step x (s\<lparr>child_left := xs\<rparr>)))"
| "take_turn Tracer_turn s =
     (case tracer_left s of
        [] \<Rightarrow> if traced s \<and> stopped s then Some (s\<lparr>stopped := False\<rparr>) else None
      | x # xs \<Rightarrow>
          if x = Wait_stop \<and> \<not> (traced s \<and> stopped s) then None
          else Some (after_tracer_step x (s\<lparr>tracer_left := xs\<rparr>)))"
| "take_turn Stop_turn s = (if stop_pending s then Some (s\<lparr>stop_pending := False, stopped := True\<rparr>) else None)"

fun take_turns :: "turn list \<Rightarrow> launch \<Rightarrow> launch option" where
  "take_turns [] s = Some s"
| "take_turns (t # ts) s = (case take_turn t s of None \<Rightarrow> None | Some s' \<Rightarrow> take_turns ts s')"

lemma take_turn_step: "take_turn t s = Some s' \<Longrightarrow> launch_step s s'"
  by (cases t) (auto split: list.splits if_splits intro: launch_step.intros)

lemma take_turns_reach: "launch_reach s0 s \<Longrightarrow> take_turns ts s = Some s' \<Longrightarrow> launch_reach s0 s'"
  by (induction ts arbitrary: s) (auto split: option.splits dest: take_turn_step intro: launch_reach.step)

section \<open>The invariant of the start\<close>

text \<open>
  As long as the trace options are not set, the supervisor still has to set them, on a stopped
  child once it has waited, and the child is stopped or has yet to stop itself before it executes
  anything.
\<close>

definition guarded :: "launch \<Rightarrow> bool" where
  "guarded s \<longleftrightarrow>
     options_set s \<and> traced s \<or>
     \<not> executed s \<and> (stopped s \<or> preceded_by is_exec (\<lambda>x. x = Raise_stop) (child_left s)) \<and>
     (\<exists>rest. tracer_left s = Set_trace_options # rest \<and> stopped s \<and> traced s \<or>
       tracer_left s = Wait_stop # Set_trace_options # rest \<or> tracer_left s = Attach # Wait_stop # Set_trace_options # rest)"

lemma preceded_by_Cons:
  "preceded_by P Q (x # xs) \<Longrightarrow> \<not> P x \<and> (\<not> Q x \<longrightarrow> preceded_by P Q xs)"
  unfolding preceded_by_def
proof (intro conjI impI allI)
  assume *: "\<forall>ys y zs. x # xs = ys @ y # zs \<longrightarrow> P y \<longrightarrow> list_ex Q ys"
  show "\<not> P x"
  proof
    assume "P x"
    with *[rule_format, of "[]" x xs] show False by simp
  qed
  fix ys y zs assume "\<not> Q x" "xs = ys @ y # zs" "P y"
  with *[rule_format, of "x # ys" y zs] show "list_ex Q ys" by simp
qed

lemma guarded_child:
  assumes g: "guarded s" and c: "child_left s = x # xs" "\<not> stopped s"
  shows "guarded (after_child_step x (s\<lparr>child_left := xs\<rparr>))"
proof (cases "options_set s \<and> traced s")
  case True
  then show ?thesis by (auto simp: guarded_def after_child_step_def split: child_step.splits)
next
  case False
  with g c have "preceded_by is_exec (\<lambda>x. x = Raise_stop) (x # xs)" by (auto simp: guarded_def)
  with preceded_by_Cons [OF this] False g c show ?thesis
    by (cases x) (auto simp: guarded_def after_child_step_def)
qed

lemma guarded_step: "launch_step s s' \<Longrightarrow> guarded s \<Longrightarrow> guarded s'"
proof (induction rule: launch_step.induct)
  case (child s x xs)
  then show ?case by (intro guarded_child)
next
  case (tracer s x xs)
  then show ?case by (cases x) (auto simp: guarded_def after_tracer_step_def)
qed (auto simp: guarded_def)

lemma guarded_start:
  "preceded_by is_exec (\<lambda>x. x = Raise_stop) steps \<Longrightarrow> guarded (launch_start steps (traceChild ipcs))"
  by (simp add: guarded_def launch_start_def traceChild_def)

lemma stop_before_exec: "preceded_by is_exec (\<lambda>x. x = Raise_stop) (execChild_in buf e)"
  by (rule exec_after_lock) simp

section \<open>Properties\<close>

text \<open>
  C17. However the two processes are interleaved, and whether the child becomes traced by its own
  request or by the supervisor's, the program is executed only in a process that is traced with
  the options set: killed with its supervisor, and stopped for system calls, clones and exits.
\<close>

theorem program_runs_traced:
  assumes "launch_reach (launch_start (execChild_in buf e) (traceChild ipcs)) s" "executed s"
  shows "traced s \<and> options_set s"
proof -
  from assms(1) have "guarded s"
    by (induction rule: launch_reach.induct) (blast intro: guarded_start stop_before_exec guarded_step)+
  with assms(2) show ?thesis by (auto simp: guarded_def)
qed

definition sample_env :: child_env where
  "sample_env = \<lparr>ipc_dups = [], fd_names = [], load_result = 0, environment = [], program = [0x61], exec_result = 0\<rparr>"

theorem program_runs_traced_witness:
  "\<exists>s. launch_reach (launch_start (execChild_in [0] sample_env) (traceChild [])) s \<and> executed s \<and> traced s \<and> options_set s"
proof -
  let ?s = "launch_start (execChild_in [0] sample_env) (traceChild [])"
  let ?turns = "[Tracer_turn, Stop_turn, Tracer_turn, Tracer_turn, Tracer_turn, Tracer_turn, Tracer_turn,
    Child_turn, Child_turn, Child_turn, Tracer_turn] @ replicate 5 Child_turn"
  obtain s where s: "take_turns ?turns ?s = Some s" "executed s"
    by (simp add: launch_start_def execChild_in_def sample_env_def traceChild_def string_of_buf_def c_str_def
        after_child_step_def after_tracer_step_def numeral_eq_Suc)
  from take_turns_reach [OF launch_reach.start s(1)] program_runs_traced [OF take_turns_reach [OF launch_reach.start s(1)] s(2)] s(2)
  show ?thesis by blast
qed


text \<open>A chooser that takes the two lowest free descriptors below 16, and a listing in decimal.\<close>

definition lowest :: chooser where
  "lowest = \<lparr>pick = \<lambda>t. (case filter (\<lambda>fd. t fd = None) (map of_nat [0..<16]) of p # c # _ \<Rightarrow> Some (p, c) | _ \<Rightarrow> None),
     junk_fds = (0, 0), poll_starts = \<lambda>_. True\<rparr>"

lemma lowest_free: "picks_free 16 lowest"
  unfolding picks_free_def
proof (intro allI impI)
  fix t :: fd_table assume t: "card (dom t) + 2 \<le> 16"
  let ?fds = "map of_nat [0..<16] :: u32 list"
  have d: "distinct ?fds" by (simp add: upt_rec)
  have "length (filter (\<lambda>fd. t fd \<noteq> None) ?fds) = card (set ?fds \<inter> dom t)"
    using distinct_card [OF distinct_filter [OF d, of "\<lambda>fd. t fd \<noteq> None"]] by (simp add: dom_def Int_def)
  also have "\<dots> \<le> card (dom t)" by (rule card_mono) auto
  finally have "2 \<le> length (filter (\<lambda>fd. t fd = None) ?fds)"
    using t sum_length_filter_compl [of "\<lambda>fd. t fd = None" ?fds] by simp
  then obtain p c fds where f: "filter (\<lambda>fd. t fd = None) ?fds = p # c # fds"
    by (metis One_nat_def Suc_1 Suc_le_length_iff)
  then have "p \<noteq> c" using distinct_filter [OF d, of "\<lambda>fd. t fd = None"] by simp
  moreover have "x \<in> set (filter (\<lambda>fd. t fd = None) ?fds) \<Longrightarrow> t x = None" for x by simp
  then have "t p = None" "t c = None" unfolding f by simp_all
  ultimately show "\<exists>p c. pick lowest t = Some (p, c) \<and> p \<noteq> c \<and> t p = None \<and> t c = None"
    by (auto simp: lowest_def f)
qed

lemma byte_to_word: "n < 256 \<Longrightarrow> ucast (of_nat n :: byte) = (of_nat n :: u32)"
  by (simp add: unsigned_of_nat take_bit_nat_eq_self)

lemma strtol_dec: "strtol (dec_digits n) = (of_nat n, True)"
proof -
  let ?f = "\<lambda>(n :: u32) (d :: byte). 10 * n + (ucast d - 0x30)"
  have "foldl ?f 0 (dec_digits n) = of_nat n"
  proof (induction n rule: dec_digits.induct)
    case (1 n)
    have d: "ucast (of_nat (48 + m) :: byte) - 0x30 = (of_nat m :: u32)" if "m < 10" for m
      using byte_to_word [of "48 + m"] that by simp
    show ?case
    proof (cases "n < 10")
      case True
      then show ?thesis using d [of n] by (simp add: dec_digits.simps [of n] del: of_nat_add)
    next
      case False
      have "of_nat n = (10 * of_nat (n div 10) + of_nat (n mod 10) :: u32)"
        by (subst div_mult_mod_eq [of n 10, symmetric]) (simp only: of_nat_add of_nat_mult of_nat_numeral mult.commute)
      with False 1 d [of "n mod 10"] show ?thesis by (simp add: dec_digits.simps [of n] del: of_nat_add)
    qed
  qed
  moreover have ds: "takeWhile (\<lambda>c. 0x30 \<le> c \<and> c \<le> 0x39) (dec_digits n) = dec_digits n"
    using dec_digits_range by (simp add: takeWhile_eq_all_conv)
  moreover have "dec_digits n \<noteq> []" by (simp add: dec_digits.simps [of n])
  ultimately show ?thesis unfolding strtol_def ds by simp
qed

definition own_listing :: "fd_table \<Rightarrow> byte list list" where
  "own_listing t = map dec_digits (filter (\<lambda>n. t (of_nat n) \<noteq> None) [0..<2 ^ 32])"

lemma own_listing_open: "lists_open own_listing"
  unfolding lists_open_def
proof (intro allI impI)
  fix t :: fd_table and fd assume "t fd \<noteq> None"
  moreover have "unat fd < 2 ^ 32" by (rule order.strict_trans2 [OF unsigned_less]) simp
  ultimately have "dec_digits (unat fd) \<in> set (own_listing t)" by (auto simp: own_listing_def)
  moreover have "strtol (dec_digits (unat fd)) = (fd, True)" by (simp add: strtol_dec)
  ultimately show "\<exists>nm \<in> set (own_listing t). strtol nm = (fd, True)" by blast
qed

definition sample_supervisor :: supervisor where
  "sample_supervisor = \<lparr>fd_table = [0 \<mapsto> Opened 0, 1 \<mapsto> Opened 1, 2 \<mapsto> Opened 2, 5 \<mapsto> Opened 3], pairs = 0, ipcSockets = []\<rparr>"


text \<open>
  When the child is released, the supervisor's descriptors are those it had before the sandbox
  was made: both ends of every channel are closed, and nothing else.
\<close>

theorem release_closes_channels:
  assumes "picks_free L P" "card (dom (fd_table s)) + 6 \<le> L" "ipcSockets s = []" "pid \<noteq> 0"
  shows "fd_table (clear_channels (snd (spawn P listing buf e pid (node_new P s)))) = fd_table s"
proof -
  obtain p1 c1 p2 c2 p3 c3 where "distinct [p1, c1, p2, c2, p3, c3]"
    "\<forall>x \<in> {p1, c1, p2, c2, p3, c3}. fd_table s x = None"
    "fd_table (add_channel P 3 (node_new P s)) = (fd_table s)(p1 \<mapsto> Parent_end (pairs s), c1 \<mapsto> Child_end (pairs s),
      p2 \<mapsto> Parent_end (pairs s + 1), c2 \<mapsto> Child_end (pairs s + 1), p3 \<mapsto> Parent_end (pairs s + 2), c3 \<mapsto> Child_end (pairs s + 2))"
    "ipcSockets (add_channel P 3 (node_new P s)) =
      [\<lparr>parent_fd = p1, child_fd = c1, dupAs = 1, poll = False\<rparr>, \<lparr>parent_fd = p2, child_fd = c2, dupAs = 2, poll = False\<rparr>,
       \<lparr>parent_fd = p3, child_fd = c3, dupAs = 3, poll = False\<rparr>]"
    using three_channels [OF assms(1-3)] by blast
  with assms(4) show ?thesis
    by (auto simp: spawn_def clear_channels_def delete_SandboxIPC_def startPoll_def stopPoll_def close_fd_def fun_eq_iff Let_def)
qed

theorem release_closes_channels_witness:
  "fd_table (clear_channels (snd (spawn lowest own_listing [0] sample_env 7 (node_new lowest sample_supervisor)))) =
    fd_table sample_supervisor"
proof -
  have "card (dom (fd_table sample_supervisor)) + 6 \<le> 16"
    by (simp add: sample_supervisor_def card_insert_if)
  from release_closes_channels [OF lowest_free this] show ?thesis by (simp add: sample_supervisor_def)
qed

end
