(* ===== verification/NodeModule.thy ===== *)
theory NodeModule
  imports CodiusUtil Filesystems Tracer
begin

text \<open>
  The parts of src/sandbox-node-module.cpp that stand between the sandbox and the script: the
  output streams, the translation of file names, signals, the answers the script gives to calls of
  the file system, and the arguments of \<open>spawn\<close>. The script and the engine are parameters.
\<close>

section \<open>The output streams\<close>

text \<open>
  \<open>NodeIPC::onReadReady\<close>: up to 1023 bytes are read into a buffer of 1024, and the terminator is
  stored behind them; after an error, at index -1. The script gets the text up to the first NUL.
\<close>

definition onReadReady :: "('d, 'w) env \<Rightarrow> u32 \<Rightarrow> u32 \<Rightarrow> 'w \<Rightarrow> ((u32 \<times> byte list) \<times> 'w) outcome" where
  "onReadReady E fd dup_as w =
     (let (r, w) = sys_read E fd 1023 w in
      case r of
        None \<Rightarrow> Fault Write_OOB
      | Some bs \<Rightarrow> Ret ((dup_as, c_str (take 1023 bs @ [0])), w))"

text \<open>What the script gets of a stream in as many rounds of the loop.\<close>

fun on_data :: "('d, 'w) env \<Rightarrow> u32 \<Rightarrow> u32 \<Rightarrow> nat \<Rightarrow> 'w \<Rightarrow> (byte list \<times> 'w) outcome" where
  "on_data E fd dup_as 0 w = Ret ([], w)"
| "on_data E fd dup_as (Suc n) w =
     bindO (onReadReady E fd dup_as w) (\<lambda>((_, txt), w).
     bindO (on_data E fd dup_as n w) (\<lambda>(rest, w). Ret (txt @ rest, w)))"

text \<open>
  \<open>SandboxIPC::cb_forward\<close>: the loop found the parent's end readable. A \<open>CallbackIPC\<close>, whose
  callback is \<open>handle_ipc_read\<close>, reads a request; the others are output streams.
\<close>

datatype delivered = Request ipc_event | Data u32 "byte list"

definition cb_forward ::
  "('d, 'w) env \<Rightarrow> bool \<Rightarrow> u32 \<Rightarrow> u32 \<Rightarrow> ('d, 'w) ipc \<Rightarrow> (delivered \<times> ('d, 'w) ipc) outcome" where
  "cb_forward E callback fd dup_as s =
     (if callback then bindO (handle_ipc_read E fd s) (\<lambda>(e, s). Ret (Request e, s))
      else bindO (onReadReady E fd dup_as (outside s)) (\<lambda>((d, txt), w). Ret (Data d txt, s\<lparr>outside := w\<rparr>)))"

section \<open>File names\<close>

text \<open>
  \<open>mapFilename\<close>: the script gives another name, by its UTF-8 bytes, or no string. \<open>WriteUtf8\<close>
  stores them in a vector with room for the terminator, which is then set.
\<close>

definition mapFilename_buf :: "('d, 'w) env \<Rightarrow> (byte list \<Rightarrow> byte list option) \<Rightarrow> byte list \<Rightarrow> byte list outcome" where
  "mapFilename_buf E script fname =
     bindO (string_of_buf fname) (\<lambda>name.
     case script name of
       None \<Rightarrow> Ret []
     | Some str \<Rightarrow>
         bindO (store_at (replicate (length str + 1) 0) 0 (stored_utf8 E str)) (\<lambda>buf. Ret (buf[length str := 0])))"

definition mapFilename ::
  "('d, 'w) env \<Rightarrow> (byte list \<Rightarrow> byte list option) \<Rightarrow> SyscallCall \<Rightarrow> sandbox \<Rightarrow> (SyscallCall \<times> sandbox) outcome" where
  "mapFilename E script c b =
     bindO (copyString b (call_pid c) (arg c 0) 1024 (replicate 1024 0)) (\<lambda>(_, fname, b).
     bindO (mapFilename_buf E script fname) (\<lambda>fname.
     if fname \<noteq> [] then
       bindO (writeScratch b (length fname) fname) (\<lambda>(a, b). Ret (c\<lparr>args := (args c)[0 := a]\<rparr>, b))
     else Ret (c\<lparr>sys_id := -1\<rparr>, b)))"

section \<open>Signals\<close>

text \<open>
  A crash with the debugger wanted: the child is released stopped (\<open>SIGSTOP\<close> is 19), and the
  process becomes the debugger, or ends when that fails. The signals are \<open>SIGSEGV\<close> 11,
  \<open>SIGABRT\<close> 6 and \<open>SIGTRAP\<close> 5. The result is the process as it goes on, if it does.
\<close>

record NodeSandbox =
  m_debuggerOnCrash :: bool

definition node_getDebugOnCrash :: "NodeSandbox \<Rightarrow> bool" where
  "node_getDebugOnCrash n = m_debuggerOnCrash n"

definition node_setDebugOnCrash :: "bool \<Rightarrow> NodeSandbox \<Rightarrow> NodeSandbox" where
  "node_setDebugOnCrash b n = n\<lparr>m_debuggerOnCrash := b\<rparr>"

datatype 'w goes_on = Goes_on "'w host" | Becomes "byte list list" "'w host" | Exits "'w host"

definition launchDebugger :: "bool \<Rightarrow> 'w host \<Rightarrow> 'w goes_on" where
  "launchDebugger exec_works h =
     (let h = releaseChild 19 h; pidStr = c_str (snprintf 15 (dec_int (main_pid (box_of h))) []) in
      if exec_works then Becomes [ascii ''gdb'', ascii ''-p'', pidStr] h else Exits h)"

definition handleSignal :: "NodeSandbox \<Rightarrow> bool \<Rightarrow> u32 \<Rightarrow> 'w host \<Rightarrow> 'w goes_on" where
  "handleSignal n exec_works signal h =
     (if m_debuggerOnCrash n \<and> (signal = 11 \<or> signal = 6 \<or> signal = 5) then launchDebugger exec_works h
      else Goes_on (ask [On_signal signal] h))"

definition handleExit :: "u32 \<Rightarrow> 'w host \<Rightarrow> 'w host" where
  "handleExit status h = ask [On_exit status] h"

definition node_kill :: "'w host \<Rightarrow> 'w host" where
  "node_kill h = kill h"

definition delete_Sandbox :: "'w host \<Rightarrow> 'w host" where
  "delete_Sandbox h = kill h"

section \<open>Answers of the script\<close>

text \<open>
  A call of the file system makes a promise, whose index is the cookie the script gets; with
  \<open>finishVFS\<close> the script sets its value, which can be done once. \<open>doVFS\<close> of
  src/node-filesystem.cpp runs the loop until the value is there; \<open>turns n\<close> are the calls of
  \<open>finishVFS\<close> in round \<open>n\<close>.
\<close>

type_synonym 'v promises = "'v option list"

definition make_promise :: "'v promises \<Rightarrow> nat \<times> 'v promises" where
  "make_promise ps = (length ps, ps @ [None])"

definition node_finish_vfs :: "nat \<Rightarrow> 'v \<Rightarrow> 'v promises \<Rightarrow> 'v promises outcome" where
  "node_finish_vfs cookie v ps =
     (if length ps \<le> cookie then Fault Dangling
      else if ps ! cookie \<noteq> None then Fault Cxx_exception
      else Ret (ps[cookie := Some v]))"

fun run_turn :: "(nat \<times> 'v) list \<Rightarrow> 'v promises \<Rightarrow> 'v promises outcome" where
  "run_turn [] ps = Ret ps"
| "run_turn ((cookie, v) # calls) ps = bindO (node_finish_vfs cookie v ps) (run_turn calls)"

partial_function (option) wait_answer ::
  "nat \<Rightarrow> (nat \<Rightarrow> (nat \<times> 'v) list) \<Rightarrow> nat \<Rightarrow> 'v promises \<Rightarrow> ('v \<times> 'v promises) outcome option" where
  "wait_answer cookie turns n ps =
     (case ps ! cookie of
        Some v \<Rightarrow> Some (Ret (v, ps))
      | None \<Rightarrow>
          (case run_turn (turns n) ps of
             Fault f \<Rightarrow> Some (Fault f)
           | Ret ps \<Rightarrow> wait_answer cookie turns (Suc n) ps))"

definition await_vfs :: "(nat \<Rightarrow> (nat \<times> 'v) list) \<Rightarrow> 'v promises \<Rightarrow> ('v \<times> 'v promises) outcome option" where
  "await_vfs turns ps = (let (cookie, ps) = make_promise ps in wait_answer cookie turns 0 ps)"

section \<open>The sandbox of a script\<close>

text \<open>\<open>NodeSandbox::NodeSandbox\<close> mounts the script's file system at the root.\<close>

definition mk_NodeSandbox :: "'w filesystem \<Rightarrow> 'w vfs \<Rightarrow> 'w vfs" where
  "mk_NodeSandbox fs s = mountFilesystem (ascii ''/'') (Some fs) s"

text \<open>
  The arguments of \<open>spawn\<close>: strings, values that convert to no object, and objects, perhaps with
  a property \<open>env\<close>, which is again no object or has names with the UTF-8 bytes of their values;
  \<open>None\<close> is a name that is no string.
\<close>

datatype js_argument =
    JsString "byte list"
  | JsNothing
  | JsObject "(byte list \<times> byte list) option list option option"

text \<open>The two texts of a thrown TypeError, and that of a bad argument.\<close>

datatype type_error = Err_env | Err_options | Err_strings

fun env_of :: "(byte list \<times> byte list) option list \<Rightarrow> (byte list \<times> byte list) list \<Rightarrow> type_error + (byte list \<times> byte list) list" where
  "env_of [] envp = Inr envp"
| "env_of (None # ps) envp = Inl Err_env"
| "env_of (Some (k, v) # ps) envp = env_of ps (map_insert (c_str (k @ [0])) (c_str (v @ [0])) envp)"

definition options_of :: "js_argument \<Rightarrow> type_error + (byte list \<times> byte list) list" where
  "options_of x =
     (case x of
        JsObject None \<Rightarrow> Inr []
      | JsObject (Some None) \<Rightarrow> Inl Err_env
      | JsObject (Some (Some ps)) \<Rightarrow> env_of ps []
      | _ \<Rightarrow> Inl Err_options)"

text \<open>The loop over the arguments, of which there are \<open>n\<close>; \<open>argv\<close> has one more slot, all null at first.\<close>

fun spawn_args ::
  "int \<Rightarrow> nat \<Rightarrow> js_argument list \<Rightarrow> byte list option list \<Rightarrow> (byte list \<times> byte list) list \<Rightarrow>
    type_error + (byte list option list \<times> (byte list \<times> byte list) list)" where
  "spawn_args n i [] argv envp = Inr (argv, envp)"
| "spawn_args n i (x # rest) argv envp =
     (case x of
        JsString str \<Rightarrow> spawn_args n (i + 1) rest (argv[i := Some (c_str (str @ [0]))]) envp
      | _ \<Rightarrow>
          if int i \<le> n - 2 then Inl Err_strings
          else (case options_of x of Inl e \<Rightarrow> Inl e | Inr envp \<Rightarrow> spawn_args n (i + 1) rest argv envp))"

text \<open>What \<open>node_spawn\<close> comes to: an exception, or the working directory set and the sandbox started.\<close>

definition node_spawn ::
  "js_argument list \<Rightarrow> 'w vfs \<Rightarrow> (type_error + (byte list option list \<times> (byte list \<times> byte list) list) \<times> 'w vfs) outcome" where
  "node_spawn arguments s =
     (case spawn_args (int (length arguments)) 0 arguments (replicate (length arguments + 1) None) [] of
        Inl e \<Rightarrow> Ret (Inl e)
      | Inr (argv, envp) \<Rightarrow> bindO (setCWD (ascii ''/contract/'') s) (\<lambda>(_, s). Ret (Inr ((argv, envp), s))))"

end
