(* ===== verification/NodeModuleFacts.thy ===== *)
theory NodeModuleFacts
  imports NodeModule FilesystemsFacts CodiusUtilFacts
begin

text \<open>
  The script's side of the sandbox: what it gets of an output stream, when a call of the file
  system comes back, what \<open>spawn\<close> makes of its arguments, and which paths reach the script.
\<close>

section \<open>Streams\<close>

text \<open>\<open>read\<close> on a descriptor whose contents are \<open>q\<close>: as many bytes as there are, up to the number asked for.\<close>

definition stream :: "('d, 'w) env \<Rightarrow> u32 \<Rightarrow> ('w \<Rightarrow> byte list) \<Rightarrow> bool" where
  "stream E fd q \<longleftrightarrow> (\<forall>n w. \<exists>w'. sys_read E fd n w = (Some (take n (q w)), w') \<and> q w' = drop n (q w))"

lemma onReadReady_stream:
  assumes "stream E fd q" "0 \<notin> set (q w)"
  shows "\<exists>w'. onReadReady E fd d w = Ret ((d, take 1023 (q w)), w') \<and> q w' = drop 1023 (q w)"
proof -
  from assms(1) obtain w' where "sys_read E fd 1023 w = (Some (take 1023 (q w)), w')" "q w' = drop 1023 (q w)"
    unfolding stream_def by blast
  moreover have "c_str (take 1023 (q w) @ [0]) = take 1023 (q w)"
    using assms(2) by (intro c_str_append) (auto dest: in_set_takeD)
  ultimately show ?thesis by (simp add: onReadReady_def)
qed

lemma on_data_stream:
  assumes "stream E fd q"
  shows "0 \<notin> set (q w) \<Longrightarrow> \<exists>w'. on_data E fd d k w = Ret (take (1023 * k) (q w), w') \<and> q w' = drop (1023 * k) (q w)"
proof (induction k arbitrary: w)
  case (Suc k)
  from onReadReady_stream [OF assms Suc.prems] obtain w1 where
    w1: "onReadReady E fd d w = Ret ((d, take 1023 (q w)), w1)" "q w1 = drop 1023 (q w)" by blast
  with Suc.prems have "0 \<notin> set (q w1)" by (auto dest: in_set_dropD)
  from Suc.IH [OF this] obtain w2 where
    "on_data E fd d k w1 = Ret (take (1023 * k) (q w1), w2)" "q w2 = drop (1023 * k) (q w1)" by blast
  with w1 show ?case by (auto simp: take_add add.commute)
qed simp

section \<open>Answers\<close>

text \<open>From round \<open>n\<close> on, every promise is answered at most once, and none that is answered or unknown.\<close>

definition proper :: "nat \<Rightarrow> (nat \<Rightarrow> (nat \<times> 'v) list) \<Rightarrow> 'v promises \<Rightarrow> bool" where
  "proper n turns ps \<longleftrightarrow> (\<forall>m. distinct (map fst (concat (map turns [n..<m]))) \<and>
     (\<forall>c \<in> fst ` set (concat (map turns [n..<m])). c < length ps \<and> ps ! c = None))"

lemma properD:
  assumes "proper n turns ps"
  shows "distinct (map fst (concat (map turns [n..<m])))"
    "\<forall>c \<in> fst ` set (concat (map turns [n..<m])). c < length ps \<and> ps ! c = None"
  using assms [unfolded proper_def, THEN spec, of m] by simp_all

lemma run_turn_proper:
  assumes "distinct (map fst calls)" "\<forall>c \<in> fst ` set calls. c < length ps \<and> ps ! c = None"
  shows "\<exists>ps'. run_turn calls ps = Ret ps' \<and> length ps' = length ps \<and>
    (\<forall>c < length ps. ps' ! c = (case map_of calls c of None \<Rightarrow> ps ! c | Some v \<Rightarrow> Some v))"
  using assms
proof (induction calls arbitrary: ps)
  case (Cons call calls)
  obtain c v where c: "call = (c, v)" by (cases call)
  have f: "node_finish_vfs c v ps = Ret (ps[c := Some v])" using Cons.prems(2) by (simp add: c node_finish_vfs_def)
  have "\<forall>c' \<in> fst ` set calls. c' < length (ps[c := Some v]) \<and> ps[c := Some v] ! c' = None"
    using Cons.prems by (auto simp: c nth_list_update)
  with Cons.IH [of "ps[c := Some v]"] Cons.prems(1) obtain ps' where ps': "run_turn calls (ps[c := Some v]) = Ret ps'"
    "length ps' = length ps"
    "\<forall>c' < length ps. ps' ! c' = (case map_of calls c' of None \<Rightarrow> ps[c := Some v] ! c' | Some v \<Rightarrow> Some v)" by auto
  moreover have "map_of calls c = None" using Cons.prems(1) by (auto simp: c map_of_eq_None_iff)
  ultimately show ?case using f by (auto simp: c nth_list_update split: option.splits)
qed simp

lemma concat_upt_Cons: "n < m \<Longrightarrow> concat (map turns [n..<m]) = turns n @ concat (map turns [Suc n..<m])"
  by (simp add: upt_conv_Cons)

lemma proper_round:
  assumes "proper n turns ps"
  shows "\<exists>ps'. run_turn (turns n) ps = Ret ps' \<and> proper (Suc n) turns ps' \<and> length ps' = length ps \<and>
    (\<forall>c < length ps. ps' ! c = (case map_of (turns n) c of None \<Rightarrow> ps ! c | Some v \<Rightarrow> Some v))"
proof -
  note p = properD [OF assms]
  from p [of "Suc n"] have "distinct (map fst (turns n))" "\<forall>c \<in> fst ` set (turns n). c < length ps \<and> ps ! c = None"
    by simp_all
  from run_turn_proper [OF this] obtain ps' where ps': "run_turn (turns n) ps = Ret ps'" "length ps' = length ps"
    "\<forall>c < length ps. ps' ! c = (case map_of (turns n) c of None \<Rightarrow> ps ! c | Some v \<Rightarrow> Some v)" by blast
  have "distinct (map fst (concat (map turns [Suc n..<m]))) \<and>
      (\<forall>c \<in> fst ` set (concat (map turns [Suc n..<m])). c < length ps' \<and> ps' ! c = None)" for m
  proof (cases "n < m")
    case True
    let ?later = "concat (map turns [Suc n..<m])"
    from True p [of m] have d: "distinct (map fst ?later)" "fst ` set (turns n) \<inter> fst ` set ?later = {}"
      and u: "\<forall>c \<in> fst ` set ?later. c < length ps \<and> ps ! c = None"
      by (simp_all add: concat_upt_Cons image_Un)
    have "c < length ps' \<and> ps' ! c = None" if "c \<in> fst ` set ?later" for c
    proof -
      from that d(2) have "map_of (turns n) c = None" unfolding map_of_eq_None_iff by blast
      moreover from u that have "c < length ps \<and> ps ! c = None" by (rule bspec)
      ultimately show ?thesis using ps'(2,3) by simp
    qed
    then have "\<forall>c \<in> fst ` set ?later. c < length ps' \<and> ps' ! c = None" by (rule ballI)
    with d(1) show ?thesis by (rule conjI)
  qed simp
  with ps' show ?thesis unfolding proper_def by blast
qed

lemma wait_answer_answered:
  assumes "proper n turns ps" "n \<le> m" "(c, v) \<in> set (turns m)"
  shows "\<exists>ps'. wait_answer c turns n ps = Some (Ret (v, ps'))"
  using assms
proof (induction "m - n" arbitrary: n ps)
  case 0
  then have m: "m = n" by simp
  from proper_round [OF "0.prems"(1)] obtain ps' where ps': "run_turn (turns n) ps = Ret ps'"
    "\<forall>c < length ps. ps' ! c = (case map_of (turns n) c of None \<Rightarrow> ps ! c | Some v \<Rightarrow> Some v)" by blast
  from properD [OF "0.prems"(1), of "Suc n"] "0.prems"(3) m have "map_of (turns n) c = Some v" "c < length ps" "ps ! c = None" by force+
  with ps' show ?case by (simp add: wait_answer.simps [of c turns n] wait_answer.simps [of c turns "Suc n"])
next
  case (Suc k)
  then have n: "n < m" by simp
  from proper_round [OF Suc.prems(1)] obtain ps' where ps': "run_turn (turns n) ps = Ret ps'" "proper (Suc n) turns ps'"
    "\<forall>c < length ps. ps' ! c = (case map_of (turns n) c of None \<Rightarrow> ps ! c | Some v \<Rightarrow> Some v)" by blast
  note properD(2) [OF Suc.prems(1), of "Suc m"]
  moreover have "(c, v) \<in> set (concat (map turns [n..<Suc m]))" using n Suc.prems(3) by simp
  ultimately have c: "ps ! c = None" by force
  have k: "k = m - Suc n" using Suc.hyps(2) by simp
  from Suc.hyps(1) [OF k ps'(2) _ Suc.prems(3)] n
  obtain ps'' where "wait_answer c turns (Suc n) ps' = Some (Ret (v, ps''))" by auto
  with ps'(1) c show ?case by (simp add: wait_answer.simps [of c turns n])
qed

lemma wait_answer_unanswered:
  assumes "wait_answer c turns n ps = Some r"
  shows "proper n turns ps \<and> c < length ps \<and> ps ! c = None \<and> (\<forall>m. c \<notin> fst ` set (turns m)) \<longrightarrow> False"
proof (rule wait_answer.raw_induct [where P = "\<lambda>c turns n ps r. proper n turns ps \<and> c < length ps \<and> ps ! c = None \<and>
    (\<forall>m. c \<notin> fst ` set (turns m)) \<longrightarrow> False", OF _ assms], intro impI, elim conjE)
  fix f c n r and turns :: "nat \<Rightarrow> (nat \<times> 'a) list" and ps :: "'a promises"
  assume IH: "\<And>c turns n ps r. f c turns n ps = Some r \<Longrightarrow> proper n turns ps \<and> c < length ps \<and> ps ! c = None \<and>
      (\<forall>m. c \<notin> fst ` set (turns m)) \<longrightarrow> False"
    and r: "(case ps ! c of
          None \<Rightarrow> (case run_turn (turns n) ps of Fault f \<Rightarrow> Some (Fault f) | Ret ps \<Rightarrow> f c turns (Suc n) ps)
        | Some v \<Rightarrow> Some (Ret (v, ps))) = Some r"
    and p: "proper n turns ps" "c < length ps" "ps ! c = None" "\<forall>m. c \<notin> fst ` set (turns m)"
  from proper_round [OF p(1)] obtain ps' where ps': "run_turn (turns n) ps = Ret ps'" "proper (Suc n) turns ps'"
    "length ps' = length ps" "\<forall>c < length ps. ps' ! c = (case map_of (turns n) c of None \<Rightarrow> ps ! c | Some v \<Rightarrow> Some v)" by blast
  from p(4) have "map_of (turns n) c = None" by (simp add: map_of_eq_None_iff)
  with ps'(4) p(2,3) have "ps' ! c = None" by simp
  with IH [of c turns "Suc n" ps' r] r ps' p(2-4) show False by simp
qed

section \<open>The arguments of spawn\<close>

text \<open>A C string made of a script's string ends at its first NUL.\<close>

definition c_string :: "byte list \<Rightarrow> byte list" where
  "c_string str = c_str (str @ [0])"

lemma spawn_args_strings:
  "spawn_args n i (map JsString ss @ rest) argv envp =
    spawn_args n (i + length ss) rest (fold (\<lambda>(j, str) a. a[j := Some (c_string str)]) (enumerate i ss) argv) envp"
  by (induction ss arbitrary: i argv) (simp_all add: c_string_def)

lemma fold_slots:
  "length ss + i \<le> length argv \<Longrightarrow>
    fold (\<lambda>(j, str) a. a[j := Some (c_string str)]) (enumerate i ss) argv =
      take i argv @ map (\<lambda>str. Some (c_string str)) ss @ drop (i + length ss) argv"
proof (induction ss arbitrary: i argv)
  case (Cons str ss)
  then have "take (Suc i) (argv[i := Some (c_string str)]) = take i argv @ [Some (c_string str)]"
    by (simp add: take_Suc_conv_app_nth)
  with Cons show ?case by simp
qed simp

lemma spawn_argv:
  "spawn_args n 0 (map JsString ss @ rest) (replicate (length ss + k) None) envp =
    spawn_args n (length ss) rest (map (\<lambda>str. Some (c_string str)) ss @ replicate k None) envp"
  by (simp add: spawn_args_strings fold_slots)

text \<open>The environment: the map of the pairs, in which the first value of a name stays.\<close>

lemma env_of_sorted:
  "env_of ps envp = Inr env \<Longrightarrow> sorted_wrt (<) (map fst envp) \<Longrightarrow>
    sorted_wrt (<) (map fst env) \<and>
    map_of env = map_of (map (\<lambda>(k, v). (c_string k, c_string v)) (map the ps)) ++ map_of envp"
proof (induction ps envp rule: env_of.induct)
  case (3 k v ps envp)
  let ?m = "map_of (map (\<lambda>(k, v). (c_string k, c_string v)) (map the ps))"
  from 3 have "sorted_wrt (<) (map fst env)" "map_of env = ?m ++ map_of (map_insert (c_string k) (c_string v) envp)"
    by (simp_all add: map_insert_sorted c_string_def)
  moreover have "?m ++ map_of (map_insert (c_string k) (c_string v) envp) = ?m(c_string k \<mapsto> c_string v) ++ map_of envp"
    unfolding map_insert_map_of [OF 3(3)] by (auto simp: fun_eq_iff map_add_def split: option.splits)
  ultimately show ?case by (simp add: case_prod_unfold fun_upd_def)
qed simp_all

text \<open>The working directory is set, then the program started.\<close>

definition start_in_contract ::
  "byte list option list \<Rightarrow> (byte list \<times> byte list) list \<Rightarrow> 'w vfs \<Rightarrow>
    (type_error + (byte list option list \<times> (byte list \<times> byte list) list) \<times> 'w vfs) outcome" where
  "start_in_contract argv envp s = bindO (setCWD (ascii ''/contract/'') s) (\<lambda>(_, s). Ret (Inr ((argv, envp), s)))"

fun is_string :: "js_argument \<Rightarrow> bool" where
  "is_string (JsString _) = True"
| "is_string _ = False"

lemma spawn_args_other:
  assumes "\<not> is_string x"
  shows "spawn_args n i (x # rest) argv envp =
    (if int i \<le> n - 2 then Inl Err_strings
     else case options_of x of Inl e \<Rightarrow> Inl e | Inr envp \<Rightarrow> spawn_args n (i + 1) rest argv envp)"
  using assms by (cases x) simp_all

lemma node_spawn_strings:
  "node_spawn (map JsString ss @ rest) s =
    (case spawn_args (int (length ss + length rest)) (length ss) rest
        (map (\<lambda>str. Some (c_string str)) ss @ replicate (length rest + 1) None) [] of
       Inl e \<Rightarrow> Ret (Inl e)
     | Inr (argv, envp) \<Rightarrow> start_in_contract argv envp s)"
  by (simp only: node_spawn_def start_in_contract_def length_append length_map spawn_argv add.assoc)

lemmas spawn_others = node_spawn_strings spawn_args_other replicate_Suc numeral_2_eq_2

lemma spawn_strings:
  "node_spawn (map JsString ss) s = start_in_contract (map (\<lambda>str. Some (c_string str)) ss @ [None]) [] s"
  using node_spawn_strings [of ss "[]" s] by simp

lemma spawn_bad: "\<not> is_string x \<Longrightarrow> node_spawn (map JsString ss @ x # y # rest) s = Ret (Inl Err_strings)"
  by (simp add: spawn_others del: spawn_args.simps(2))

lemma spawn_options:
  "\<not> is_string x \<Longrightarrow> node_spawn (map JsString ss @ [x]) s =
    (case options_of x of
       Inl e \<Rightarrow> Ret (Inl e)
     | Inr envp \<Rightarrow> start_in_contract (map (\<lambda>str. Some (c_string str)) ss @ [None, None]) envp s)"
  by (simp add: spawn_others del: spawn_args.simps(2) split: sum.split)

section \<open>Properties\<close>

text \<open>
  What the program writes to an output stream is what the script gets, piece by piece, in
  order and without loss, as long as it contains no NUL.
\<close>

theorem stream_delivered:
  assumes "stream E fd q" "0 \<notin> set (q w)" "length (q w) \<le> 1023 * k"
  shows "\<exists>w'. on_data E fd d k w = Ret (q w, w') \<and> q w' = []"
  using on_data_stream [OF assms(1,2), of d k] assms(3) by auto

theorem stream_delivered_witness: "\<exists>w'. on_data queue_env 5 1 2 (replicate 1500 0x61) = Ret (replicate 1500 0x61, w') \<and> w' = []"
proof -
  have "stream queue_env 5 (\<lambda>w. w)" by (simp add: stream_def queue_env_def)
  from stream_delivered [OF this, of "replicate 1500 0x61" 2 1] show ?thesis by simp
qed



text \<open>
  \<open>spawn\<close> starts the program with exactly the strings it is given, each up to its first NUL:
  strings alone, or followed by options, whose environment is a map in which the first value of a
  name counts. Anything else is a TypeError, and nothing is started.
\<close>

theorem node_spawn_arguments:
  assumes "\<not> is_string x"
  shows "node_spawn (map JsString ss) s = start_in_contract (map (\<lambda>str. Some (c_string str)) ss @ [None]) [] s \<and>
    node_spawn (map JsString ss @ x # y # rest) s = Ret (Inl Err_strings) \<and>
    node_spawn (map JsString ss @ [x]) s =
      (case options_of x of
         Inl e \<Rightarrow> Ret (Inl e)
       | Inr envp \<Rightarrow> start_in_contract (map (\<lambda>str. Some (c_string str)) ss @ [None, None]) envp s) \<and>
    (options_of (JsObject (Some (Some ps))) = Inr envp \<longrightarrow>
      map_of envp = map_of (map (\<lambda>(k, v). (c_string k, c_string v)) (map the ps)) \<and> sorted_wrt (<) (map fst envp))"
proof (intro conjI impI)
  assume "options_of (JsObject (Some (Some ps))) = Inr envp"
  then have "env_of ps [] = Inr envp" by (simp add: options_of_def)
  from env_of_sorted [OF this] show "map_of envp = map_of (map (\<lambda>(k, v). (c_string k, c_string v)) (map the ps))"
    "sorted_wrt (<) (map fst envp)" by simp_all
qed (rule spawn_strings spawn_bad [OF assms] spawn_options [OF assms])+

theorem node_spawn_arguments_witness:
  "node_spawn [JsObject (Some (Some [Some ([0x61], [0x62]), Some ([0x61], [0x63])]))] (mk_vfs no_child () []) =
      start_in_contract [None, None] [([0x61], [0x62])] (mk_vfs no_child () []) \<and>
    map_of [([0x61], [0x62])] = map_of [([0x61 :: byte], [0x62 :: byte]), ([0x61], [0x63])]"
  using node_spawn_arguments [of "JsObject (Some (Some [Some ([0x61], [0x62]), Some ([0x61], [0x63])]))" "[]"
      "mk_vfs no_child () []" "JsNothing" "[]" "[Some ([0x61], [0x62]), Some ([0x61], [0x63])]" "[([0x61], [0x62])]"]
  by (simp add: options_of_def c_str_def c_string_def)

text \<open>
  With the script's file system at the root and the working directory of \<open>spawn\<close>, a path that
  starts with a slash reaches the script as it is; one that starts with a dot is put behind
  /contract without a slash between; any other belongs to no file system.
\<close>

theorem script_paths:
  assumes "node_spawn arguments (mk_NodeSandbox fs (mk_vfs b w bytes)) = Ret (Inr (a, s))"
  shows "getFilesystem s path =
    (if first_char path = 0x2F then Ret (path, Some fs)
     else if first_char path = 0x2E then Ret (ascii ''/contract'' @ path, Some fs)
     else Ret ([], None))"
proof -
  have "getFilesystem (mk_NodeSandbox fs (mk_vfs b w bytes)) (ascii ''/contract'') = Ret (ascii ''/contract'', Some fs)"
    by (simp add: getFilesystem_def first_char_def mk_NodeSandbox_def mk_vfs_def mountFilesystem_def ascii_def)
  with assms obtain fd where
    s: "cwd s = Some 0" "m_path (files s ! 0) = ascii ''/contract''" "mounts s = [(ascii ''/'', Some fs)]"
    by (auto simp: node_spawn_def setCWD_def ascii_def bindO_Ret_iff Let_def in_world_def new_file_def drop_ref_def
        mk_NodeSandbox_def mk_vfs_def mountFilesystem_def split: sum.splits prod.splits)
  then show ?thesis
    by (cases path) (auto simp: getFilesystem_def first_char_def path_of_def ascii_def)
qed

theorem script_paths_witness:
  "\<exists>a s. node_spawn [JsString [0x61]] (mk_NodeSandbox sample_fs (mk_vfs no_child () [])) = Ret (Inr (a, s)) \<and>
    getFilesystem s (ascii ''/x'') = Ret (ascii ''/x'', Some sample_fs) \<and>
    getFilesystem s (ascii ''./x'') = Ret (ascii ''/contract./x'', Some sample_fs) \<and>
    getFilesystem s (ascii ''x'') = Ret ([], None)"
proof -
  obtain a s where r: "node_spawn [JsString [0x61]] (mk_NodeSandbox sample_fs (mk_vfs no_child () [])) = Ret (Inr (a, s))"
    by (simp add: node_spawn_def setCWD_def getFilesystem_def first_char_def mk_NodeSandbox_def mk_vfs_def
        mountFilesystem_def ascii_def in_world_def sample_fs_def new_file_def drop_ref_def Let_def)
  with script_paths [OF r] show ?thesis by (auto simp: first_char_def ascii_def)
qed

end
