(* ===== verification/Confinement.thy ===== *)
theory Confinement
  imports Seccomp Tracer
begin

text \<open>
  What becomes of a system call of the sandboxed program: the filter of \<open>execChild\<close> decides, a
  trapped call goes through \<open>handle_trap\<close>, \<open>NodeSandbox::handleSyscall\<close> and the VFS, and the kernel
  then executes what the registers say, or skips the call. The policy the parts add up to is
  \<open>permitted\<close>. A history of the supervisor is \<open>host_reach\<close>.
\<close>

section \<open>Numbers of system calls\<close>

text \<open>What \<open>SCMP_SYS\<close> makes of the names in the rules, on x86-64.\<close>

definition syscall_numbers :: "(int \<times> string) list" where
  "syscall_numbers =
  [(0, ''read''), (1, ''write''), (2, ''open''), (3, ''close''), (4, ''stat''), (5, ''fstat''), (6, ''lstat''),
   (7, ''poll''), (8, ''lseek''), (9, ''mmap''), (10, ''mprotect''), (11, ''munmap''), (12, ''brk''),
   (13, ''rt_sigaction''), (14, ''rt_sigprocmask''), (16, ''ioctl''), (19, ''readv''), (20, ''writev''),
   (21, ''access''), (23, ''select''), (24, ''sched_yield''), (28, ''madvise''), (35, ''nanosleep''),
   (39, ''getpid''), (41, ''socket''), (42, ''connect''), (43, ''accept''), (49, ''bind''), (50, ''listen''),
   (51, ''getsockname''), (52, ''getpeername''), (54, ''setsockopt''), (55, ''getsockopt''), (56, ''clone''),
   (59, ''execve''), (60, ''exit''), (63, ''uname''), (72, ''fcntl''), (74, ''fsync''), (75, ''fdatasync''),
   (78, ''getdents''), (79, ''getcwd''), (80, ''chdir''), (81, ''fchdir''), (89, ''readlink''),
   (96, ''gettimeofday''), (97, ''getrlimit''), (101, ''ptrace''), (102, ''getuid''), (104, ''getgid''),
   (107, ''geteuid''), (108, ''getegid''), (110, ''getppid''), (111, ''getpgrp''), (115, ''getgroups''),
   (118, ''getresuid''), (120, ''getresgid''), (125, ''capget''), (157, ''prctl''), (158, ''arch_prctl''),
   (162, ''sync''), (186, ''gettid''), (200, ''tkill''), (202, ''futex''), (205, ''set_thread_area''),
   (213, ''epoll_create''), (217, ''getdents64''), (218, ''set_tid_address''), (219, ''restart_syscall''),
   (228, ''clock_gettime''), (229, ''clock_getres''), (230, ''clock_nanosleep''), (231, ''exit_group''),
   (232, ''epoll_wait''), (233, ''epoll_ctl''), (234, ''tgkill''), (257, ''openat''), (270, ''pselect6''),
   (271, ''ppoll''), (273, ''set_robust_list''), (274, ''get_robust_list''), (281, ''epoll_pwait''),
   (288, ''accept4''), (290, ''eventfd2''), (291, ''epoll_create1''), (293, ''pipe2'')]"

definition nr_verdict :: "(action list \<Rightarrow> action) \<Rightarrow> u64 \<Rightarrow> u64 \<Rightarrow> action" where
  "nr_verdict decide nr a0 =
     (case map_of syscall_numbers (uint nr) of None \<Rightarrow> Kill | Some sys \<Rightarrow> verdict decide sys a0)"

section \<open>A system call of the program\<close>

text \<open>
  The program is killed, or the kernel executes the call in these registers, or it skips the call
  and returns this value: the last is what number -1 makes it do.
\<close>

datatype fate = Killed | Executed user_regs | Skipped u64

text \<open>The registers of a process after some requests of the supervisor.\<close>

fun regs_set :: "pid \<Rightarrow> request list \<Rightarrow> user_regs \<Rightarrow> user_regs" where
  "regs_set p [] r = r"
| "regs_set p (x # rs) r = regs_set p rs (case x of Set_regs q r' \<Rightarrow> if q = p then r' else r | _ \<Rightarrow> r)"

text \<open>The status of a process stopped by the filter: event 7 with \<open>SIGTRAP\<close>.\<close>

definition seccomp_stop :: u32 where
  "seccomp_stop = 0x7057F"

definition program_call :: "(action list \<Rightarrow> action) \<Rightarrow> tracee \<Rightarrow> pid \<Rightarrow> 'w host \<Rightarrow> (fate \<times> 'w host) outcome" where
  "program_call decide T p h =
     (let regs = regs_of T p in
      case nr_verdict decide (orig_rax regs) (rdi regs) of
        Kill \<Rightarrow> Ret (Killed, h)
      | Allow \<Rightarrow> Ret (Executed regs, h)
      | Trace \<Rightarrow>
          bindO (trap_step T p seccomp_stop h) (\<lambda>(_, h').
          let regs' = regs_set p (drop (length (requests h)) (requests h')) regs in
          Ret (if orig_rax regs' = -1 then Skipped (rax regs') else Executed regs', h')))"

section \<open>The policy\<close>

text \<open>The calls the VFS answers for a virtual descriptor, and those it answers for a path.\<close>

definition descriptor_calls :: "u64 set" where
  "descriptor_calls = {0, 1, 3, 5, 8, 78}"

definition path_calls :: "u64 set" where
  "path_calls = {2, 4, 6, 21, 89}"

text \<open>The name \<open>openat\<close> is checked by: that of a relative path has the directory in front.\<close>

definition openat_name :: "pid \<Rightarrow> user_regs \<Rightarrow> 'w vfs \<Rightarrow> byte list outcome" where
  "openat_name p regs s =
     bindO (getFilename p (rsi regs) s) (\<lambda>(fname, s).
     if first_char fname = 0x2F then Ret fname
     else if rdi regs = AT_FDCWD then bindO (path_of s (cwd s)) (\<lambda>d. Ret (d @ fname))
     else if isVirtualFD (ucast (rdi regs)) then
       bindO (getFile s (ucast (rdi regs))) (\<lambda>f. bindO (path_of s f) (\<lambda>d. Ret (d @ fname)))
     else Ret fname)"

text \<open>
  What the kernel may be made to execute for a call: a call of the table other than \<open>ptrace\<close>, on
  a descriptor of its own, or on a name on the white list, with the arguments the program gave,
  but for those of \<open>socket\<close> and \<open>bind\<close>.
\<close>

definition permitted :: "tracee \<Rightarrow> pid \<Rightarrow> 'w vfs \<Rightarrow> user_regs \<Rightarrow> bool" where
  "permitted T p s regs' \<longleftrightarrow>
     (let regs = regs_of T p; nr = orig_rax regs in
      uint nr \<in> fst ` set syscall_numbers - {101} \<and>
      (nr \<in> descriptor_calls \<longrightarrow> \<not> isVirtualFD (ucast (rdi regs))) \<and>
      (nr \<in> path_calls \<longrightarrow> (\<exists>name \<in> set whitelist. \<exists>s'. getFilename p (rdi regs) s = Ret (name, s'))) \<and>
      (nr = 257 \<longrightarrow> (\<exists>name \<in> set whitelist. openat_name p regs s = Ret name)) \<and>
      (\<exists>r. regs' =
        (if nr = 41 then regs\<lparr>rdi := AF_UNIX, rax := r\<rparr>
         else if nr = 49 then regs\<lparr>rsi := scratchAddr (sbox s), rdx := 110, rax := r\<rparr>
         else regs\<lparr>rax := r\<rparr>)))"

text \<open>The VFS as a trapped call finds it.\<close>

definition trapped :: "'w host \<Rightarrow> 'w vfs" where
  "trapped h = (vfs_of h)\<lparr>sbox := resetScratch (box_of h)\<rparr>"

section \<open>Histories\<close>

text \<open>
  From some state on: stops are handled, whatever the kernel reports, and in between the
  processes and the world outside change as they like.
\<close>

inductive host_reach :: "'w host \<Rightarrow> 'w host \<Rightarrow> bool" for h0 where
  start: "host_reach h0 h0"
| stop: "host_reach h0 h \<Longrightarrow> trap_step T p status h = Ret (status', h') \<Longrightarrow> host_reach h0 h'"
| outside: "host_reach h0 h \<Longrightarrow>
    host_reach h0 (h\<lparr>vfs_of := (vfs_of h)\<lparr>sbox := (box_of h)\<lparr>mem := m, errno := e\<rparr>, world := w\<rparr>\<rparr>)"

end
