(* ===== verification/ConfinementFacts.thy ===== *)
theory ConfinementFacts
  imports Confinement TracerFacts
begin

text \<open>
  The parts of the sandbox together: what stays the same through any history of the supervisor,
  which calls of the program the kernel executes, and where the policy has holes.
\<close>

section \<open>What no operation changes\<close>

text \<open>The process traced, that it has entered its program, and its scratch buffer.\<close>

definition same_box :: "sandbox \<Rightarrow> sandbox \<Rightarrow> bool" where
  "same_box b b' \<longleftrightarrow> main_pid b' = main_pid b \<and> entered_main b' = entered_main b \<and> scratchAddr b' = scratchAddr b"

lemma same_box_refl [simp]: "same_box b b"
  by (simp add: same_box_def)

lemma same_box_trans: "same_box b c \<Longrightarrow> same_box c d \<Longrightarrow> same_box b d"
  by (simp add: same_box_def)

lemma same_box_simps [simp]:
  "same_box b (c\<lparr>errno := e\<rparr>) \<longleftrightarrow> same_box b c" "same_box b (c\<lparr>mem := m\<rparr>) \<longleftrightarrow> same_box b c"
  "same_box b (c\<lparr>nextScratchSegment := n\<rparr>) \<longleftrightarrow> same_box b c" "same_box b (resetScratch c) \<longleftrightarrow> same_box b c"
  by (simp_all add: same_box_def resetScratch_def)

named_theorems boxed \<open>operations that keep the fields of the sandbox\<close>

lemma peekData_box [boxed]: "peekData b p a = Ret (w, b') \<Longrightarrow> same_box b b'"
  by (auto simp: peekData_def split: option.splits)

lemma pokeData_box [simp]: "same_box b (snd (pokeData b p a w))"
  by (auto simp: pokeData_def split: option.splits)

lemma copy_words_box: "copy_words b p a i len buf = Ret (buf', b') \<Longrightarrow> same_box b b'"
proof (induction b p a i len buf arbitrary: buf' b' rule: copy_words.induct)
  case (1 b p a i len buf)
  show ?case
  proof (cases "i < len")
    case True
    with "1.prems" obtain w c buf1 where c: "peekData b p (a + of_nat i) = Ret (w, c)"
      "store_at buf i (to_le 8 w) = Ret buf1" "copy_words c p a (i + 8) len buf1 = Ret (buf', b')"
      by (subst (asm) copy_words.simps) (auto simp: bindO_Ret_iff)
    show ?thesis
      by (rule same_box_trans [OF peekData_box [OF c(1)] "1.IH" [OF True c(1) refl c(2,3)]])
  qed (use "1.prems" in \<open>auto simp: copy_words.simps [of b]\<close>)
qed

lemma copyData_box [boxed]: "copyData b p a len buf = Ret (r, buf', b') \<Longrightarrow> same_box b b'"
  by (auto simp: copyData_def bindO_Ret_iff dest: copy_words_box)

lemma copy_string_words_box: "copy_string_words b p a i len buf = Ret (e, j, buf', b') \<Longrightarrow> same_box b b'"
proof (induction b p a i len buf arbitrary: buf' b' rule: copy_string_words.induct)
  case (1 b p a i len buf)
  show ?case
  proof (cases "8 < len - i")
    case True
    with "1.prems" obtain w c buf1 where c: "peekData b p (a + of_nat i) = Ret (w, c)"
      "store_at buf i (upto_nul (to_le 8 w)) = Ret buf1"
      "(if 0 \<in> set (upto_nul (to_le 8 w)) then Ret (True, i + 8, buf1, c) else copy_string_words c p a (i + 8) len buf1) = Ret (e, j, buf', b')"
      by (subst (asm) copy_string_words.simps) (auto simp: bindO_Ret_iff Let_def)
    note p = peekData_box [OF c(1)]
    show ?thesis
    proof (cases "0 \<in> set (upto_nul (to_le 8 w))")
      case False
      with c(3) have "copy_string_words c p a (i + 8) len buf1 = Ret (e, j, buf', b')" by simp
      from "1.IH" [OF _ c(1) refl refl c(2) _ this] True False same_box_trans [OF p] show ?thesis by simp
    qed (use c p in simp)
  qed (use "1.prems" in \<open>auto simp: copy_string_words.simps [of b]\<close>)
qed

lemma copyString_box [boxed]: "copyString b p a len buf = Ret (r, buf', b') \<Longrightarrow> same_box b b'"
  by (auto simp: copyString_def bindO_Ret_iff split: if_splits
      dest!: copy_string_words_box peekData_box intro: same_box_trans)

lemma write_words_box: "write_words b p a i len buf = Ret (j, b') \<Longrightarrow> same_box b b'"
proof (induction b p a i len buf rule: write_words.induct)
  case (1 b p a i len buf)
  show ?case
  proof (cases "8 < len - i")
    case True
    with "1.prems" obtain d where d: "read_at buf i 8 = Ret d"
      "write_words (snd (pokeData b p (a + of_nat i) (of_le d))) p a (i + 8) len buf = Ret (j, b')"
      by (subst (asm) write_words.simps) (auto simp: bindO_Ret_iff)
    show ?thesis by (rule same_box_trans [OF pokeData_box "1.IH" [OF _ d]]) (use True in simp)
  qed (use "1.prems" in \<open>auto simp: write_words.simps [of b]\<close>)
qed

lemma writeData_box [boxed]:
  assumes "writeData b p a len buf = Ret (r, b')"
  shows "same_box b b'"
proof -
  from assms obtain i c where w: "write_words b p a 0 len buf = Ret (i, c)" by (auto simp: writeData_def bindO_Ret_iff)
  note t = write_words_box [OF w]
  show ?thesis
  proof (cases "i = len")
    case False
    with assms w obtain d c2 x where c2: "peekData c p (a + of_nat i) = Ret (d, c2)" "b' = snd (pokeData c2 p (a + of_nat i) x)"
      by (auto simp: writeData_def bindO_Ret_iff Let_def)
    from same_box_trans [OF t same_box_trans [OF peekData_box [OF c2(1)] pokeData_box]] c2(2) show ?thesis by simp
  qed (use assms w t in \<open>auto simp: writeData_def bindO_Ret_iff\<close>)
qed

lemma writeScratch_box [boxed]: "writeScratch b len buf = Ret (a, b') \<Longrightarrow> same_box b b' \<and> a = nextScratchSegment b"
  by (auto simp: writeScratch_def bindO_Ret_iff Let_def dest: writeData_box)

text \<open>Writing into one process leaves the others alone.\<close>

lemma pokeData_other: "q \<noteq> p \<Longrightarrow> mem (snd (pokeData b p a w)) q = mem b q"
  by (auto simp: pokeData_def split: option.splits)

lemma peekData_mem: "peekData b p a = Ret (w, b') \<Longrightarrow> mem b' = mem b"
  by (auto simp: peekData_def split: option.splits)

lemma write_words_other: "write_words b p a i len buf = Ret (j, b') \<Longrightarrow> q \<noteq> p \<Longrightarrow> mem b' q = mem b q"
proof (induction b p a i len buf rule: write_words.induct)
  case (1 b p a i len buf)
  show ?case
  proof (cases "8 < len - i")
    case True
    with "1.prems" obtain d where d: "read_at buf i 8 = Ret d"
      "write_words (snd (pokeData b p (a + of_nat i) (of_le d))) p a (i + 8) len buf = Ret (j, b')"
      by (subst (asm) write_words.simps) (auto simp: bindO_Ret_iff)
    from "1.IH" [OF _ d "1.prems"(2)] True pokeData_other [OF "1.prems"(2)] show ?thesis by simp
  qed (use "1.prems" in \<open>auto simp: write_words.simps [of b]\<close>)
qed

lemma writeData_other:
  "writeData b p a len buf = Ret (r, b') \<Longrightarrow> q \<noteq> p \<Longrightarrow> mem b' q = mem b q"
  by (auto simp: writeData_def bindO_Ret_iff Let_def pokeData_other split: if_splits
      dest!: write_words_other [where q = q] peekData_mem)

section \<open>What no system call changes\<close>

definition same_vfs :: "'w vfs \<Rightarrow> 'w vfs \<Rightarrow> bool" where
  "same_vfs s s' \<longleftrightarrow> same_box (sbox s) (sbox s')"

lemma same_vfs_refl [simp]: "same_vfs s s"
  by (simp add: same_vfs_def)

lemma same_vfs_trans: "same_vfs s t \<Longrightarrow> same_vfs t u \<Longrightarrow> same_vfs s u"
  unfolding same_vfs_def by (rule same_box_trans)

lemma same_vfs_simps [simp]:
  "same_vfs (s\<lparr>cwd := x\<rparr>) t = same_vfs s t" "same_vfs (s\<lparr>openFiles := y\<rparr>) t = same_vfs s t"
  "same_vfs s (t\<lparr>cwd := x\<rparr>) = same_vfs s t" "same_vfs s (t\<lparr>openFiles := y\<rparr>) = same_vfs s t"
  "same_vfs s (t\<lparr>files := z\<rparr>) = same_vfs s t"
  by (simp_all add: same_vfs_def)

lemma in_world_same [boxed]: "in_world f s = Ret (r, s') \<Longrightarrow> same_vfs s s'"
  by (auto simp: in_world_def bindO_Ret_iff same_vfs_def)

lemma write_child_same [boxed]: "write_child c a n buf s = Ret s' \<Longrightarrow> same_vfs s s'"
  by (auto simp: write_child_def bindO_Ret_iff same_vfs_def dest: writeData_box)

lemma getFilename_same [boxed]: "getFilename p a s = Ret (str, s') \<Longrightarrow> same_vfs s s'"
  by (auto simp: getFilename_def bindO_Ret_iff same_vfs_def dest: copyString_box)

lemma file_close_same [boxed]: "file_close a s = Ret (r, s') \<Longrightarrow> same_vfs s s'"
  by (auto simp: file_close_def Let_def bindO_Ret_iff split: if_splits dest: in_world_same)

lemma drop_ref_same [boxed]: "drop_ref p s = Ret s' \<Longrightarrow> same_vfs s s'"
  by (auto simp: drop_ref_def bindO_Ret_iff split: option.splits if_splits dest: file_close_same)

lemma file_ops_same [boxed]:
  "file_read a buf s = Ret (x, s') \<Longrightarrow> same_vfs s s'"
  "file_fstat a buf s = Ret (z, s') \<Longrightarrow> same_vfs s s'"
  "file_getdents a buf n s = Ret (z, s') \<Longrightarrow> same_vfs s s'"
  "file_lseek a off whence s = Ret (y, s') \<Longrightarrow> same_vfs s s'"
  "file_write a buf s = Ret (y, s') \<Longrightarrow> same_vfs s s'"
  by (auto simp: file_read_def file_fstat_def file_getdents_def file_lseek_def file_write_def Let_def
      dest: in_world_same)

lemma new_file_same [simp]: "same_vfs (snd (new_file fd path fs s)) t = same_vfs s t"
  by (simp add: new_file_def same_vfs_def)

lemma makeFile_same [simp]: "same_vfs (snd (makeFile fd path fs s)) t = same_vfs s t"
  by (simp add: makeFile_def Let_def case_prod_beta)

lemma setCWD_same [boxed]: "setCWD fname s = Ret (r, s') \<Longrightarrow> same_vfs s s'"
  by (auto simp: setCWD_def handler_simps split: if_splits option.splits dest!: in_world_same drop_ref_same)
    (blast intro: same_vfs_trans)+

lemma openFile_same [boxed]: "openFile c fname flags mode s = Ret (c', s') \<Longrightarrow> same_vfs s s'"
  by (auto simp: openFile_def handler_simps split: if_splits option.splits dest!: in_world_same drop_ref_same)
    (blast intro: same_vfs_trans)+

lemma do_open_same: "do_open c s = Ret (c', s') \<Longrightarrow> same_vfs s s'"
  by (auto simp: do_open_def handler_simps dest!: boxed) (blast intro: same_vfs_trans)+

lemma do_openat_same: "do_openat c s = Ret (c', s') \<Longrightarrow> same_vfs s s'"
  by (auto simp: do_openat_def bindO_Ret_iff dest!: getFilename_same openFile_same) (blast intro: same_vfs_trans)+

lemma do_close_same: "do_close c s = Ret (c', s') \<Longrightarrow> same_vfs s s'"
  by (auto simp: do_close_def handler_simps split: if_splits option.splits dest!: file_close_same drop_ref_same) (blast intro: same_vfs_trans)+

lemma do_read_same: "do_read c s = Ret (c', s') \<Longrightarrow> same_vfs s s'"
  by (auto simp: do_read_def handler_simps split: if_splits option.splits dest!: file_ops_same write_child_same) (blast intro: same_vfs_trans)+

lemma do_fstat_same: "do_fstat c s = Ret (c', s') \<Longrightarrow> same_vfs s s'"
  by (auto simp: do_fstat_def handler_simps split: if_splits option.splits dest!: file_ops_same write_child_same) (blast intro: same_vfs_trans)+

lemma do_getdents_same: "do_getdents c s = Ret (c', s') \<Longrightarrow> same_vfs s s'"
  by (auto simp: do_getdents_def handler_simps split: if_splits option.splits dest!: file_ops_same write_child_same) (blast intro: same_vfs_trans)+

lemma do_write_same: "do_write c s = Ret (c', s') \<Longrightarrow> same_vfs s s'"
  by (auto simp: do_write_def handler_simps same_vfs_def split: if_splits option.splits
      dest!: copyData_box file_ops_same(5) [unfolded same_vfs_def]) (blast intro: same_box_trans)+

lemma do_lseek_same: "do_lseek c s = Ret (c', s') \<Longrightarrow> same_vfs s s'"
  by (auto simp: do_lseek_def handler_simps split: if_splits option.splits dest!: file_ops_same)

lemma do_access_same: "do_access c s = Ret (c', s') \<Longrightarrow> same_vfs s s'"
  by (auto simp: do_access_def handler_simps split: if_splits option.splits dest!: getFilename_same in_world_same) (blast intro: same_vfs_trans)+

lemma do_readlink_same: "do_readlink c s = Ret (c', s') \<Longrightarrow> same_vfs s s'"
  by (auto simp: do_readlink_def handler_simps split: if_splits option.splits
      dest!: getFilename_same in_world_same write_child_same) (blast intro: same_vfs_trans)+

lemma stat_path_same: "stat_path op c s = Ret (c', s') \<Longrightarrow> same_vfs s s'"
  by (auto simp: stat_path_def handler_simps split: if_splits option.splits
      dest!: getFilename_same in_world_same write_child_same) (blast intro: same_vfs_trans)+

lemma do_chdir_same: "do_chdir c s = Ret (c', s') \<Longrightarrow> same_vfs s s'"
  by (auto simp: do_chdir_def handler_simps dest!: getFilename_same setCWD_same) (blast intro: same_vfs_trans)+

lemma do_getcwd_same: "do_getcwd c s = Ret (c', s') \<Longrightarrow> same_vfs s s'"
  by (auto simp: do_getcwd_def handler_simps dest!: write_child_same)

lemma handleSyscall_same: "handleSyscall c s = Ret (c', s') \<Longrightarrow> same_vfs s s'"
  unfolding handleSyscall_def do_stat_def do_lstat_def
  by (auto split: if_splits dest: do_open_same do_openat_same do_close_same do_read_same do_fstat_same
      do_getdents_same do_write_same do_lseek_same do_access_same do_readlink_same stat_path_same do_chdir_same
      do_getcwd_same)

section \<open>Histories\<close>

lemma node_handleSyscall_box:
  "node_handleSyscall j c h = Ret (c', h') \<Longrightarrow>
    \<exists>b. same_box (box_of h) b \<and> vfs_of h' = (vfs_of h)\<lparr>sbox := b\<rparr>"
  by (auto simp: node_handleSyscall_def Let_def bindO_Ret_iff kill_def releaseChild_def ask_def set_box_def box_of_def
      split: if_splits dest: writeScratch_box intro: exI [of _ "sbox (vfs_of h)"])

lemma reachable_box: "reachable s \<Longrightarrow> reachable (s\<lparr>sbox := b\<rparr>)"
  using reachable.outside [of s "world s" b] by simp

text \<open>What a round of the loop keeps: the VFS stays reachable, and the program entered.\<close>

definition goes_to :: "'w host \<Rightarrow> 'w host \<Rightarrow> bool" where
  "goes_to h h' \<longleftrightarrow>
     (reachable (vfs_of h) \<longrightarrow> reachable (vfs_of h')) \<and>
     main_pid (box_of h') = main_pid (box_of h) \<and>
     (entered_main (box_of h) \<longrightarrow> same_box (box_of h) (box_of h')) \<and>
     (\<exists>rs. requests h' = requests h @ rs)"

lemma goes_to_refl [simp]: "goes_to h h"
  by (simp add: goes_to_def)

lemma goes_to_trans: "goes_to h h' \<Longrightarrow> goes_to h' h'' \<Longrightarrow> goes_to h h''"
  by (auto simp: goes_to_def same_box_def)

lemma goes_to_ask [simp]: "goes_to h h' \<Longrightarrow> goes_to h (ask rs h')"
  by (auto simp: goes_to_def)

lemma handleSeccompEvent_goes:
  assumes "handleSeccompEvent T p h = Ret h'"
  shows "goes_to h h'"
proof (cases "entered_main (box_of h)")
  case True
  let ?c = "call_of_regs (junk_return T) p (regs_of T p)" and ?h = "set_box (resetScratch (box_of h)) h"
  from assms True obtain c1 h1 c2 v where n: "node_handleSyscall (junk_path T) ?c ?h = Ret (c1, h1)"
    "handleSyscall c1 (vfs_of h1) = Ret (c2, v)" "vfs_of h' = v"
    by (auto simp: handleSeccompEvent_def Let_def bindO_Ret_iff)
  from node_handleSyscall_box [OF n(1)] obtain b where b: "same_box (box_of h) b" "vfs_of h1 = (vfs_of h)\<lparr>sbox := b\<rparr>"
    by (auto simp: set_box_def box_of_def resetScratch_def same_box_def)
  from handleSyscall_same [OF n(2)] have "same_box b (sbox v)" using b(2) by (simp add: same_vfs_def)
  with b(1) have "same_box (box_of h) (box_of h')" using n(3) same_box_trans by (auto simp: box_of_def)
  moreover have "reachable (vfs_of h) \<Longrightarrow> reachable (vfs_of h')"
    using reachable.call [OF _ n(2)] reachable_box b(2) n(3) by metis
  moreover obtain rs where "requests h' = requests h @ rs"
    using handleSeccompEvent_grows [OF assms] by (auto simp: grows_def)
  ultimately show ?thesis by (auto simp: goes_to_def same_box_def)
qed (use assms in \<open>simp add: handleSeccompEvent_def\<close>)

lemma scan_environ_box:
  "scan_environ n s p e a = Ret s' \<Longrightarrow> main_pid s' = main_pid s \<and> entered_main s' = entered_main s"
proof (induction n s p e a arbitrary: s' rule: scan_environ.induct)
  case (2 n s p e a)
  show ?case
  proof (cases "a = 0")
    case False
    with "2.prems" obtain r buf s1 where c: "copyString s p a 1024 (replicate 1024 0) = Ret (r, buf, s1)"
      "(if take (length needle) buf = needle then Ret (s1\<lparr>scratchAddr := a + of_nat (length needle)\<rparr>)
        else bindO (peekData s1 p (e + 8)) (\<lambda>(a, s). scan_environ n s p (e + 8) a)) = Ret s'"
      by (auto simp: bindO_Ret_iff Let_def)
    note k = copyString_box [OF c(1)]
    show ?thesis
    proof (cases "take (length needle) buf = needle")
      case False
      with c(2) obtain w s2 where w: "peekData s1 p (e + 8) = Ret (w, s2)" "scan_environ n s2 p (e + 8) w = Ret s'"
        by (auto simp: bindO_Ret_iff)
      from "2.IH" [OF \<open>a \<noteq> 0\<close> c(1) refl refl refl False w(1) refl w(2)] k peekData_box [OF w(1)]
      show ?thesis by (simp add: same_box_def)
    qed (use c(2) k in \<open>auto simp: same_box_def\<close>)
  qed (use "2.prems" in simp)
qed simp

lemma handleExecEvent_box:
  "handleExecEvent n sp b p = Ret b' \<Longrightarrow> main_pid b' = main_pid b \<and> (entered_main b \<longrightarrow> b' = b)"
  by (auto simp: handleExecEvent_def handleExecEvent_in_def Let_def bindO_Ret_iff same_box_def split: if_splits
      dest!: copyData_box peekData_box scan_environ_box)

lemma handle_exec_goes: "handle_exec T p h = Ret h' \<Longrightarrow> goes_to h h'"
  unfolding goes_to_def
  by (auto simp: handle_exec_def bindO_Ret_iff set_box_def reachable_box box_of_def dest!: handleExecEvent_box)

lemma goes_to_release [simp]: "goes_to h h' \<Longrightarrow> goes_to h (releaseChild x h')"
  by (simp add: releaseChild_def Let_def)

lemma trap_step_goes:
  assumes "trap_step T p status h = Ret (status', h')"
  shows "goes_to h h'"
  using assms
  by (auto simp: trap_step_def Let_def bindO_Ret_iff split: if_splits
      dest!: handleSeccompEvent_goes handle_exec_goes)

lemma outside_goes:
  "goes_to h (h\<lparr>vfs_of := (vfs_of h)\<lparr>sbox := (box_of h)\<lparr>mem := m, errno := e\<rparr>, world := w\<rparr>\<rparr>)"
  by (auto simp: goes_to_def box_of_def same_box_def intro: reachable.outside)

lemma host_reach_goes: "host_reach h0 h \<Longrightarrow> goes_to h0 h"
  by (induction rule: host_reach.induct)
    (auto intro: goes_to_trans [OF _ trap_step_goes] goes_to_trans [OF _ outside_goes])

section \<open>The verdicts of the filter by number\<close>

lemma nr_in_table: "nr_verdict decide nr a0 \<noteq> Kill \<Longrightarrow> uint nr \<in> fst ` set syscall_numbers"
  by (auto simp: nr_verdict_def image_iff split: option.splits dest: map_of_SomeD intro: rev_bexI)

lemma named_calls:
  "map_of syscall_numbers 0 = Some ''read''" "map_of syscall_numbers 1 = Some ''write''"
  "map_of syscall_numbers 2 = Some ''open''" "map_of syscall_numbers 3 = Some ''close''"
  "map_of syscall_numbers 4 = Some ''stat''" "map_of syscall_numbers 5 = Some ''fstat''"
  "map_of syscall_numbers 6 = Some ''lstat''" "map_of syscall_numbers 8 = Some ''lseek''"
  "map_of syscall_numbers 21 = Some ''access''" "map_of syscall_numbers 41 = Some ''socket''"
  "map_of syscall_numbers 49 = Some ''bind''" "map_of syscall_numbers 59 = Some ''execve''"
  "map_of syscall_numbers 78 = Some ''getdents''" "map_of syscall_numbers 79 = Some ''getcwd''"
  "map_of syscall_numbers 80 = Some ''chdir''" "map_of syscall_numbers 89 = Some ''readlink''"
  "map_of syscall_numbers 101 = Some ''ptrace''" "map_of syscall_numbers 257 = Some ''openat''"
  by code_simp+

lemma nr_fixed:
  assumes "chooses decide" "map_of syscall_numbers (uint nr) = Some x" "x \<notin> set ambiguous" "(a, x, Always) \<in> set seccomp_rules"
  shows "nr_verdict decide nr a0 = a"
  using verdict_unique [OF assms(1,3,4)] assms(2) by (simp add: nr_verdict_def)

lemma rules_in_table:
  "r \<in> set rules_paths \<Longrightarrow> r \<in> set seccomp_rules" "r \<in> set rules_other \<Longrightarrow> r \<in> set seccomp_rules"
  by (simp_all add: seccomp_rules_def)

lemma traced_names:
  "list_all (\<lambda>x. x \<notin> set ambiguous \<and> (Trace, x, Always) \<in> set rules_paths)
     [''open'', ''stat'', ''lstat'', ''access'', ''readlink'', ''openat'', ''chdir'', ''fchdir'', ''getcwd'']"
  "list_all (\<lambda>x. x \<notin> set ambiguous \<and> (Trace, x, Always) \<in> set rules_other) [''socket'', ''bind'']"
  by code_simp+

lemma traced_rules:
  assumes "x \<in> {''open'', ''stat'', ''lstat'', ''access'', ''readlink'', ''openat'', ''chdir'', ''fchdir'', ''getcwd'', ''socket'', ''bind''}"
  shows "x \<notin> set ambiguous \<and> (Trace, x, Always) \<in> set seccomp_rules"
  using assms traced_names rules_in_table by (elim insertE) simp_all

lemma nr_traced:
  assumes "chooses decide" "nr \<in> path_calls \<union> {257, 41, 49}"
  shows "nr_verdict decide nr a0 = Trace"
proof -
  from assms(2) have "\<exists>x \<in> {''open'', ''stat'', ''lstat'', ''access'', ''readlink'', ''openat'', ''socket'', ''bind''}.
      map_of syscall_numbers (uint nr) = Some x"
    by (auto simp: path_calls_def named_calls)
  then obtain x where "x \<in> {''open'', ''stat'', ''lstat'', ''access'', ''readlink'', ''openat'', ''socket'', ''bind''}"
    "map_of syscall_numbers (uint nr) = Some x" ..
  moreover from this have "x \<notin> set ambiguous \<and> (Trace, x, Always) \<in> set seccomp_rules" by (intro traced_rules) auto
  ultimately show ?thesis using nr_fixed [OF assms(1)] by simp
qed

lemma nr_descriptor:
  assumes "chooses decide" "nr \<in> descriptor_calls"
  shows "nr_verdict decide nr a0 = (if 4096 \<le> a0 then Trace else Allow)"
proof -
  from assms(2) obtain x where x: "map_of syscall_numbers (uint nr) = Some x" "x \<in> set vfs_filtered" "x \<noteq> ''ioctl''"
    unfolding descriptor_calls_def by (auto simp: named_calls vfs_filtered_def)
  from verdict_filtered [OF assms(1) x(2,3)] x(1) show ?thesis by (simp add: nr_verdict_def)
qed

lemma fixed_verdicts:
  assumes "chooses decide"
  shows "nr_verdict decide 101 a0 = Kill" "nr_verdict decide 59 a0 = Allow"
proof -
  have r: "(Kill, ''ptrace'', Always) \<in> set seccomp_rules" "(Allow, ''execve'', Always) \<in> set seccomp_rules"
    by (simp_all add: seccomp_rules_def rules_paths_def)
  show "nr_verdict decide 101 a0 = Kill"
    by (rule nr_fixed [OF assms _ _ r(1)]) (simp_all add: named_calls ambiguous_def)
  show "nr_verdict decide 59 a0 = Allow"
    by (rule nr_fixed [OF assms _ _ r(2)]) (simp_all add: named_calls ambiguous_def)
qed

section \<open>A trapped call and the kernel\<close>

lemma seccomp_stop_event: "WIFSTOPPED seccomp_stop" "WSTOPSIG seccomp_stop = SIGTRAP" "event_of seccomp_stop = 7"
  by (simp_all add: WIFSTOPPED_def WSTOPSIG_def event_of_def seccomp_stop_def SIGTRAP_def)

lemma regs_set_append [simp]: "regs_set p (rs @ qs) r = regs_set p qs (regs_set p rs r)"
  by (induction rs arbitrary: r) auto

text \<open>A trapped call before the kernel gets it: what the sandbox makes of it, then the VFS.\<close>

definition handled :: "tracee \<Rightarrow> pid \<Rightarrow> 'w host \<Rightarrow> SyscallCall \<Rightarrow> SyscallCall \<Rightarrow> 'w vfs \<Rightarrow> 'w vfs \<Rightarrow> bool" where
  "handled T p h c1 c2 s v \<longleftrightarrow>
     (\<exists>h1. node_handleSyscall (junk_path T) (call_of_regs (junk_return T) p (regs_of T p)) (set_box (resetScratch (box_of h)) h) = Ret (c1, h1) \<and>
       s = vfs_of h1 \<and> handleSyscall c1 s = Ret (c2, v))"

lemma node_requests: "node_handleSyscall j c h = Ret (c', h') \<Longrightarrow> \<exists>rs. requests h' = requests h @ rs"
  by (auto simp: node_handleSyscall_def Let_def bindO_Ret_iff kill_def releaseChild_def split: if_splits)

lemma program_call_traced:
  assumes "nr_verdict decide (orig_rax (regs_of T p)) (rdi (regs_of T p)) = Trace" "entered_main (box_of h)"
  shows "program_call decide T p h = Ret (f, h') \<longleftrightarrow>
    (\<exists>h1. handleSeccompEvent T p h = Ret h1 \<and> h' = ask [Cont p 0] h1 \<and>
      (\<exists>c1 c2 s. handled T p h c1 c2 s (vfs_of h1) \<and>
        f = (if sys_id c2 = -1 then Skipped (returnVal c2) else Executed (regs_of_call c2 (regs_of T p)))))"
    (is "?l \<longleftrightarrow> ?r")
proof -
  let ?c = "call_of_regs (junk_return T) p (regs_of T p)" and ?h = "set_box (resetScratch (box_of h)) h"
  define after where "after h1 = regs_set p (drop (length (requests h)) (requests (ask [Cont p 0] h1))) (regs_of T p)"
    for h1 :: "'a host"
  have call: "program_call decide T p h = bindO (handleSeccompEvent T p h) (\<lambda>h1.
      Ret (if orig_rax (after h1) = -1 then Skipped (rax (after h1)) else Executed (after h1), ask [Cont p 0] h1))"
    unfolding after_def using assms(1) seccomp_stop_event
    by (simp add: program_call_def Let_def trap_step_def bindO_assoc del: requests_simps)
  have regs: "after h1 = regs_of_call c2 (regs_of T p)"
    if "node_handleSyscall (junk_path T) ?c ?h = Ret (c1, h0)" "requests h1 = requests h0 @ [Set_regs p (regs_of_call c2 (regs_of T p))]"
    for c1 h0 h1 c2
    using node_requests [OF that(1)] that(2) by (auto simp: after_def)
  have fields: "orig_rax (regs_of_call c2 r) = sys_id c2" "rax (regs_of_call c2 r) = returnVal c2" for c2 r
    by (simp_all add: regs_of_call_def)
  show ?thesis
  proof
    assume ?l
    then obtain h1 where h1: "handleSeccompEvent T p h = Ret h1" "h' = ask [Cont p 0] h1"
      "f = (if orig_rax (after h1) = -1 then Skipped (rax (after h1)) else Executed (after h1))"
      by (auto simp: call bindO_Ret_iff)
    from h1(1) assms(2) obtain c1 h0 c2 v where n: "node_handleSyscall (junk_path T) ?c ?h = Ret (c1, h0)"
      "handleSyscall c1 (vfs_of h0) = Ret (c2, v)" "vfs_of h1 = v"
      "requests h1 = requests h0 @ [Set_regs p (regs_of_call c2 (regs_of T p))]"
      by (auto simp: handleSeccompEvent_def Let_def bindO_Ret_iff)
    have "f = (if sys_id c2 = -1 then Skipped (returnVal c2) else Executed (regs_of_call c2 (regs_of T p)))"
      by (simp add: h1(3) regs [OF n(1,4)] fields)
    moreover have "handled T p h c1 c2 (vfs_of h0) (vfs_of h1)" using n by (auto simp: handled_def)
    ultimately show ?r using h1(1,2) by blast
  next
    assume ?r
    then obtain h1 c1 c2 s where h1: "handleSeccompEvent T p h = Ret h1" "h' = ask [Cont p 0] h1"
      "handled T p h c1 c2 s (vfs_of h1)"
      "f = (if sys_id c2 = -1 then Skipped (returnVal c2) else Executed (regs_of_call c2 (regs_of T p)))" by blast
    from h1(3) obtain h0 where n: "node_handleSyscall (junk_path T) ?c ?h = Ret (c1, h0)"
      "handleSyscall c1 (vfs_of h0) = Ret (c2, vfs_of h1)" by (auto simp: handled_def)
    with h1(1) assms(2) have "ask [Set_regs p (regs_of_call c2 (regs_of T p))] (h0\<lparr>vfs_of := vfs_of h1\<rparr>) = h1"
      by (simp add: handleSeccompEvent_def Let_def)
    from arg_cong [OF this, of requests]
    have "requests h1 = requests h0 @ [Set_regs p (regs_of_call c2 (regs_of T p))]" by simp
    from regs [OF n(1) this] h1 show ?l by (simp add: call fields)
  qed
qed

lemma handled_cases:
  assumes "handled T p h c1 c2 s v" "fd_inv (vfs_of h)" "orig_rax (regs_of T p) \<noteq> 59"
  shows "fd_inv s" "passes_on c1 c2" "handleSyscall c1 s = Ret (c2, v)"
    "orig_rax (regs_of T p) \<noteq> 41 \<Longrightarrow> orig_rax (regs_of T p) \<noteq> 49 \<Longrightarrow>
      c1 = call_of_regs (junk_return T) p (regs_of T p) \<and> s = trapped h"
proof -
  let ?c = "call_of_regs (junk_return T) p (regs_of T p)" and ?h = "set_box (resetScratch (box_of h)) h"
  from assms(1) obtain h1 where n: "node_handleSyscall (junk_path T) ?c ?h = Ret (c1, h1)" "s = vfs_of h1"
    and v: "handleSyscall c1 s = Ret (c2, v)" by (auto simp: handled_def)
  from node_handleSyscall_box [OF n(1)] obtain b where "vfs_of h1 = (vfs_of h)\<lparr>sbox := b\<rparr>"
    by (auto simp: set_box_def)
  with n(2) assms(2) show inv: "fd_inv s" by (simp add: fd_inv_def)
  show "handleSyscall c1 s = Ret (c2, v)" by (rule v)
  show "passes_on c1 c2" by (rule vfs_calls.passes [OF v inv])
  show "c1 = ?c \<and> s = trapped h" if "orig_rax (regs_of T p) \<noteq> 41" "orig_rax (regs_of T p) \<noteq> 49"
  proof -
    have "node_handleSyscall (junk_path T) ?c ?h = Ret (?c, ?h)"
      by (rule node_passes) (use that assms(3) in simp)
    moreover have "vfs_of ?h = trapped h" by (simp add: trapped_def set_box_def)
    ultimately show ?thesis using n by simp
  qed
qed

lemma regs_passed:
  assumes "passes_on (call_of_regs j p regs) c2" "sys_id c2 \<noteq> -1"
  shows "regs_of_call c2 regs = regs\<lparr>rax := returnVal c2\<rparr>"
  using assms by (simp add: passes_on_def regs_of_call_def call_of_regs_def arg_def)

text \<open>The two calls whose arguments the sandbox changes.\<close>

lemma socket_regs:
  assumes "handled T p h c1 c2 s v" "fd_inv (vfs_of h)" "orig_rax (regs_of T p) = 41" "sys_id c2 \<noteq> -1"
  shows "regs_of_call c2 (regs_of T p) = (regs_of T p)\<lparr>rdi := AF_UNIX, rax := returnVal c2\<rparr>"
proof -
  have n: "orig_rax (regs_of T p) \<noteq> 59" using assms(3) by simp
  have "c1 = (call_of_regs (junk_return T) p (regs_of T p))\<lparr>args := (args (call_of_regs (junk_return T) p (regs_of T p)))[0 := AF_UNIX]\<rparr>"
    using assms(1,3) by (auto simp: handled_def node_handleSyscall_def)
  with handled_cases(2) [OF assms(1,2) n] assms(4) show ?thesis
    by (simp add: passes_on_def regs_of_call_def call_of_regs_def arg_def)
qed

lemma bind_regs:
  assumes "handled T p h c1 c2 s v" "fd_inv (vfs_of h)" "orig_rax (regs_of T p) = 49" "sys_id c2 \<noteq> -1"
    and "length (junk_path T) = 108"
  shows "regs_of_call c2 (regs_of T p) =
    (regs_of T p)\<lparr>rsi := scratchAddr (box_of h), rdx := 110, rax := returnVal c2\<rparr>"
proof -
  let ?c = "call_of_regs (junk_return T) p (regs_of T p)" and ?b = "resetScratch (box_of h)"
  have n: "orig_rax (regs_of T p) \<noteq> 59" using assms(3) by simp
  from assms(1,3) obtain a b where w: "writeScratch ?b (length (sockaddr_un (junk_path T) (main_pid ?b) (arg32 ?c 0)))
      (sockaddr_un (junk_path T) (main_pid ?b) (arg32 ?c 0)) = Ret (a, b)"
    and c1: "c1 = ?c\<lparr>args := (args ?c)[1 := a, 2 := of_nat (length (sockaddr_un (junk_path T) (main_pid ?b) (arg32 ?c 0)))]\<rparr>"
    by (auto simp: handled_def node_handleSyscall_def Let_def bindO_Ret_iff)
  from writeScratch_box [OF w] have "a = scratchAddr (box_of h)" by (simp add: resetScratch_def)
  with handled_cases(2) [OF assms(1,2) n] assms(4) c1 sockaddr_layout(1) [OF assms(5)] show ?thesis
    by (simp add: passes_on_def regs_of_call_def call_of_regs_def arg_def)
qed

lemma openat_passed:
  assumes "do_openat c s = Ret (c', s')" "sys_id c' \<noteq> -1"
    and "c = call_of_regs j p regs"
  shows "\<exists>name \<in> set whitelist. openat_name p regs s = Ret name"
proof -
  have a: "arg c 0 = rdi regs" "arg c 1 = rsi regs" "call_pid c = p" "arg32 c 0 = ucast (rdi regs)"
    using assms(3) by (simp_all add: call_of_regs_def arg_def arg32_def)
  from assms(1) obtain str s1 name where g: "getFilename p (rsi regs) s = Ret (str, s1)"
    "(if first_char str \<noteq> 0x2F then
        bindO (if rdi regs = AT_FDCWD then path_of s1 (cwd s1)
               else if isVirtualFD (ucast (rdi regs)) then bindO (getFile s1 (ucast (rdi regs))) (path_of s1)
               else Ret []) (\<lambda>fdPath. Ret (fdPath @ str))
      else Ret str) = Ret name"
    "openFile c name (arg32 c 2) (arg32 c 3) s1 = Ret (c', s')"
    unfolding do_openat_def a by (auto simp: bindO_Ret_iff)
  from g(3) assms(2) have "isWhitelisted name"
    by (auto simp: openFile_def handler_simps split: option.splits if_splits)
  then have "name \<in> set whitelist" by (auto simp: isWhitelisted_def list_ex_iff)
  moreover have "openat_name p regs s = Ret name"
    using g(1,2) by (auto simp: openat_name_def bindO_Ret_iff split: if_splits)
  ultimately show ?thesis ..
qed

section \<open>The policy holds\<close>

lemma allowed_permitted:
  assumes "chooses decide" "nr_verdict decide (orig_rax (regs_of T p)) (rdi (regs_of T p)) = Allow"
  shows "permitted T p s (regs_of T p)"
proof -
  let ?nr = "orig_rax (regs_of T p)"
  have "?nr \<notin> path_calls \<union> {257, 41, 49}" using nr_traced [OF assms(1), of ?nr "rdi (regs_of T p)"] assms(2) by auto
  moreover have "?nr \<noteq> 101" using fixed_verdicts(1) [OF assms(1)] assms(2) by auto
  moreover have "uint ?nr \<in> fst ` set syscall_numbers" using nr_in_table [of decide ?nr "rdi (regs_of T p)"] assms(2) by simp
  moreover have "\<not> isVirtualFD (ucast (rdi (regs_of T p)))" if "?nr \<in> descriptor_calls"
    using nr_descriptor [OF assms(1) that] assms(2) virtual_fd_bound [of "rdi (regs_of T p)"] by (auto split: if_splits)
  moreover have "\<exists>r. regs_of T p = (regs_of T p)\<lparr>rax := r\<rparr>" by (intro exI [of _ "rax (regs_of T p)"]) simp
  moreover have "uint ?nr = 101 \<Longrightarrow> ?nr = 101" by (simp add: word_uint_eq_iff)
  ultimately show ?thesis unfolding permitted_def Let_def by auto
qed

lemma traced_permitted:
  assumes "chooses decide" "fd_inv (vfs_of h)" "entered_main (box_of h)" "length (junk_path T) = 108"
    and "nr_verdict decide (orig_rax (regs_of T p)) (rdi (regs_of T p)) = Trace"
    and "program_call decide T p h = Ret (Executed regs', h')"
  shows "permitted T p (trapped h) regs'"
proof -
  let ?nr = "orig_rax (regs_of T p)" and ?c = "call_of_regs (junk_return T) p (regs_of T p)"
  from assms(6) [unfolded program_call_traced [OF assms(5,3)]] obtain v c1 c2 s where
    hd: "handled T p h c1 c2 s v"
    and f: "Executed regs' = (if sys_id c2 = -1 then Skipped (returnVal c2) else Executed (regs_of_call c2 (regs_of T p)))"
    by blast
  from f have id: "sys_id c2 \<noteq> -1" and regs': "regs' = regs_of_call c2 (regs_of T p)" by (simp_all split: if_splits)
  have n59: "?nr \<noteq> 59" and n101: "?nr \<noteq> 101" using fixed_verdicts [OF assms(1)] assms(5) by auto
  have table: "uint ?nr \<in> fst ` set syscall_numbers"
    using nr_in_table [of decide ?nr "rdi (regs_of T p)"] assms(5) by simp
  note cs = handled_cases [OF hd assms(2) n59]
  consider (socket) "?nr = 41" | (bind) "?nr = 49" | (other) "?nr \<noteq> 41" "?nr \<noteq> 49" by blast
  then show ?thesis
  proof cases
    case socket
    with table socket_regs [OF hd assms(2) socket id] show ?thesis
      by (auto simp: permitted_def Let_def regs' path_calls_def descriptor_calls_def)
  next
    case bind
    have "scratchAddr (sbox (trapped h)) = scratchAddr (box_of h)" by (simp add: trapped_def resetScratch_def)
    with bind table bind_regs [OF hd assms(2) bind id assms(4)] show ?thesis
      by (auto simp: permitted_def Let_def regs' path_calls_def descriptor_calls_def)
  next
    case other
    then have c1: "c1 = ?c" "s = trapped h" using cs(4) by blast+
    have v: "handleSyscall ?c (trapped h) = Ret (c2, v)" using cs(3) c1 by simp
    have "\<not> isVirtualFD (ucast (rdi (regs_of T p)))" if "?nr \<in> descriptor_calls"
      using fd_calls_blocked [OF _ _ v] id that by (auto simp: descriptor_calls_def)
    moreover have "\<exists>name \<in> set whitelist. \<exists>s'. getFilename p (rdi (regs_of T p)) (trapped h) = Ret (name, s')"
      if "?nr \<in> path_calls"
    proof -
      have "sys_id ?c \<in> {2, 21, 4, 6, 89}" using that by (auto simp: path_calls_def)
      from VfsFacts.path_calls [OF this v] cs(1) c1 id show ?thesis
        by (auto simp: isWhitelisted_def list_ex_iff split: if_splits)
    qed
    moreover have "\<exists>name \<in> set whitelist. openat_name p (regs_of T p) (trapped h) = Ret name" if "?nr = 257"
    proof -
      have "do_openat ?c (trapped h) = Ret (c2, v)" using v that by (simp add: handleSyscall_def)
      from openat_passed [OF this id refl] show ?thesis .
    qed
    moreover have "regs' = (regs_of T p)\<lparr>rax := returnVal c2\<rparr>"
      using regs_passed [of _ p] cs(2) c1(1) id regs' by blast
    moreover have "uint ?nr = 101 \<Longrightarrow> ?nr = 101" by (simp add: word_uint_eq_iff)
    ultimately show ?thesis using other table n101 unfolding permitted_def Let_def by auto
  qed
qed

lemma executed_permitted:
  assumes "chooses decide" "fd_inv (vfs_of h)" "entered_main (box_of h)" "length (junk_path T) = 108"
    and "program_call decide T p h = Ret (Executed regs', h')"
  shows "permitted T p (trapped h) regs'"
proof (cases "nr_verdict decide (orig_rax (regs_of T p)) (rdi (regs_of T p))")
  case Allow
  with assms(5) have "regs' = regs_of T p" by (simp add: program_call_def)
  with allowed_permitted [OF assms(1) Allow] show ?thesis by simp
next
  case Trace
  from traced_permitted [OF assms(1-4) Trace assms(5)] show ?thesis .
qed (use assms(5) in \<open>simp add: program_call_def\<close>)

section \<open>Calls stopped and not answered\<close>

definition unanswered_calls :: "string set" where
  "unanswered_calls =
     {''chdir'', ''getcwd'', ''fchdir'', ''readv'', ''writev'', ''getdents64'', ''fcntl'', ''connect'', ''uname'', ''getuid'', ''getgid'',
      ''setsockopt'', ''getsockname'', ''getsockopt''}"

lemma unanswered_passed:
  assumes "sys_id c \<notin> {0, 1, 2, 3, 4, 5, 6, 8, 21, 78, 89, 257}" "handleSyscall c s = Ret (c', s')"
  shows "sys_id c' = sys_id c"
  using assms by (auto simp: handleSyscall_def do_chdir_def do_getcwd_def handler_simps split: if_splits)

lemma kill_rules: "list_all (\<lambda>r. fst r = Kill \<longrightarrow> fst (snd r) = ''ptrace'') seccomp_rules"
  by code_simp

lemma not_killed:
  assumes "chooses decide" "x \<noteq> ''ptrace''" "verdict decide x a0 = Kill"
  shows "matching x a0 = []"
proof (rule ccontr)
  assume "matching x a0 \<noteq> []"
  with assms(1,3) have "Kill \<in> set (matching x a0)" by (auto simp: verdict_def chooses_def split: if_splits)
  then obtain c where "(Kill, x, c) \<in> set seccomp_rules" by (auto simp: in_matching)
  with kill_rules assms(2) show False by (auto simp: list_all_iff)
qed

lemma unanswered_numbers:
  assumes "map_of syscall_numbers (uint (nr :: u64)) = Some x" "x \<in> unanswered_calls"
  shows "nr \<notin> {0, 1, 2, 3, 4, 5, 6, 8, 21, 78, 89, 257} \<union> {41, 49, 59}"
proof
  assume "nr \<in> {0, 1, 2, 3, 4, 5, 6, 8, 21, 78, 89, 257} \<union> {41, 49, 59}"
  with assms(1) have "x \<in> {''read'', ''write'', ''open'', ''close'', ''stat'', ''fstat'', ''lstat'', ''lseek'', ''access'',
      ''getdents'', ''readlink'', ''openat'', ''socket'', ''bind'', ''execve''}"
    by (auto simp: named_calls)
  moreover have "x \<notin> {''read'', ''write'', ''open'', ''close'', ''stat'', ''fstat'', ''lstat'', ''lseek'', ''access'',
      ''getdents'', ''readlink'', ''openat'', ''socket'', ''bind'', ''execve''}"
    using assms(2) unfolding unanswered_calls_def by (elim insertE) simp_all
  ultimately show False by contradiction
qed

text \<open>None of them is killed: each is let through or stopped.\<close>

lemma unanswered_verdict:
  assumes "chooses decide" "map_of syscall_numbers (uint nr) = Some x" "x \<in> unanswered_calls"
  shows "nr_verdict decide nr a0 \<noteq> Kill"
proof
  assume "nr_verdict decide nr a0 = Kill"
  with assms(2) have k: "verdict decide x a0 = Kill" by (simp add: nr_verdict_def)
  have "x \<noteq> ''ptrace''" using assms(3) by (auto simp: unanswered_calls_def)
  from not_killed [OF assms(1) this k] have "matching x a0 = []" .
  moreover have "\<exists>a c. (a, x, c) \<in> set seccomp_rules \<and> holds c a0"
  proof (cases "x \<in> set vfs_filtered")
    case True
    then have "{(Trace, x, A0_GE 4096), (Allow, x, A0_LT 4096)} \<subseteq> set seccomp_rules"
      by (auto simp: seccomp_rules_def vfs_filter_def)
    then show ?thesis by (cases "4096 \<le> a0") fastforce+
  next
    case False
    with assms(3) have "x \<in> {''chdir'', ''fchdir'', ''getcwd''} \<or> x \<in> {''fcntl'', ''connect'', ''uname'', ''getuid'', ''getgid'',
        ''setsockopt'', ''getsockname'', ''getsockopt''}"
      by (auto simp: unanswered_calls_def vfs_filtered_def)
    then have "(Trace, x, Always) \<in> set rules_paths \<or> (Trace, x, Always) \<in> set rules_other"
      by (auto simp: rules_paths_def rules_other_def)
    with rules_in_table show ?thesis by (intro exI [of _ Trace] exI [of _ Always]) auto
  qed
  ultimately show False using in_matching by (metis empty_iff list.set(1))
qed

lemma unanswered_executed:
  assumes "chooses decide" "fd_inv (vfs_of h)" "entered_main (box_of h)"
    and "map_of syscall_numbers (uint (orig_rax (regs_of T p))) = Some x" "x \<in> unanswered_calls"
    and "program_call decide T p h = Ret (f, h')"
  shows "\<exists>r. f = Executed ((regs_of T p)\<lparr>rax := r\<rparr>)"
proof (cases "nr_verdict decide (orig_rax (regs_of T p)) (rdi (regs_of T p))")
  case Allow
  with assms(6) show ?thesis by (auto simp: program_call_def intro: exI [of _ "rax (regs_of T p)"])
next
  case Trace
  from assms(6) [unfolded program_call_traced [OF Trace assms(3)]] obtain v c1 c2 s where
    hd: "handled T p h c1 c2 s v"
    and f: "f = (if sys_id c2 = -1 then Skipped (returnVal c2) else Executed (regs_of_call c2 (regs_of T p)))"
    by blast
  note nr = unanswered_numbers [OF assms(4,5)]
  then have n59: "orig_rax (regs_of T p) \<noteq> 59" by simp
  note cs = handled_cases [OF hd assms(2) n59]
  from nr cs(4) have c1: "c1 = call_of_regs (junk_return T) p (regs_of T p)" by simp
  have id: "sys_id c2 = orig_rax (regs_of T p)"
    using unanswered_passed [OF _ cs(3)] nr c1 by simp
  have "orig_rax (regs_of T p) \<noteq> -1"
  proof
    assume m: "orig_rax (regs_of T p) = -1"
    have "map_of syscall_numbers (uint (-1 :: u64)) = None" by code_simp
    with assms(4) m show False by simp
  qed
  with f id regs_passed [of "junk_return T" p "regs_of T p" c2] cs(2) c1 show ?thesis by auto
qed (use unanswered_verdict [OF assms(1,4,5)] in simp)

section \<open>A name checked that is not the name used\<close>

lemma openat_passes_whitelisted:
  assumes "string_at (mem (sbox s) (call_pid c)) (arg c 1) name" "first_char name \<noteq> 0x2F" "arg c 0 = AT_FDCWD"
    and "cwd s = Some a" "m_path (files s ! a) @ name \<in> set whitelist"
  shows "do_openat c s = Ret (c, s\<lparr>sbox := (sbox s)\<lparr>errno := 0\<rparr>\<rparr>)"
proof -
  have "isWhitelisted (m_path (files s ! a) @ name)" using assms(5) by (auto simp: isWhitelisted_def list_ex_iff)
  with getFilename_string [OF assms(1)] assms(2-4) show ?thesis
    by (simp add: do_openat_def path_of_def openFile_def)
qed

lemma whitelist_absolute: "w \<in> set whitelist \<Longrightarrow> first_char w = 0x2F"
proof -
  have "list_all (\<lambda>w. first_char w = 0x2F) whitelist" by code_simp
  then show "w \<in> set whitelist \<Longrightarrow> first_char w = 0x2F" by (simp add: list_all_iff)
qed

text \<open>A child whose memory holds the name 6, with a working directory inside a library's name.\<close>

definition six_memory :: "u64 \<Rightarrow> byte option" where
  "six_memory = mem_write (\<lambda>_. None) 0x1000 (to_le 8 0x36)"

lemma six_string: "string_at six_memory 0x1000 [0x36]"
proof -
  have "mem_bytes six_memory 0x1000 8 = Some (to_le 8 0x36)"
    using mem_read_back [of "to_le 8 0x36" "\<lambda>_. None" "0x1000"] by (simp add: six_memory_def)
  also have "to_le 8 0x36 = [0x36] @ 0 # [0, 0, 0, 0, 0, 0]" by code_simp
  finally show ?thesis by (simp add: string_at_def)
qed

definition library_cwd :: "unit host" where
  "library_cwd = \<lparr>vfs_of = sample_vfs\<lparr>sbox := no_child\<lparr>mem := \<lambda>_. six_memory\<rparr>, cwd := Some 1,
      files := files sample_vfs @ [\<lparr>m_localFD = 4, m_virtualFD = 4097, m_path = ascii ''/lib64/libc.so.'', m_fs = sample_fs\<rparr>],
      nextFD := 4098\<rparr>, requests = []\<rparr>"

definition openat_six :: tracee where
  "openat_six = sample_tracee\<lparr>regs_of := \<lambda>_. sample_regs\<lparr>orig_rax := 257, rdi := AT_FDCWD, rsi := 0x1000, rdx := 0x42\<rparr>\<rparr>"

section \<open>Properties\<close>


definition fresh_host :: "unit host" where
  "fresh_host = \<lparr>vfs_of = mk_vfs no_child () [], requests = []\<rparr>"

lemma fresh_host_start: "reachable (vfs_of fresh_host)" "entered_main (box_of fresh_host)"
  by (simp_all add: fresh_host_def reachable.start box_of_def) (simp add: mk_vfs_def no_child_def)

definition socket_call :: tracee where
  "socket_call = sample_tracee\<lparr>regs_of := \<lambda>_. sample_regs\<lparr>orig_rax := 41, rdi := 2, rsi := 1\<rparr>\<rparr>"

lemma socket_executed:
  "\<exists>h'. program_call hd socket_call 7 fresh_host = Ret (Executed (sample_regs\<lparr>orig_rax := 41, rdi := AF_UNIX, rsi := 1\<rparr>), h')"
proof -
  let ?regs = "sample_regs\<lparr>orig_rax := 41, rdi := 2, rsi := 1\<rparr>"
  let ?c = "call_of_regs 0 7 ?regs"
  have v: "nr_verdict hd (orig_rax (regs_of socket_call 7)) (rdi (regs_of socket_call 7)) = Trace"
    by (simp add: nr_traced chooses_def socket_call_def)
  have e: "entered_main (box_of fresh_host)" by (rule fresh_host_start)
  have r: "regs_of socket_call 7 = ?regs" "junk_return socket_call = 0" by (simp_all add: socket_call_def sample_tracee_def)
  have "handleSeccompEvent socket_call 7 fresh_host =
      Ret (ask [Set_regs 7 (sample_regs\<lparr>orig_rax := 41, rdi := AF_UNIX, rsi := 1\<rparr>)] (set_box (resetScratch (box_of fresh_host)) fresh_host))"
    using e by (simp add: handleSeccompEvent_def Let_def r node_handleSyscall_def handleSyscall_def call_of_regs_def
        regs_of_call_def arg_def sample_regs_def set_box_def)
  then show ?thesis
    using v seccomp_stop_event
    by (simp add: program_call_def Let_def trap_step_def r fresh_host_def ask_def set_box_def)
qed


text \<open>
  C2. Through any history of the supervisor the VFS keeps its invariant, the process it traces
  stays the same, a program once entered stays entered with its scratch buffer in place, and no
  request made to the kernel is taken back.
\<close>

theorem supervisor_invariant:
  assumes "reachable (vfs_of h0)" "host_reach h0 h"
  shows "fd_inv (vfs_of h) \<and> sorted_wrt (<) (map fst (mounts (vfs_of h))) \<and>
    main_pid (box_of h) = main_pid (box_of h0) \<and>
    (entered_main (box_of h0) \<longrightarrow> entered_main (box_of h) \<and> scratchAddr (box_of h) = scratchAddr (box_of h0)) \<and>
    (\<exists>rs. requests h = requests h0 @ rs)"
  using host_reach_goes [OF assms(2)] assms(1) reachable_vfs_ok [of "vfs_of h"]
  by (auto simp: goes_to_def vfs_ok_def same_box_def)

theorem supervisor_invariant_witness:
  "\<exists>h. host_reach fresh_host h \<and> requests h = [On_signal 11, Cont 7 11] \<and> fd_inv (vfs_of h) \<and> entered_main (box_of h)"
proof -
  have "trap_step sample_tracee 7 0xB7F fresh_host = Ret (0xB7F, ask [On_signal 11, Cont 7 11] fresh_host)"
    by (simp add: trap_step_def WIFSTOPPED_def WSTOPSIG_def SIGTRAP_def)
  from host_reach.stop [OF host_reach.start this]
  have r: "host_reach fresh_host (ask [On_signal 11, Cont 7 11] fresh_host)" .
  moreover have "requests fresh_host = []" by (simp add: fresh_host_def)
  ultimately show ?thesis using supervisor_invariant [OF fresh_host_start(1) r] fresh_host_start(2) by auto
qed

text \<open>
  C23. Calls that are stopped but not answered: changing the working directory, asking for it, and
  a dozen others are executed by the kernel with the program's arguments, although the VFS keeps
  a working directory of its own, and although the descriptor may be virtual.
\<close>

theorem unanswered_calls_executed:
  assumes "chooses decide" "fd_inv (vfs_of h)" "entered_main (box_of h)"
    and "map_of syscall_numbers (uint (orig_rax (regs_of T p))) = Some x" "x \<in> unanswered_calls"
    and "program_call decide T p h = Ret (f, h')"
  shows "\<exists>r. f = Executed ((regs_of T p)\<lparr>rax := r\<rparr>)"
  using assms by (rule unanswered_executed)

text \<open>A \<open>readv\<close> on a virtual descriptor.\<close>

definition readv_call :: tracee where
  "readv_call = sample_tracee\<lparr>regs_of := \<lambda>_. sample_regs\<lparr>orig_rax := 19\<rparr>\<rparr>"

theorem unanswered_calls_executed_witness:
  "\<exists>f h' r. program_call hd readv_call 7 fresh_host = Ret (f, h') \<and> f = Executed ((regs_of readv_call 7)\<lparr>rax := r\<rparr>) \<and>
    rdi (regs_of readv_call 7) = 4096"
proof -
  let ?regs = "regs_of readv_call 7"
  have r: "?regs = sample_regs\<lparr>orig_rax := 19\<rparr>" "junk_return readv_call = 0"
    by (simp_all add: readv_call_def sample_tracee_def)
  have m: "map_of syscall_numbers (uint (orig_rax ?regs)) = Some ''readv''" unfolding r by code_simp
  have t: "nr_verdict hd (orig_rax ?regs) (rdi ?regs) = Trace"
    using verdict_filtered [of hd "''readv''" "rdi ?regs"] m
    by (simp add: nr_verdict_def chooses_def vfs_filtered_def r sample_regs_def)
  have e: "entered_main (box_of fresh_host)" by (rule fresh_host_start)
  have "handleSeccompEvent readv_call 7 fresh_host =
      Ret (ask [Set_regs 7 ?regs] (set_box (resetScratch (box_of fresh_host)) fresh_host))"
    using e by (simp add: handleSeccompEvent_def Let_def r node_handleSyscall_def handleSyscall_def call_of_regs_def
        regs_of_call_def arg_def sample_regs_def set_box_def)
  then obtain f h' where p: "program_call hd readv_call 7 fresh_host = Ret (f, h')"
    using t seccomp_stop_event by (simp add: program_call_def Let_def trap_step_def fresh_host_def ask_def set_box_def)
  from unanswered_calls_executed [OF _ _ e m _ p] reachable_vfs_ok [OF fresh_host_start(1)]
  obtain r where "f = Executed (?regs\<lparr>rax := r\<rparr>)" by (auto simp: chooses_def unanswered_calls_def vfs_ok_def)
  with p show ?thesis by (simp add: r sample_regs_def)
qed

text \<open>
  C22. The white list can be got around: of a relative path given to \<open>openat\<close> the name checked is
  the working directory of the VFS with the path behind it, while the kernel uses the path as it
  is, below the working directory it has for the process.
\<close>

theorem openat_hole:
  assumes "chooses decide" "entered_main (box_of h)" "orig_rax (regs_of T p) = 257" "rdi (regs_of T p) = AT_FDCWD"
    and "string_at (mem (box_of h) p) (rsi (regs_of T p)) name" "first_char name \<noteq> 0x2F"
    and "cwd (vfs_of h) = Some a" "m_path (files (vfs_of h) ! a) @ name \<in> set whitelist"
  shows "name \<notin> set whitelist \<and>
    (\<exists>h'. program_call decide T p h = Ret (Executed ((regs_of T p)\<lparr>rax := junk_return T\<rparr>), h'))"
proof
  show "name \<notin> set whitelist" using whitelist_absolute assms(6) by blast
  let ?c = "call_of_regs (junk_return T) p (regs_of T p)" and ?h = "set_box (resetScratch (box_of h)) h"
  have v: "nr_verdict decide (orig_rax (regs_of T p)) (rdi (regs_of T p)) = Trace"
    using nr_traced [OF assms(1)] assms(3) by simp
  have c: "call_pid ?c = p" "arg ?c 1 = rsi (regs_of T p)" "arg ?c 0 = AT_FDCWD" "sys_id ?c = 257"
    using assms(3,4) by (simp_all add: call_of_regs_def arg_def)
  have s: "mem (sbox (vfs_of ?h)) = mem (box_of h)" "cwd (vfs_of ?h) = Some a" "files (vfs_of ?h) = files (vfs_of h)"
    using assms(7) by (simp_all add: set_box_def resetScratch_def)
  from openat_passes_whitelisted [of "vfs_of ?h" ?c name a] assms(5,6,8) c s
  obtain v1 where o: "handleSyscall ?c (vfs_of ?h) = Ret (?c, v1)" by (simp add: handleSyscall_def)
  have n: "node_handleSyscall (junk_path T) ?c ?h = Ret (?c, ?h)" by (rule node_passes) (simp add: assms(3))
  define h1 where "h1 = ask [Set_regs p (regs_of_call ?c (regs_of T p))] (?h\<lparr>vfs_of := v1\<rparr>)"
  have "handleSeccompEvent T p h = Ret h1"
    using n o assms(2) by (simp add: handleSeccompEvent_def Let_def h1_def)
  moreover have "handled T p h ?c ?c (vfs_of ?h) (vfs_of h1)" using n o by (auto simp: handled_def h1_def)
  ultimately have "program_call decide T p h = Ret (Executed (regs_of_call ?c (regs_of T p)), ask [Cont p 0] h1)"
    unfolding program_call_traced [OF v assms(2)]
    by (intro exI [of _ h1] exI [of _ ?c] exI [of _ "vfs_of ?h"] conjI) (simp_all add: c assms(3))
  then show "\<exists>h'. program_call decide T p h = Ret (Executed ((regs_of T p)\<lparr>rax := junk_return T\<rparr>), h')"
    by (simp add: regs_back)
qed

theorem openat_hole_witness:
  "\<exists>h'. program_call hd openat_six 7 library_cwd = Ret (Executed ((regs_of openat_six 7)\<lparr>rax := 0\<rparr>), h')"
proof -
  have w: "ascii ''/lib64/libc.so.'' @ [0x36] \<in> set whitelist" by (simp add: whitelist_def ascii_def)
  have s: "string_at (mem (box_of library_cwd) 7) (rsi (regs_of openat_six 7)) [0x36]"
    using six_string by (simp add: library_cwd_def box_of_def openat_six_def sample_tracee_def)
  have "junk_return openat_six = 0" by (simp add: openat_six_def sample_tracee_def)
  with openat_hole [OF _ _ _ _ s, of hd 1] w show ?thesis
    by (simp add: chooses_def library_cwd_def box_of_def no_child_def openat_six_def first_char_def sample_vfs_def)
qed

text \<open>
  Such a working directory is there for the asking: below a mount at the root \<open>chdir\<close> takes any
  absolute path, whatever the file system says to opening it.
\<close>

lemma drop_ref_path:
  assumes "drop_ref p s = Ret s'"
  shows "cwd s' = cwd s \<and> m_path (files s' ! a) = m_path (files s ! a)"
proof -
  have "closes b s t \<Longrightarrow> cwd t = cwd s \<and> m_path (files t ! a) = m_path (files s ! a)" for b t
    by (cases "b = a"; cases "b < length (files s)") (auto simp: closes_def list_update_beyond)
  with assms show ?thesis
    by (auto simp: drop_ref_def bindO_Ret_iff split: option.splits if_splits dest!: file_close_closes)
qed

theorem chdir_unchecked:
  assumes "sys_id c = 80" "string_at (mem (sbox s) (call_pid c)) (arg c 0) d" "first_char d = 0x2F" "last d \<noteq> 0x2F"
    and "mounts s = [(ascii ''/'', Some f)]" "handleSyscall c s = Ret (c', s')"
  shows "c' = c\<lparr>returnVal := 0\<rparr> \<and> getCWD s' = Ret d"
proof -
  have ne: "d \<noteq> []" using assms(3) by (auto simp: first_char_def)
  then obtain ds where ds: "d = 0x2F # ds" using assms(3) by (cases d) (auto simp: first_char_def)
  let ?s = "s\<lparr>sbox := (sbox s)\<lparr>errno := 0\<rparr>\<rparr>"
  have g: "getFilesystem ?s d = Ret (d, Some f)"
    using assms(5) by (simp add: getFilesystem_def first_char_def ds ascii_def)
  from assms(1,6) getFilename_string [OF assms(2)] obtain r where
    r: "setCWD d ?s = Ret (r, s')" "c' = c\<lparr>returnVal := scast r\<rparr>"
    by (auto simp: handleSyscall_def do_chdir_def bindO_Ret_iff)
  from r(1) g ne assms(4) obtain fd s1 where s1: "r = 0"
    "drop_ref (cwd (snd (new_file fd d f s1))) ((snd (new_file fd d f s1))\<lparr>cwd := Some (fst (new_file fd d f s1))\<rparr>) = Ret s'"
    by (auto simp: setCWD_def handler_simps)
  from drop_ref_path [OF s1(2)] have "cwd s' = Some (length (files s1))" "m_path (files s' ! length (files s1)) = d"
    by (simp_all add: new_file_def)
  with r(2) s1(1) show ?thesis by (simp add: getCWD_def path_of_def)
qed

definition library_memory :: "u64 \<Rightarrow> byte option" where
  "library_memory = mem_write (\<lambda>_. None) 0x1000 (ascii ''/lib64/libc.so.'' @ [0])"

theorem chdir_unchecked_witness:
  "\<exists>s'. handleSyscall (sample_call 80 0x1000) (sample_vfs\<lparr>sbox := no_child\<lparr>mem := \<lambda>_. library_memory\<rparr>\<rparr>) =
      Ret (sample_call 80 0x1000, s') \<and> getCWD s' = Ret (ascii ''/lib64/libc.so.'')"
proof -
  let ?s = "sample_vfs\<lparr>sbox := no_child\<lparr>mem := \<lambda>_. library_memory\<rparr>\<rparr>" and ?c = "sample_call 80 0x1000"
  let ?d = "ascii ''/lib64/libc.so.''"
  have l: "length ?d = 15" by (simp add: ascii_def)
  have "mem_bytes library_memory 0x1000 16 = Some (?d @ [0])"
    using mem_read_back [of "?d @ [0]" "\<lambda>_. None" "0x1000"] l by (simp add: library_memory_def)
  then have m: "string_at (mem (sbox ?s) (call_pid ?c)) (arg ?c 0) ?d"
    using l by (auto simp: string_at_def sample_call_def arg_def ascii_def)
  have d: "first_char ?d = 0x2F" "last ?d \<noteq> 0x2F" "mounts ?s = [(ascii ''/'', Some sample_fs)]"
    by (simp_all add: first_char_def ascii_def sample_vfs_def)
  obtain s' where "handleSyscall ?c ?s = Ret (?c, s')"
    using getFilename_string [OF m]
    by (simp add: handleSyscall_def do_chdir_def sample_call_def arg_def setCWD_def getFilesystem_def first_char_def ascii_def
        sample_vfs_def in_world_def sample_fs_def new_file_def drop_ref_def Let_def)
  with chdir_unchecked [OF _ m d this] show ?thesis by (auto simp: sample_call_def)
qed

text \<open>
  A \<open>bind\<close> of another process than the main one: the address of the socket is written into
  the memory of the main process, and nothing into that of the caller, which is made to use it.
\<close>

theorem bind_of_other_process:
  assumes "sys_id c = 49" "call_pid c \<noteq> main_pid (box_of h)" "node_handleSyscall j c h = Ret (c', h')" "length (args c) = 6"
  shows "mem (box_of h') (call_pid c) = mem (box_of h) (call_pid c) \<and> arg c' 1 = nextScratchSegment (box_of h)"
proof -
  let ?a = "sockaddr_un j (main_pid (box_of h)) (arg32 c 0)"
  from assms(1,3) obtain a b where w: "writeScratch (box_of h) (length ?a) ?a = Ret (a, b)"
    "c' = c\<lparr>args := (args c)[1 := a, 2 := of_nat (length ?a)]\<rparr>" "box_of h' = b"
    by (auto simp: node_handleSyscall_def Let_def bindO_Ret_iff)
  from w(1) obtain r b1 where b1: "writeData (box_of h) (main_pid (box_of h)) (nextScratchSegment (box_of h)) (length ?a) ?a = Ret (r, b1)"
    "a = nextScratchSegment (box_of h)" "mem b = mem b1"
    by (auto simp: writeScratch_def bindO_Ret_iff Let_def)
  from writeData_other [OF b1(1), of "call_pid c"] assms(2) b1(2,3) w(2,3) assms(4) show ?thesis by (simp add: arg_def)
qed

theorem bind_of_other_process_witness:
  "\<exists>c' h'. node_handleSyscall (replicate 108 0) ((sample_call 49 3)\<lparr>call_pid := 8\<rparr>)
      (sample_host\<lparr>vfs_of := sample_vfs\<lparr>sbox := bind_child\<rparr>\<rparr>) = Ret (c', h') \<and>
    mem (box_of h') 8 = (\<lambda>_. Some 0) \<and> arg c' 1 = 0x1000"
proof -
  let ?h = "sample_host\<lparr>vfs_of := sample_vfs\<lparr>sbox := bind_child\<rparr>\<rparr>" and ?c = "(sample_call 49 3)\<lparr>call_pid := 8\<rparr>"
  have h: "mem (box_of ?h) = (\<lambda>_ _. Some 0)" "main_pid (box_of ?h) = 7" "nextScratchSegment (box_of ?h) = 0x1000"
    by (simp_all add: box_of_def bind_child_def no_child_def)
  have c: "sys_id ?c = 49" "length (args ?c) = 6" "call_pid ?c \<noteq> main_pid (box_of ?h)"
    using h(2) by (simp_all add: sample_call_def)
  have m: "mapped (mem (box_of ?h) (main_pid (box_of ?h))) (nextScratchSegment (box_of ?h)) 112"
    by (simp add: h mapped_def)
  have u: "unat (nextScratchSegment (box_of ?h)) + 128 \<le> 2 ^ 64" by (simp add: h)
  from bind_redirects [OF c(1) _ c(2) m u, of "replicate 108 0"]
  obtain c' h' where r: "node_handleSyscall (replicate 108 0) ?c ?h = Ret (c', h')" by auto
  from bind_of_other_process [OF c(1,3) r c(2)] h r show ?thesis by auto
qed

end
