(* ===== verification/Nested.thy ===== *)
theory Nested
  imports NodeModule VfsFacts
begin

text \<open>
  While a call of the file system waits for the script, \<open>doVFS\<close> of src/node-filesystem.cpp runs the
  loop of the process, and the loop handles the stops of the other threads of the program: calls
  nest. This theory has the calls that wait as a stack, and \<open>File::close\<close> with the calls that are
  handled while it waits.
\<close>

section \<open>Waiting calls\<close>

text \<open>
  The promises made, the calls that wait for theirs, the innermost first, and the values returned,
  the latest first. Inside any of the nested loops a further call may begin and the script may
  answer any call; only the innermost loop looks at its promise.
\<close>

record 'v waits =
  made :: "'v promises"
  pending :: "nat list"
  returned :: "(nat \<times> 'v) list"

definition no_waits :: "'v waits" where
  "no_waits = \<lparr>made = [], pending = [], returned = []\<rparr>"

definition begin_call :: "'v waits \<Rightarrow> 'v waits" where
  "begin_call s = (let (cookie, ps) = make_promise (made s) in s\<lparr>made := ps, pending := cookie # pending s\<rparr>)"

inductive wait_step :: "'v waits \<Rightarrow> 'v waits \<Rightarrow> bool" where
  call: "wait_step s (begin_call s)"
| answer: "node_finish_vfs cookie v (made s) = Ret ps \<Longrightarrow> wait_step s (s\<lparr>made := ps\<rparr>)"
| return: "pending s = cookie # cs \<Longrightarrow> made s ! cookie = Some v \<Longrightarrow>
    wait_step s (s\<lparr>pending := cs, returned := (cookie, v) # returned s\<rparr>)"

inductive_cases wait_stepE: "wait_step s s'"

inductive waits_to :: "'v waits \<Rightarrow> 'v waits \<Rightarrow> bool" for s0 where
  start: "waits_to s0 s0"
| step: "waits_to s0 s \<Longrightarrow> wait_step s s' \<Longrightarrow> waits_to s0 s'"

text \<open>The value of a promise, once set, stays; a promise is never taken back.\<close>

lemma finish_keeps:
  assumes "node_finish_vfs k v ps = Ret ps'"
  shows "length ps' = length ps" "i < length ps \<Longrightarrow> ps ! i = Some x \<Longrightarrow> ps' ! i = Some x"
  using assms by (auto simp: node_finish_vfs_def nth_list_update split: if_splits)

definition waits_inv :: "'v waits \<Rightarrow> bool" where
  "waits_inv s \<longleftrightarrow>
     sorted_wrt (>) (pending s) \<and>
     set (pending s) \<union> fst ` set (returned s) = {..<length (made s)} \<and>
     set (pending s) \<inter> fst ` set (returned s) = {} \<and>
     distinct (map fst (returned s)) \<and>
     (\<forall>(k, v) \<in> set (returned s). made s ! k = Some v)"

lemma waits_inv_start: "waits_inv no_waits"
  by (simp add: waits_inv_def no_waits_def)

lemma waits_inv_bound: "waits_inv s \<Longrightarrow> k \<in> set (pending s) \<or> k \<in> fst ` set (returned s) \<Longrightarrow> k < length (made s)"
  unfolding waits_inv_def by blast

lemma waits_inv_step:
  assumes "wait_step s s'" "waits_inv s"
  shows "waits_inv s'"
  using assms(1)
proof cases
  case call
  have b: "\<forall>k \<in> set (pending s) \<union> fst ` set (returned s). k < length (made s)"
    using waits_inv_bound [OF assms(2)] by blast
  have "(made s @ [None]) ! k = Some v" if "(k, v) \<in> set (returned s)" for k v
  proof -
    have "k < length (made s)" using b that by force
    moreover have "made s ! k = Some v" using assms(2) that by (auto simp: waits_inv_def)
    ultimately show ?thesis by (simp add: nth_append)
  qed
  with b assms(2) show ?thesis
    unfolding waits_inv_def call begin_call_def make_promise_def by (auto simp: lessThan_Suc)
next
  case (answer cookie v ps)
  have "made s ! k = Some x \<Longrightarrow> (k, x) \<in> set (returned s) \<Longrightarrow> ps ! k = Some x" for k x
    using finish_keeps(2) [OF answer(2), of k] waits_inv_bound [OF assms(2), of k] by force
  with assms(2) finish_keeps(1) [OF answer(2)] show ?thesis
    unfolding waits_inv_def answer by auto
next
  case (return cookie cs v)
  then have "cookie \<notin> set cs" "cookie \<notin> fst ` set (returned s)"
    using assms(2) by (auto simp: waits_inv_def)
  with assms(2) return show ?thesis
    unfolding waits_inv_def return(1) by (auto simp: image_iff)
qed

lemma waits_to_inv: "waits_to s0 s \<Longrightarrow> waits_inv s0 \<Longrightarrow> waits_inv s"
  by (induction rule: waits_to.induct) (auto dest: waits_inv_step)

text \<open>As long as the innermost call is not answered, it and those around it go on waiting.\<close>

lemma blocked_step:
  assumes "wait_step s s'" "waits_inv s" "pending s = ds @ c # cs" "made s' ! c = None"
  shows "\<exists>ds'. pending s' = ds' @ c # cs"
  using assms(1)
proof cases
  case call
  with assms(3) show ?thesis by (auto simp: begin_call_def make_promise_def)
next
  case (return k ks v)
  show ?thesis
  proof (cases ds)
    case Nil
    with return assms(3,4) show ?thesis by simp
  qed (use return assms(3) in auto)
qed (use assms(3) in auto)

lemma unanswered_before:
  assumes "wait_step s s'" "c < length (made s)" "made s' ! c = None"
  shows "made s ! c = None"
  using assms(1)
proof cases
  case (answer k v ps)
  with finish_keeps(2) [OF answer(2) assms(2)] assms(3) show ?thesis by (cases "made s ! c") auto
qed (use assms in \<open>auto simp: begin_call_def make_promise_def nth_append\<close>)

lemma blocked_run:
  "waits_to s s' \<Longrightarrow> waits_inv s \<Longrightarrow> pending s = c # cs \<Longrightarrow> made s' ! c = None \<Longrightarrow> \<exists>ds. pending s' = ds @ c # cs"
proof (induction rule: waits_to.induct)
  case (step t t')
  have "waits_inv t" using waits_to_inv [OF step.hyps(1) step.prems(1)] .
  have "length (made s) \<le> length (made t)" using step.hyps(1)
    by (induction rule: waits_to.induct)
      (auto elim!: wait_step.cases simp: begin_call_def make_promise_def finish_keeps(1))
  moreover have "c < length (made s)" using waits_inv_bound [OF step.prems(1)] step.prems(2) by simp
  ultimately have c: "c < length (made t)" by simp
  from step.IH [OF step.prems(1,2) unanswered_before [OF step.hyps(2) c step.prems(3)]]
  obtain ds where "pending t = ds @ c # cs" by blast
  from blocked_step [OF step.hyps(2) \<open>waits_inv t\<close> this step.prems(3)] show ?case .
qed simp

text \<open>When every waiting call is answered they return one after the other.\<close>

lemma all_return:
  assumes "\<forall>c \<in> set (pending s). made s ! c \<noteq> None"
  shows "\<exists>s'. waits_to s s' \<and> pending s' = [] \<and> made s' = made s \<and>
    returned s' = rev (map (\<lambda>c. (c, the (made s ! c))) (pending s)) @ returned s"
  using assms
proof (induction "pending s" arbitrary: s)
  case Nil
  then show ?case by (intro exI [of _ s]) (simp add: waits_to.start)
next
  case (Cons c cs)
  let ?t = "s\<lparr>pending := cs, returned := (c, the (made s ! c)) # returned s\<rparr>"
  have p: "pending s = c # cs" using Cons.hyps(2) by simp
  have st: "wait_step s ?t" by (rule wait_step.return [OF p]) (use Cons.prems p in auto)
  have "\<forall>k \<in> set (pending ?t). made ?t ! k \<noteq> None" using Cons.prems p by simp
  from Cons.hyps(1) [OF _ this] obtain u where u: "waits_to ?t u" "pending u = []" "made u = made s"
    "returned u = rev (map (\<lambda>c. (c, the (made s ! c))) cs) @ (c, the (made s ! c)) # returned s" by auto
  have "waits_to s v" if "waits_to ?t v" for v
    using that by (induction rule: waits_to.induct) (auto intro: waits_to.intros st)
  with u p show ?case by (intro exI [of _ u]) simp
qed

section \<open>Closing with calls in between\<close>

text \<open>
  \<open>File::close\<close> looks at \<open>m_localFD\<close> before the file system's close, and sets it after: \<open>cs\<close> are
  the calls of other threads that are handled in between.
\<close>

definition file_close_during :: "SyscallCall list \<Rightarrow> nat \<Rightarrow> 'w vfs \<Rightarrow> (u32 \<times> 'w vfs) outcome" where
  "file_close_during cs a s =
     (let f = files s ! a in
      if 0 <s m_localFD f then
        bindO (in_world (fs_close (m_fs f) (m_localFD f)) s) (\<lambda>(ret, s).
        bindO (run handleSyscall cs s) (\<lambda>(_, s).
        Ret (ret, s\<lparr>files := (files s)[a := (files s ! a)\<lparr>m_localFD := -1\<rparr>]\<rparr>)))
      else Ret (- EBADF, s))"

definition do_close_during :: "SyscallCall list \<Rightarrow> 'w handler" where
  "do_close_during cs c s =
     (if isVirtualFD (arg32 c 0) then
        let c = c\<lparr>sys_id := -1\<rparr> in
        bindO (getFile s (arg32 c 0)) (\<lambda>p.
        case p of
          None \<Rightarrow> done_with c (neg EBADF) s
        | Some a \<Rightarrow>
            bindO (file_close_during cs a s) (\<lambda>(r, s).
            let s = s\<lparr>openFiles := (openFiles s)(m_virtualFD (files s ! a) := None)\<rparr> in
            bindO (drop_ref (Some a) s) (\<lambda>s. done_with c (scast r) s)))
      else Ret (c, s))"

text \<open>With nothing in between it is the handler as it was.\<close>

lemma file_close_during_Nil: "file_close_during [] a s = file_close a s"
  by (cases "fs_close (m_fs (files s ! a)) (m_localFD (files s ! a)) (errno (sbox s), world s)")
    (auto simp: file_close_during_def file_close_def in_world_def Let_def bindO_assoc)

lemma do_close_during_Nil: "do_close_during [] = do_close"
  by (intro ext) (simp add: do_close_during_def do_close_def file_close_during_Nil)

lemma run_length:
  "run handleSyscall cs s = Ret (cs', s') \<Longrightarrow> fd_inv s \<Longrightarrow> length (files s) \<le> length (files s')"
proof (induction cs arbitrary: s cs')
  case (Cons c cs)
  from Cons.prems(1) obtain c1 s1 cs1 where r: "handleSyscall c s = Ret (c1, s1)" "run handleSyscall cs s1 = Ret (cs1, s')"
    by (auto simp: bindO_Ret_iff)
  from vfs_calls.inv [OF r(1) Cons.prems(2)] Cons.IH [OF r(2)] show ?case by simp
qed simp

lemma file_close_during_inv:
  assumes "file_close_during cs a s = Ret (r, s')" "fd_inv s"
  shows "fd_inv s' \<and> mounts s' = mounts s \<and> length (files s) \<le> length (files s')"
proof (cases "0 <s m_localFD (files s ! a)")
  case True
  with assms(1) obtain s1 cs' s2 where s1: "in_world (fs_close (m_fs (files s ! a)) (m_localFD (files s ! a))) s = Ret (r, s1)"
    "run handleSyscall cs s1 = Ret (cs', s2)" "s' = s2\<lparr>files := (files s2)[a := (files s2 ! a)\<lparr>m_localFD := -1\<rparr>]\<rparr>"
    by (auto simp: file_close_during_def Let_def bindO_Ret_iff)
  have k: "fd_inv s1" "mounts s1 = mounts s" "length (files s) \<le> length (files s1)"
    using in_world_keeps [OF s1(1)] assms(2) by (simp_all add: keeps_def)
  have len: "length (files s1) \<le> length (files s2)" using run_length [OF s1(2) k(1)] .
  from vfs_calls.run_inv [OF s1(2) k(1)] have r2: "fd_inv s2" "mounts s2 = mounts s1" by simp_all
  have "closes a s2 s'" unfolding closes_def s1(3)
    by (intro disjI2 exI [of _ "sbox s2"] exI [of _ "world s2"]) simp
  with closes_inv [OF this r2(1)] closes_fields [OF this] k r2 len show ?thesis by simp
qed (use assms in \<open>simp add: file_close_during_def\<close>)

lemma close_during_keeps:
  assumes "do_close_during cs c s = Ret (c', s')" "fd_inv s" "isVirtualFD (arg32 c 0)"
  shows "fd_inv s' \<and> mounts s' = mounts s"
proof -
  let ?k = "arg32 c 0"
  from assms obtain p where p: "getFile s ?k = Ret p" by (auto simp: do_close_during_def Let_def bindO_Ret_iff)
  from getFile_Ret [OF this assms(2)] obtain a where a: "a < length (files s)" "p = Some a" by blast
  with assms p obtain r s1 where c: "file_close_during cs a s = Ret (r, s1)"
    by (auto simp: do_close_during_def Let_def bindO_Ret_iff)
  note inv1 = file_close_during_inv [OF c assms(2)]
  let ?s = "s1\<lparr>openFiles := (openFiles s1)(m_virtualFD (files s1 ! a) := None)\<rparr>"
  from assms p a c have d: "drop_ref (Some a) ?s = Ret s'" by (auto simp: do_close_during_def Let_def bindO_Ret_iff)
  have "fd_inv ?s" using inv1 by (auto simp: fd_inv_def)
  moreover have "keeps ?s s'" using drop_ref_keeps [OF d] a inv1 by simp
  ultimately show ?thesis using inv1 by (simp add: keeps_def)
qed

section \<open>A file closed twice\<close>

text \<open>A close of a file whose local descriptor is gone does nothing.\<close>

lemma file_close_gone: "\<not> 0 <s m_localFD (files s ! a) \<Longrightarrow> file_close a s = Ret (- EBADF, s)"
  by (simp add: file_close_def Let_def)

lemma drop_ref_gone: "\<not> 0 <s m_localFD (files s ! a) \<Longrightarrow> drop_ref (Some a) s = Ret s"
  by (simp add: drop_ref_def file_close_gone)

lemma minus_one_gone [simp]: "\<not> 0 <s (-1 :: u32)"
  by (simp add: word_sless_alt)

text \<open>What a close leaves of the state, when the file system's close returns.\<close>

lemma do_close_step:
  assumes "isVirtualFD (arg32 c 0)" "openFiles s (arg32 c 0) = Some (Some a)" "fd_inv s" "a < length (files s)"
    and "0 <s m_localFD (files s ! a)"
    and "fs_close (m_fs (files s ! a)) (m_localFD (files s ! a)) (errno (sbox s), world s) = Ret (r, e, w)"
  shows "do_close c s = Ret (c\<lparr>sys_id := -1, returnVal := scast r\<rparr>,
    s\<lparr>sbox := (sbox s)\<lparr>errno := e\<rparr>, world := w, files := (files s)[a := (files s ! a)\<lparr>m_localFD := -1\<rparr>],
      openFiles := (openFiles s)(m_virtualFD (files s ! a) := None)\<rparr>)"
  using assms(1,2,4-6)
  by (simp add: do_close_def getFile_def file_close_def in_world_def Let_def drop_ref_gone)

lemma close_in_between:
  assumes "isVirtualFD (arg32 c 0)" "openFiles s (arg32 c 0) = Some (Some a)" "fd_inv s" "a < length (files s)"
    and "0 <s m_localFD (files s ! a)" "sys_id c2 = 3" "arg32 c2 0 = arg32 c 0"
    and "fs_close (m_fs (files s ! a)) (m_localFD (files s ! a)) (errno (sbox s), world s) = Ret (r, e, w)"
    and "fs_close (m_fs (files s ! a)) (m_localFD (files s ! a)) (e, w) = Ret (r2, e2, w2)"
  shows "\<exists>s'. do_close_during [c2] c s = Ret (c\<lparr>sys_id := -1, returnVal := scast r\<rparr>, s') \<and> world s' = w2"
proof -
  let ?s = "s\<lparr>sbox := (sbox s)\<lparr>errno := e\<rparr>, world := w\<rparr>"
  have "fd_inv ?s" using assms(3) by (simp add: fd_inv_def)
  from do_close_step [of c2 ?s a r2 e2 w2] this assms(1,2,4,5,7,9) obtain c3 t where
    t: "do_close c2 ?s = Ret (c3, t)" "world t = w2" "length (files t) = length (files s)" by simp
  have "handleSyscall c2 ?s = Ret (c3, t)" using t(1) assms(6) by (simp add: handleSyscall_def)
  then have f: "file_close_during [c2] a s = Ret (r, t\<lparr>files := (files t)[a := (files t ! a)\<lparr>m_localFD := -1\<rparr>]\<rparr>)"
    using assms(5,8) by (simp add: file_close_during_def in_world_def Let_def)
  have "a < length (files t)" using assms(4) t(3) by simp
  with f t(2) assms(1,2) show ?thesis
    by (simp add: do_close_during_def getFile_def Let_def drop_ref_gone)
qed

lemma close_after_close:
  assumes "isVirtualFD (arg32 c 0)" "openFiles s (arg32 c 0) = Some (Some a)" "fd_inv s" "a < length (files s)"
    and "0 <s m_localFD (files s ! a)" "sys_id c2 = 3" "arg32 c2 0 = arg32 c 0"
    and "fs_close (m_fs (files s ! a)) (m_localFD (files s ! a)) (errno (sbox s), world s) = Ret (r, e, w)"
  shows "bindO (do_close c s) (\<lambda>(_, s). handleSyscall c2 s) = Fault Cxx_exception"
proof -
  have v: "m_virtualFD (files s ! a) = arg32 c 0"
    using getFile_Ret [of s "arg32 c 0" "Some a"] assms(1-4) by (auto simp: getFile_def fd_inv_def)
  show ?thesis
    using assms(1,6,7) unfolding do_close_step [OF assms(1-5,8)]
    by (simp add: handleSyscall_def do_close_def getFile_def v)
qed

section \<open>Properties\<close>



text \<open>
  C24. Two threads that close the same descriptor: when the second call is handled while the first
  waits for the script, the file system is told to close the same file twice, where one call
  after the other would have made the second throw.
\<close>

theorem nested_close_closes_twice:
  assumes "fd_inv s" "isVirtualFD (arg32 c 0)" "openFiles s (arg32 c 0) = Some (Some a)"
    and "0 <s m_localFD (files s ! a)" "sys_id c2 = 3" "arg32 c2 0 = arg32 c 0"
    and "fs_close (m_fs (files s ! a)) (m_localFD (files s ! a)) (errno (sbox s), world s) = Ret (r, e, w)"
    and "fs_close (m_fs (files s ! a)) (m_localFD (files s ! a)) (e, w) = Ret (r2, e2, w2)"
  shows "(\<exists>s'. do_close_during [c2] c s = Ret (c\<lparr>sys_id := -1, returnVal := scast r\<rparr>, s') \<and> world s' = w2) \<and>
    bindO (do_close c s) (\<lambda>(_, s). handleSyscall c2 s) = Fault Cxx_exception"
proof -
  have a: "a < length (files s)" using assms(1,3) by (auto simp: fd_inv_def)
  show ?thesis
    using close_in_between [OF assms(2,3,1) a assms(4-8)] close_after_close [OF assms(2,3,1) a assms(4-7)] by simp
qed

text \<open>A file system that counts the closes of each of its descriptors.\<close>

definition counting_fs :: "(u32 \<Rightarrow> nat) filesystem" where
  "counting_fs = \<lparr>fs_open = \<lambda>_ _ _ os. Ret (3, os), fs_read = \<lambda>_ buf os. Ret ((0, buf), os),
     fs_close = \<lambda>fd (e, w). Ret (0, e, w(fd := w fd + 1)), fs_fstat = \<lambda>_ buf os. Ret ((0, buf), os),
     fs_getdents = \<lambda>_ buf _ os. Ret ((0, buf), os), fs_lseek = \<lambda>_ _ _ os. Ret (0, os),
     fs_write = \<lambda>_ buf os. Ret (of_nat (length buf), os), fs_access = \<lambda>_ _ os. Ret (0, os),
     fs_stat = \<lambda>_ buf os. Ret ((0, buf), os), fs_lstat = \<lambda>_ buf os. Ret ((0, buf), os),
     fs_readlink = \<lambda>_ buf os. Ret ((0, buf), os)\<rparr>"

definition counting_vfs :: "(u32 \<Rightarrow> nat) vfs" where
  "counting_vfs = \<lparr>sbox = no_child, world = \<lambda>_. 0, files = [\<lparr>m_localFD = 3, m_virtualFD = 4096, m_path = [], m_fs = counting_fs\<rparr>],
     openFiles = \<lambda>k. if k = 4096 then Some (Some 0) else None, cwd = None, mounts = [], nextFD = 4097, stat_junk = []\<rparr>"

theorem nested_close_closes_twice_witness:
  "\<exists>c' s'. do_close_during [sample_call 3 4096] (sample_call 3 4096) counting_vfs = Ret (c', s') \<and> world s' 3 = 2"
proof -
  let ?c = "sample_call 3 4096" and ?s = counting_vfs
  have c: "arg32 ?c 0 = 4096" "sys_id ?c = 3" by (simp_all add: sample_call_def arg32_def arg_def)
  have i: "fd_inv ?s" by (auto simp: fd_inv_def counting_vfs_def fd_of_def)
  have v: "isVirtualFD (arg32 ?c 0)" using sample_virtual(1) c by simp
  have o: "openFiles ?s (arg32 ?c 0) = Some (Some 0)" "0 <s m_localFD (files ?s ! 0)"
    using c by (simp_all add: counting_vfs_def word_sless_alt)
  have f: "fs_close (m_fs (files ?s ! 0)) (m_localFD (files ?s ! 0)) (errno (sbox ?s), world ?s) = Ret (0, 0, (\<lambda>_. 0)(3 := 1))"
    "fs_close (m_fs (files ?s ! 0)) (m_localFD (files ?s ! 0)) (0, (\<lambda>_. 0)(3 := 1)) = Ret (0, 0, (\<lambda>_. 0)(3 := 2))"
    by (simp_all add: counting_vfs_def counting_fs_def no_child_def numeral_eq_Suc)
  obtain s' where "do_close_during [?c] ?c ?s = Ret (?c\<lparr>sys_id := -1, returnVal := scast (0 :: u32)\<rparr>, s')"
    "world s' = (\<lambda>_. 0)(3 := 2)"
    using nested_close_closes_twice [OF i v o c(2) refl f] by blast
  then show ?thesis by auto
qed

end
