(* ===== verification/NestedRead.thy ===== *)
theory NestedRead
  imports FilesystemsFacts
begin

text \<open>
  \<open>CodiusNodeFilesystem::read\<close> with what the event loop handles while it waits for the script: the
  position is looked up before the script is asked, and again after it has answered.
\<close>

definition node_read_during :: "('w node_os \<Rightarrow> ('b \<times> 'w node_os) outcome) \<Rightarrow>
    ('v, 'w) engine \<Rightarrow> u32 \<Rightarrow> byte list \<Rightarrow> 'w node_os \<Rightarrow> (((u64 \<times> byte list) \<times> 'b) \<times> 'w node_os) outcome" where
  "node_read_during inner E fd buf os =
     (let (off, os) = offset fd os;
          ((errnum, result), os) = doVFS E ''read'' [JInt fd, JInt (of_nat (length buf)), JInt off] os in
      bindO (inner os) (\<lambda>(x, os).
      if errnum \<noteq> 0 then Ret (((scast (- errnum), buf), x), os)
      else
        bindO (store_at buf 0 (write_utf8 E result (length buf))) (\<lambda>buf.
        let (off, os) = offset fd os; n = of_nat (length (utf8 E result)) :: u32 in
        Ret (((scast n, buf), x), set_offset fd (off + n) os))))"

text \<open>With nothing in between it is the read as it was.\<close>

lemma node_read_during_nothing:
  "node_read_during (\<lambda>os. Ret ((), os)) E fd buf os = bindO (node_read E fd buf os) (\<lambda>(r, os). Ret ((r, ()), os))"
  by (simp add: node_read_during_def node_read_def bindO_assoc case_prod_beta Let_def)

section \<open>Properties\<close>

text \<open>
  C25. Two threads that read from one file of the script, the second call handled while the first
  waits: both get the bytes at the same position, which then moves on by both lengths, so that
  as many bytes behind them are read by nobody.
\<close>

theorem overlapping_reads:
  assumes "serves E content" "unat (position fd os) = p" "p \<le> length content" "length content < 2 ^ 31" "n < 2 ^ 31" "m < 2 ^ 31"
    and "bs = take n (drop p content)" "bs2 = take m (drop p content)"
  shows "\<exists>r buf r2 buf2 os'.
    node_read_during (node_read E fd (replicate m 0)) E fd (replicate n 0) os = Ret (((r, buf), r2, buf2), os') \<and>
    take (unat r) buf = bs \<and> take (unat r2) buf2 = bs2 \<and> unat (position fd os') = p + length bs + length bs2"
proof -
  obtain v os1 where v: "read_answer E fd n os = ((0, v), os1)" "utf8 E v = bs"
    "\<And>k. write_utf8 E v k = take k (utf8 E v)" "position fd os1 = position fd os"
    using read_answer_serves [OF assms(1,2,5)] unfolding assms(7) by blast
  have len: "length bs \<le> n" "p + length bs < 2 ^ 31" "p + length bs2 < 2 ^ 31" using assms(3-8) by auto
  from node_read_serves [OF assms(1) _ assms(3,4,6), of fd os1] v(4) assms(2,8) obtain r2 buf2 os2 where
    r2: "node_read E fd (replicate m 0) os1 = Ret ((r2, buf2), os2)" "take (unat r2) buf2 = bs2"
    "unat (position fd os2) = p + length bs2" by auto
  have "node_read_during (node_read E fd (replicate m 0)) E fd (replicate n 0) os =
      Ret (((scast (of_nat (length bs) :: u32), bs @ drop (length bs) (replicate n 0)), r2, buf2),
        set_offset fd (position fd os2 + of_nat (length bs)) (snd (offset fd os2)))"
    using v(1-3) r2(1) len(1)
    by (simp add: node_read_during_def read_answer_def position_def store_at_def case_prod_beta Let_def)
  moreover have "unat (position fd os2 + of_nat (length bs)) = p + length bs + length bs2"
  proof -
    have "position fd os2 + of_nat (length bs) = of_nat (p + length bs2 + length bs)"
      using arg_cong [OF r2(3), of "of_nat :: nat \<Rightarrow> u32"] by simp
    moreover have "p + length bs2 + length bs < 2 ^ 32" using len by simp
    ultimately show ?thesis by (simp only: unat_of_nat) (simp add: take_bit_nat_eq_self)
  qed
  ultimately show ?thesis using r2(2) scast_small(1) [of "length bs"] len by auto
qed

theorem overlapping_reads_witness:
  "\<exists>r buf r2 buf2 os'.
    node_read_during (node_read (answering (file_script (ascii ''hello''))) 3 (replicate 2 0))
      (answering (file_script (ascii ''hello''))) 3 (replicate 2 0) start_os = Ret (((r, buf), r2, buf2), os') \<and>
    take (unat r) buf = ascii ''he'' \<and> take (unat r2) buf2 = ascii ''he'' \<and> unat (position 3 os') = 4"
proof -
  have p: "unat (position 3 start_os) = 0" by (simp add: position_def offset_def start_os_def)
  have l: "length (ascii ''hello'') = 5" "length (ascii ''he'') = 2" "ascii ''he'' = take 2 (drop 0 (ascii ''hello''))"
    by (simp_all add: ascii_def)
  from overlapping_reads [OF file_script_serves [of "ascii ''hello''"] p _ _ _ _ l(3) l(3)] l(1) show ?thesis
    unfolding l(2) by auto
qed

end
