(* ===== verification/EndToEnd.thy ===== *)
theory EndToEnd
  imports ConfinementFacts FilesystemsFacts
begin

text \<open>
  A call of the program through every part of the sandbox: a \<open>read\<close> of a file that the script
  serves, from the filter over the event loop, the VFS and the script's file system to the bytes
  in the program's memory and the result in its registers.
\<close>

lemma position_errno: "position fd (e, w) = position fd (e', w)"
  by (auto simp: position_def offset_def split: option.split)

lemma write_child_bytes:
  assumes "mapped (mem (sbox s) (call_pid c)) a (length bs + 7)" "take (length bs) buf = bs" "length bs \<le> length buf"
    and "length bs < 2 ^ 31"
  shows "\<exists>b. write_child c a (length bs) buf s = Ret (s\<lparr>sbox := b\<rparr>) \<and>
    mem_bytes (mem b (call_pid c)) a (length bs) = Some bs"
proof (cases "bs = []")
  case True
  then show ?thesis
    by (intro exI [of _ "sbox s"]) (simp add: write_child_def writeData_empty mem_bytes_def)
next
  case False
  define n where "n = (length bs + 7) div 8"
  have n: "8 * n \<le> length bs + 7" "words n (length bs)" by (simp_all add: n_def words_exist)
  have m: "mapped (mem (sbox s) (call_pid c)) a (8 * n)"
    using assms(1) n(1) by (auto simp: mapped_def)
  have "8 * n \<le> 2 ^ 64" using n(1) assms(4) by simp
  from writeData_Ret [OF m n(2) _ assms(3) this] False assms(2)
  have w: "writeData (sbox s) (call_pid c) a (length bs) buf = Ret (True, (sbox s)\<lparr>errno := 0,
      mem := (mem (sbox s))(call_pid c := mem_write (mem (sbox s) (call_pid c)) a bs)\<rparr>)" by simp
  have "mem_bytes (mem_write (mem (sbox s) (call_pid c)) a bs) a (length bs) = Some bs"
    using mem_read_back [of bs] assms(4) by simp
  with w show ?thesis
    by (intro exI [of _ "(sbox s)\<lparr>errno := 0, mem := (mem (sbox s))(call_pid c :=
        mem_write (mem (sbox s) (call_pid c)) a bs)\<rparr>"]) (simp add: write_child_def)
qed

lemma read_from_script:
  assumes "isVirtualFD (arg32 c 0)" "openFiles s (arg32 c 0) = Some (Some a)" "m_fs (files s ! a) = node_filesystem E"
    and "serves E content" "length content < 2 ^ 31" "unat (arg c 2) = n" "n < 2 ^ 31"
    and "unat (position (m_localFD (files s ! a)) (errno (sbox s), world s)) = pos" "pos \<le> length content"
    and "mapped (mem (sbox s) (call_pid c)) (arg c 1) (n + 7)" "sys_id c = 0"
  shows "\<exists>s'. handleSyscall c s = Ret (c\<lparr>sys_id := -1, returnVal := of_nat (length (take n (drop pos content)))\<rparr>, s') \<and>
    mem_bytes (mem (sbox s') (call_pid c)) (arg c 1) (length (take n (drop pos content))) = Some (take n (drop pos content)) \<and>
    unat (position (m_localFD (files s ! a)) (0, world s')) = pos + length (take n (drop pos content))"
proof -
  let ?fd = "m_localFD (files s ! a)"
  define bs where "bs = take n (drop pos content)"
  have len: "length bs \<le> n" "length bs < 2 ^ 31" using assms(5,7) by (auto simp: bs_def)
  from node_read_serves [OF assms(4,8,9,5,7)] obtain r buf e w where
    r: "node_read E ?fd (replicate n 0) (errno (sbox s), world s) = Ret ((r, buf), e, w)"
    "take (unat r) buf = bs" "unat (position ?fd (e, w)) = pos + length bs" "r = of_nat (length bs)" "length buf = n"
    unfolding bs_def by auto
  have u: "unat r = length bs" using len(2) r(4) by (simp add: unat_small)
  have pos: "0 \<le>s r" using scast_small(2,3) [OF len(2)] r(4) by simp
  let ?s = "s\<lparr>sbox := (sbox s)\<lparr>errno := e\<rparr>, world := w\<rparr>" and ?c = "c\<lparr>sys_id := -1\<rparr>"
  have "mapped (mem (sbox ?s) (call_pid ?c)) (arg c 1) (length bs + 7)"
    using assms(10) len(1) by (auto simp: mapped_def)
  from write_child_bytes [OF this, of buf] r(2,5) u len obtain b where
    b: "write_child ?c (arg c 1) (length bs) buf ?s = Ret (?s\<lparr>sbox := b\<rparr>)" "mem_bytes (mem b (call_pid c)) (arg c 1) (length bs) = Some bs"
    by auto
  have "n < 2 ^ 63" using assms(7) by simp
  from do_read_node [OF assms(1,2,6) this assms(3)] r(1) pos u b(1)
  have "do_read c s = Ret (?c\<lparr>returnVal := r\<rparr>, ?s\<lparr>sbox := b\<rparr>)"
    by (simp add: in_world_def arg_def)
  with assms(11) r(3,4) b(2) position_errno [of ?fd 0 w e] show ?thesis
    unfolding bs_def [symmetric] by (simp add: handleSyscall_def)
qed

text \<open>
  C3. A \<open>read\<close> of a file that the script serves, end to end: the program is stopped by the filter,
  the kernel skips the call, the program gets the number of bytes read, which lie in its buffer and
  are those of the file at its position, and the position moves behind them.
\<close>

theorem program_reads_script_file:
  assumes "chooses decide" "entered_main (box_of h)" "orig_rax (regs_of T p) = 0" "isVirtualFD (ucast (rdi (regs_of T p)))"
    and "openFiles (vfs_of h) (ucast (rdi (regs_of T p))) = Some (Some a)"
    and "m_fs (files (vfs_of h) ! a) = node_filesystem E" "serves E content" "length content < 2 ^ 31"
    and "unat (rdx (regs_of T p)) = n" "n < 2 ^ 31"
    and "unat (position (m_localFD (files (vfs_of h) ! a)) (0, world (vfs_of h))) = pos" "pos \<le> length content"
    and "mapped (mem (box_of h) p) (rsi (regs_of T p)) (n + 7)"
    and "bs = take n (drop pos content)"
  shows "\<exists>h'. program_call decide T p h = Ret (Skipped (of_nat (length bs)), h') \<and>
    mem_bytes (mem (box_of h') p) (rsi (regs_of T p)) (length bs) = Some bs \<and>
    unat (position (m_localFD (files (vfs_of h) ! a)) (0, world (vfs_of h'))) = pos + length bs"
proof -
  let ?c = "call_of_regs (junk_return T) p (regs_of T p)" and ?h = "set_box (resetScratch (box_of h)) h"
  let ?s = "vfs_of ?h"
  have v: "nr_verdict decide (orig_rax (regs_of T p)) (rdi (regs_of T p)) = Trace"
    using nr_descriptor [OF assms(1), of 0 "rdi (regs_of T p)"] virtual_fd_bound [OF assms(4)] assms(3)
    by (simp add: descriptor_calls_def)
  have c: "arg32 ?c 0 = ucast (rdi (regs_of T p))" "arg ?c 1 = rsi (regs_of T p)" "arg ?c 2 = rdx (regs_of T p)"
    "call_pid ?c = p" "sys_id ?c = 0"
    using assms(3) by (simp_all add: call_of_regs_def arg_def arg32_def)
  have s: "openFiles ?s = openFiles (vfs_of h)" "files ?s = files (vfs_of h)" "world ?s = world (vfs_of h)"
    "mem (sbox ?s) = mem (box_of h)"
    by (simp_all add: set_box_def resetScratch_def)
  obtain s' where s': "handleSyscall ?c ?s = Ret (?c\<lparr>sys_id := -1, returnVal := of_nat (length bs)\<rparr>, s')"
    "mem_bytes (mem (sbox s') p) (rsi (regs_of T p)) (length bs) = Some bs"
    "unat (position (m_localFD (files (vfs_of h) ! a)) (0, world s')) = pos + length bs"
    using read_from_script [of ?c ?s a E content n pos] assms(4-13)
      position_errno [of "m_localFD (files (vfs_of h) ! a)" "errno (sbox ?s)" "world (vfs_of h)" 0]
    unfolding c s assms(14) by auto
  have nd: "node_handleSyscall (junk_path T) ?c ?h = Ret (?c, ?h)" by (rule node_passes) (simp add: assms(3))
  define c2 where "c2 = ?c\<lparr>sys_id := -1, returnVal := of_nat (length bs)\<rparr>"
  define h1 where "h1 = ask [Set_regs p (regs_of_call c2 (regs_of T p))] (?h\<lparr>vfs_of := s'\<rparr>)"
  have e: "handleSeccompEvent T p h = Ret h1"
    using nd s'(1) assms(2) by (simp add: handleSeccompEvent_def Let_def h1_def c2_def)
  have hd: "handled T p h ?c c2 ?s (vfs_of h1)" using nd s'(1) by (auto simp: handled_def h1_def c2_def)
  have f: "Skipped (of_nat (length bs)) = (if sys_id c2 = -1 then Skipped (returnVal c2) else Executed (regs_of_call c2 (regs_of T p)))"
    by (simp add: c2_def)
  have "program_call decide T p h = Ret (Skipped (of_nat (length bs)), ask [Cont p 0] h1)"
    unfolding program_call_traced [OF v assms(2)] using e hd f by blast
  moreover have "vfs_of h1 = s'" "box_of h1 = sbox s'" by (simp_all add: h1_def box_of_def)
  ultimately show ?thesis using s'(2,3) by (intro exI [of _ "ask [Cont p 0] h1"]) simp
qed

definition reading_host :: "unit node_world host" where
  "reading_host = \<lparr>vfs_of = (script_vfs (file_script (ascii ''hello'')))\<lparr>sbox := sample_child\<rparr>, requests = []\<rparr>"

definition reading_call :: tracee where
  "reading_call = sample_tracee\<lparr>regs_of := \<lambda>_. sample_regs\<lparr>orig_rax := 0, rsi := 0x1000, rdx := 4\<rparr>\<rparr>"

theorem program_reads_script_file_witness:
  "\<exists>h'. program_call hd reading_call 7 reading_host = Ret (Skipped 4, h') \<and>
    mem_bytes (mem (box_of h') 7) 0x1000 4 = Some (ascii ''hell'')"
proof -
  let ?E = "answering (file_script (ascii ''hello''))" and ?regs = "regs_of reading_call 7" and ?s = "vfs_of reading_host"
  have r: "orig_rax ?regs = 0" "rdi ?regs = 4096" "rsi ?regs = 0x1000" "rdx ?regs = 4"
    by (simp_all add: reading_call_def sample_regs_def)
  have s: "openFiles ?s 4096 = Some (Some 0)" "files ?s ! 0 = \<lparr>m_localFD = 3, m_virtualFD = 4096, m_path = ascii ''/x'', m_fs = node_filesystem ?E\<rparr>"
    "world ?s = snd start_os" "box_of reading_host = sample_child"
    by (simp_all add: reading_host_def script_vfs_def box_of_def)
  have "mapped (mem sample_child 7) (0x1000 + of_nat 0) 11"
    by (rule mapped_part [OF conjunct1 [OF bytes_mapped [OF sample_bytes [of 7]]]]) simp
  then have m: "mapped (mem (box_of reading_host) 7) 0x1000 (4 + 7)" by (simp add: s)
  have v: "isVirtualFD (ucast (4096 :: u64))" using sample_virtual by simp
  have p: "unat (position 3 (0, snd start_os)) = 0" by (simp add: position_def offset_def start_os_def)
  have a: "ascii ''hell'' = take 4 (drop 0 (ascii ''hello''))" "length (ascii ''hell'') = 4" "length (ascii ''hello'') = 5"
    by (simp_all add: ascii_def)
  have "entered_main (box_of reading_host)" by (simp add: s sample_child_def)
  with program_reads_script_file [of hd reading_host reading_call 7 0 ?E "ascii ''hello''" 4 0 "ascii ''hell''"]
    file_script_serves [of "ascii ''hello''"] m v p a(1)
  have "\<exists>h'. program_call hd reading_call 7 reading_host = Ret (Skipped (of_nat (length (ascii ''hell''))), h') \<and>
      mem_bytes (mem (box_of h') 7) (rsi ?regs) (length (ascii ''hell'')) = Some (ascii ''hell'') \<and>
      unat (position 3 (0, world (vfs_of h'))) = 0 + length (ascii ''hell'')"
    by (simp add: r s chooses_def a(2,3))
  then show ?thesis unfolding a(2) r by auto
qed

end
